(* ===== verification/Prelude.thy ===== *)
theory Prelude
  imports "HOL-Library.Word"
begin

text \<open>
  What every component shares: the fixed-width integer types of the C code, the outcome
  type of kernel routines (a result, a call of \<^verbatim>\<open>panic\<close>, or a loop that does not end),
  its sequencing operator, combinators for C loops with their invariant rules, and facts about
  words.
\<close>

unbundle bit_operations_syntax

section \<open>Integer types\<close>

text \<open>\<^verbatim>\<open>uchar\<close>, \<^verbatim>\<open>ushort\<close> and \<^verbatim>\<open>uint\<close> of types.h. Pointers of the 32-bit kernel are \<open>u32\<close>.\<close>

type_synonym u8 = "8 word"
type_synonym u16 = "16 word"
type_synonym u32 = "32 word"

section \<open>Outcomes\<close>

text \<open>
  A routine returns, stops the machine with \<^verbatim>\<open>panic(msg)\<close>, or never returns (it spins, or
  a loop runs forever).
\<close>

datatype 'a outcome = Ret 'a | Panic string | Diverge

definition obind :: "'a outcome \<Rightarrow> ('a \<Rightarrow> 'b outcome) \<Rightarrow> 'b outcome" where
  "obind m f = (case m of Ret x \<Rightarrow> f x | Panic e \<Rightarrow> Panic e | Diverge \<Rightarrow> Diverge)"

lemma obind_simps [simp]:
  "obind (Ret x) f = f x"
  "obind (Panic e) f = Panic e"
  "obind Diverge f = Diverge"
  by (simp_all add: obind_def)

lemma obind_eq_Ret [simp]:
  "(obind m f = Ret y) = (\<exists>x. m = Ret x \<and> f x = Ret y)"
  by (cases m) auto

lemma obind_eq_Diverge:
  "(obind m f = Diverge) = (m = Diverge \<or> (\<exists>x. m = Ret x \<and> f x = Diverge))"
  by (cases m) auto

lemma obind_eq_Panic:
  "(obind m f = Panic e) = (m = Panic e \<or> (\<exists>x. m = Ret x \<and> f x = Panic e))"
  by (cases m) auto

lemma obind_assoc: "obind (obind m f) g = obind m (\<lambda>x. obind (f x) g)"
  by (cases m) auto

lemma obind_cong [fundef_cong]:
  "\<lbrakk> m = m'; \<And>x. m' = Ret x \<Longrightarrow> f x = g x \<rbrakk> \<Longrightarrow> obind m f = obind m' g"
  by (cases m') auto

section \<open>Loops\<close>

text \<open>
  A C loop over the local state \<open>s\<close>: the body either continues with a new state
  (\<open>Inl\<close>) or leaves the loop with a result (\<open>Inr\<close>), and may itself panic. The fuel
  bounds the number of iterations; running out of it is \<open>Diverge\<close>, so a theorem that a
  loop returns is a theorem that its fuel is enough.
\<close>

primrec loop :: "nat \<Rightarrow> ('s \<Rightarrow> ('s + 'r) outcome) \<Rightarrow> 's \<Rightarrow> 'r outcome" where
  "loop 0 b s = Diverge"
| "loop (Suc n) b s =
     obind (b s) (\<lambda>x. case x of Inl s' \<Rightarrow> loop n b s' | Inr r \<Rightarrow> Ret r)"

lemma loop_unfold:
  "0 < n \<Longrightarrow>
   loop n b s = obind (b s) (\<lambda>x. case x of Inl s' \<Rightarrow> loop (n - 1) b s' | Inr r \<Rightarrow> Ret r)"
  by (cases n) simp_all

text \<open>The invariant rule for results: the body keeps \<open>I\<close> and leaves only with \<open>Q\<close>.\<close>

lemma loop_invariant:
  assumes "loop n b s = Ret r" and "I s"
    and "\<And>s s'. I s \<Longrightarrow> b s = Ret (Inl s') \<Longrightarrow> I s'"
    and "\<And>s r. I s \<Longrightarrow> b s = Ret (Inr r) \<Longrightarrow> Q r"
  shows "Q r"
  using assms(1,2)
proof (induction n arbitrary: s)
  case 0
  then show ?case by simp
next
  case (Suc n)
  then obtain x where x: "b s = Ret x" "(case x of Inl s' \<Rightarrow> loop n b s' | Inr r \<Rightarrow> Ret r) = Ret r"
    by auto
  show ?case
  proof (cases x)
    case (Inl s')
    with x Suc.prems(2) assms(3) have "I s'" "loop n b s' = Ret r" by auto
    then show ?thesis by (intro Suc.IH)
  next
    case (Inr r')
    with x Suc.prems(2) assms(4) show ?thesis by auto
  qed
qed

text \<open>Enough fuel: a measure that every continuing iteration decreases.\<close>

lemma loop_terminates:
  assumes "I s" and "f s < n"
    and "\<And>s. I s \<Longrightarrow> b s \<noteq> Diverge"
    and "\<And>s s'. I s \<Longrightarrow> b s = Ret (Inl s') \<Longrightarrow> I s' \<and> f s' < f s"
  shows "loop n b s \<noteq> Diverge"
  using assms(1,2)
proof (induction n arbitrary: s)
  case 0
  then show ?case by simp
next
  case (Suc n)
  have *: "loop n b s' \<noteq> Diverge" if "b s = Ret (Inl s')" for s'
    using assms(4)[OF Suc.prems(1) that] Suc.prems(2) by (intro Suc.IH) auto
  then show ?case
    using assms(3)[OF Suc.prems(1)]
    by (auto simp: obind_eq_Diverge split: sum.splits)
qed

text \<open>The body never panics under the invariant, so neither does the loop.\<close>

lemma loop_no_panic:
  assumes "I s"
    and "\<And>s e. I s \<Longrightarrow> b s \<noteq> Panic e"
    and "\<And>s s'. I s \<Longrightarrow> b s = Ret (Inl s') \<Longrightarrow> I s'"
  shows "loop n b s \<noteq> Panic e"
  using assms(1)
proof (induction n arbitrary: s)
  case 0
  then show ?case by simp
next
  case (Suc n)
  then show ?case
    using assms(2,3) by (auto simp: obind_eq_Panic split: sum.splits)
qed

text \<open>A loop over a list of values whose body may panic.\<close>

primrec ofold :: "('i \<Rightarrow> 's \<Rightarrow> 's outcome) \<Rightarrow> 'i list \<Rightarrow> 's \<Rightarrow> 's outcome" where
  "ofold f [] s = Ret s"
| "ofold f (x # xs) s = obind (f x s) (ofold f xs)"

lemma ofold_append: "ofold f (xs @ ys) s = obind (ofold f xs s) (ofold f ys)"
proof (induction xs arbitrary: s)
  case (Cons x xs)
  show ?case by (cases "f x s") (simp_all add: Cons)
qed simp

lemma ofold_cong [fundef_cong]:
  "\<lbrakk> xs = ys; s = t; \<And>x s. x \<in> set ys \<Longrightarrow> f x s = g x s \<rbrakk> \<Longrightarrow> ofold f xs s = ofold g ys t"
proof -
  assume a: "xs = ys" "s = t" "\<And>x s. x \<in> set ys \<Longrightarrow> f x s = g x s"
  have "ofold f ys t = ofold g ys t"
    using a(3) by (induction ys arbitrary: t) (auto intro!: obind_cong)
  then show ?thesis using a(1,2) by simp
qed

section \<open>Words\<close>

lemma unat_and_mask: "unat (a AND mask n :: 'a::len word) = unat a mod 2 ^ n"
  by (metis take_bit_eq_mask take_bit_eq_mod unsigned_take_bit_eq)

lemma and_not_mask: "(a :: 'a::len word) AND NOT (mask n) = push_bit n (drop_bit n a)"
  by (rule bit_word_eqI) (auto simp: bit_simps)

lemma unat_and_not_mask:
  "unat (a AND NOT (mask n) :: 'a::len word) = unat a - unat a mod 2 ^ n"
proof -
  have "a AND mask n OR a AND NOT (mask n) = a"
    by (rule bit_word_eqI) (auto simp: bit_simps)
  moreover have "(a AND mask n) AND (a AND NOT (mask n)) = 0"
    by (rule bit_word_eqI) (auto simp: bit_simps)
  ultimately have *: "(a AND mask n) + (a AND NOT (mask n)) = a"
    by (simp add: disjunctive_add_eq_or)
  have "a AND mask n \<le> a" by (simp add: word_and_le2)
  then have "unat (a - (a AND mask n)) = unat a - unat (a AND mask n)"
    by (simp add: unat_sub)
  moreover have "a - (a AND mask n) = a AND NOT (mask n)"
    using * by (simp add: diff_eq_eq add.commute)
  ultimately show ?thesis by (simp add: unat_and_mask)
qed

lemma unat_add_no_wrap:
  "unat (a :: 'a::len word) + unat b < 2 ^ LENGTH('a) \<Longrightarrow> unat (a + b) = unat a + unat b"
  by (simp add: unat_add_lem)

lemma unat_lt_2p32 [simp]: "unat (a :: u32) < 4294967296"
  using unsigned_less [of a, where ?'a = nat] by simp

lemma or_eq_add: "(a :: 'a::len word) AND b = 0 \<Longrightarrow> a OR b = a + b"
  by (simp add: disjunctive_add_eq_or)

text \<open>Bits below an alignment: \<open>2 ^ n\<close> divides \<open>a\<close> exactly when its low \<open>n\<close> bits are clear.\<close>

lemma dvd_iff_low_bits:
  "2 ^ n dvd unat (a :: 'a::len word) \<longleftrightarrow> a AND mask n = 0"
proof -
  have "2 ^ n dvd unat a \<longleftrightarrow> unat (a AND mask n) = 0"
    by (simp add: unat_and_mask dvd_eq_mod_eq_0)
  then show ?thesis by (simp add: unsigned_eq_0_iff)
qed

lemma and_eq_0_low:
  assumes "2 ^ n dvd unat (a :: 'a::len word)" and "unat b < 2 ^ n"
  shows "a AND b = 0"
proof -
  have "a AND mask n = 0" using assms(1) by (simp add: dvd_iff_low_bits)
  moreover have "b AND mask n = b"
    using assms(2) by (metis mod_less unat_and_mask word_unat_eq_iff)
  ultimately show ?thesis
    by (metis and.assoc and.commute and_zero_eq)
qed

text \<open>An aligned block ends inside the address space.\<close>

lemma dvd_less_room: "b dvd x \<Longrightarrow> b dvd n \<Longrightarrow> x < n \<Longrightarrow> x + b \<le> (n :: nat)"
  by (metis add.commute dvd_diff_nat dvd_imp_le le_add_diff_inverse2 less_imp_le_nat
      add_le_mono1 zero_less_diff)

lemma aligned_room:
  assumes "2 ^ n dvd unat (a :: 'a::len word)" and "n \<le> LENGTH('a)"
  shows "unat a + 2 ^ n \<le> 2 ^ LENGTH('a)"
proof -
  obtain k where k: "unat a = 2 ^ n * k" using assms(1) by (elim dvdE)
  have p: "(2::nat) ^ LENGTH('a) = 2 ^ n * 2 ^ (LENGTH('a) - n)"
    using assms(2) by (simp flip: power_add)
  have "2 ^ n * k < 2 ^ n * 2 ^ (LENGTH('a) - n)"
    using unsigned_less [of a, where ?'a = nat] by (simp add: k p)
  then have "k + 1 \<le> 2 ^ (LENGTH('a) - n)" by simp
  then have "2 ^ n * (k + 1) \<le> 2 ^ n * 2 ^ (LENGTH('a) - n)" by (rule mult_le_mono2)
  then show ?thesis by (simp add: k p)
qed

text \<open>Single-bit flags.\<close>

lemma and_flag: "(w :: 'a::len word) AND push_bit n 1 = (if bit w n then push_bit n 1 else 0)"
  by (rule bit_word_eqI) (auto simp: bit_simps)

lemma flag_cleared: "\<not> bit (w AND NOT (push_bit n 1) :: 'a::len word) n"
  by (simp add: bit_simps)

lemma flag_set: "n < LENGTH('a) \<Longrightarrow> bit (w OR push_bit n 1 :: 'a::len word) n"
  by (simp add: bit_simps)

lemma flag_restore: "bit w n \<Longrightarrow> w AND NOT (push_bit n 1) OR push_bit n 1 = (w :: 'a::len word)"
  by (rule bit_word_eqI) (auto simp: bit_simps)

lemma flag_clear_id: "\<not> bit w n \<Longrightarrow> w AND NOT (push_bit n 1) = (w :: 'a::len word)"
  by (rule bit_word_eqI) (auto simp: bit_simps)

lemma or_has_flag:
  assumes "c AND f = (f :: 'a::len word)"
  shows "(w OR c) AND f = f"
proof (rule bit_word_eqI)
  fix n
  show "bit ((w OR c) AND f) n = bit f n"
    using assms by (metis bit_and_iff bit_or_iff)
qed

lemma sint_low:
  assumes "unat (n :: u32) < 2 ^ 31"
  shows "sint n = int (unat n)"
proof -
  have "int (unat n) < int (2 ^ 31)" using assms by (simp only: of_nat_less_iff)
  then have "uint n < 2 ^ 31" "- (2 ^ 31) \<le> uint n"
    by (simp_all only: uint_nat of_nat_power of_nat_numeral)
  then have "signed_take_bit 31 (uint n) = uint n" by (intro signed_take_bit_int_eq_self) simp_all
  then show ?thesis by (simp add: sint_uint)
qed

end
