(* ===== verification/Layout.thy ===== *)
theory Layout
  imports Prelude
begin

text \<open>
  The address-space layout: the constants of memlayout.h, mmu.h, param.h and proc.h and the
  macros that take a virtual address apart (\<open>PDX\<close>, \<open>PTX\<close>), put one together (\<open>PGADDR\<close>),
  round to 4 KB and 4 MB pages, and split a page-table entry. The lemmas give each macro its
  arithmetic meaning on \<open>unat\<close>, the round trips between them, and the overflow of the
  rounding macros.
\<close>

section \<open>Constants\<close>

abbreviation (input) EXTMEM :: u32 where "EXTMEM \<equiv> 0x100000"
abbreviation (input) PHYSTOP :: u32 where "PHYSTOP \<equiv> 0xE000000"
abbreviation (input) DEVSPACE :: u32 where "DEVSPACE \<equiv> 0xFE000000"
abbreviation (input) KERNBASE :: u32 where "KERNBASE \<equiv> 0x80000000"
abbreviation (input) KERNLINK :: u32 where "KERNLINK \<equiv> KERNBASE + EXTMEM"
abbreviation (input) HUGE_PAGE_START :: u32 where "HUGE_PAGE_START \<equiv> 0x1E000000"
abbreviation (input) HUGE_PAGE_END :: u32 where "HUGE_PAGE_END \<equiv> 0x3E000000"
abbreviation (input) HUGE_PAGE_SIZE :: u32 where "HUGE_PAGE_SIZE \<equiv> 0x400000"
abbreviation (input) HUGE_VA_OFFSET :: u32 where "HUGE_VA_OFFSET \<equiv> 0x1E000000"

abbreviation (input) SEG_KCODE :: nat where "SEG_KCODE \<equiv> 1"
abbreviation (input) SEG_KDATA :: nat where "SEG_KDATA \<equiv> 2"
abbreviation (input) SEG_UCODE :: nat where "SEG_UCODE \<equiv> 3"
abbreviation (input) SEG_UDATA :: nat where "SEG_UDATA \<equiv> 4"
abbreviation (input) SEG_TSS :: nat where "SEG_TSS \<equiv> 5"
abbreviation (input) DPL_USER :: nat where "DPL_USER \<equiv> 3"
abbreviation (input) FL_IF :: u32 where "FL_IF \<equiv> 0x200"
abbreviation (input) NPDENTRIES :: nat where "NPDENTRIES \<equiv> 1024"
abbreviation (input) NPTENTRIES :: nat where "NPTENTRIES \<equiv> 1024"
abbreviation (input) PGSIZE :: u32 where "PGSIZE \<equiv> 4096"
abbreviation (input) PTXSHIFT :: nat where "PTXSHIFT \<equiv> 12"
abbreviation (input) PDXSHIFT :: nat where "PDXSHIFT \<equiv> 22"

abbreviation (input) PTE_P :: u32 where "PTE_P \<equiv> 0x001"
abbreviation (input) PTE_W :: u32 where "PTE_W \<equiv> 0x002"
abbreviation (input) PTE_U :: u32 where "PTE_U \<equiv> 0x004"
abbreviation (input) PTE_PS :: u32 where "PTE_PS \<equiv> 0x080"

abbreviation (input) NPROC :: nat where "NPROC \<equiv> 64"
abbreviation (input) KSTACKSIZE :: u32 where "KSTACKSIZE \<equiv> 4096"
abbreviation (input) NCPU :: nat where "NCPU \<equiv> 8"
abbreviation (input) NOFILE :: nat where "NOFILE \<equiv> 16"
abbreviation (input) NFILE :: nat where "NFILE \<equiv> 100"
abbreviation (input) NINODE :: nat where "NINODE \<equiv> 50"
abbreviation (input) NDEV :: nat where "NDEV \<equiv> 10"
abbreviation (input) ROOTDEV :: u32 where "ROOTDEV \<equiv> 1"
abbreviation (input) MAXARG :: nat where "MAXARG \<equiv> 32"
abbreviation (input) MAXOPBLOCKS :: nat where "MAXOPBLOCKS \<equiv> 10"
abbreviation (input) LOGSIZE :: nat where "LOGSIZE \<equiv> MAXOPBLOCKS * 3"
abbreviation (input) NBUF :: nat where "NBUF \<equiv> MAXOPBLOCKS * 3"
abbreviation (input) FSSIZE :: nat where "FSSIZE \<equiv> 1000"

section \<open>Address macros\<close>

definition V2P :: "u32 \<Rightarrow> u32" where
  "V2P a = a - KERNBASE"

definition P2V :: "u32 \<Rightarrow> u32" where
  "P2V a = a + KERNBASE"

definition PDX :: "u32 \<Rightarrow> u32" where
  "PDX va = drop_bit PDXSHIFT va AND 0x3FF"

definition PTX :: "u32 \<Rightarrow> u32" where
  "PTX va = drop_bit PTXSHIFT va AND 0x3FF"

definition PGADDR :: "u32 \<Rightarrow> u32 \<Rightarrow> u32 \<Rightarrow> u32" where
  "PGADDR d t o' = push_bit PDXSHIFT d OR push_bit PTXSHIFT t OR o'"

definition PGROUNDUP :: "u32 \<Rightarrow> u32" where
  "PGROUNDUP sz = (sz + PGSIZE - 1) AND NOT (PGSIZE - 1)"

definition PGROUNDDOWN :: "u32 \<Rightarrow> u32" where
  "PGROUNDDOWN a = a AND NOT (PGSIZE - 1)"

definition HUGEPGROUNDUP :: "u32 \<Rightarrow> u32" where
  "HUGEPGROUNDUP sz = (sz + push_bit 22 1 - 1) AND NOT (push_bit 22 1 - 1)"

definition HUGEPGROUNDDOWN :: "u32 \<Rightarrow> u32" where
  "HUGEPGROUNDDOWN a = a AND NOT (push_bit 22 1 - 1)"

definition PTE_ADDR :: "u32 \<Rightarrow> u32" where
  "PTE_ADDR pte = pte AND NOT 0xFFF"

definition PTE_FLAGS :: "u32 \<Rightarrow> u32" where
  "PTE_FLAGS pte = pte AND 0xFFF"

section \<open>Arithmetic meaning\<close>

lemma mask_literals:
  "(0xFFF :: u32) = mask 12" "(0x3FF :: u32) = mask 10" "(0x3FFFFF :: u32) = mask 22"
  by (simp_all add: mask_eq_exp_minus_1)

lemma V2P_P2V [simp]: "V2P (P2V a) = a"
  by (simp add: V2P_def P2V_def)

lemma P2V_V2P [simp]: "P2V (V2P a) = a"
  by (simp add: V2P_def P2V_def)

lemma P2V_inject [simp]: "P2V a = P2V b \<longleftrightarrow> a = b"
  by (simp add: P2V_def)

lemma V2P_inject [simp]: "V2P a = V2P b \<longleftrightarrow> a = b"
  by (simp add: V2P_def)

lemma unat_PDX: "unat (PDX va) = unat va div 2 ^ 22"
proof -
  have "unat va div 2 ^ 22 < 2 ^ 10"
    using unat_lt_2p32 [of va] by (intro less_mult_imp_div_less) simp
  then show ?thesis
    unfolding PDX_def mask_literals unat_and_mask
    by (simp add: drop_bit_eq_div unat_div)
qed

lemma unat_PTX: "unat (PTX va) = unat va div 2 ^ 12 mod 2 ^ 10"
  unfolding PTX_def mask_literals unat_and_mask
  by (simp add: drop_bit_eq_div unat_div)

lemma PDX_less [simp]: "unat (PDX va) < 1024"
  using unat_lt_2p32 [of va] by (simp add: unat_PDX less_mult_imp_div_less)

lemma PTX_less [simp]: "unat (PTX va) < 1024"
  by (simp add: unat_PTX)

lemma unat_PGROUNDDOWN: "unat (PGROUNDDOWN a) = unat a - unat a mod 4096"
proof -
  have "(PGSIZE - 1 :: u32) = mask 12" by (simp add: mask_eq_exp_minus_1)
  then show ?thesis
    unfolding PGROUNDDOWN_def by (simp only: unat_and_not_mask) simp
qed

lemma unat_HUGEPGROUNDDOWN: "unat (HUGEPGROUNDDOWN a) = unat a - unat a mod 4194304"
proof -
  have "(push_bit 22 1 - 1 :: u32) = mask 22" by (simp add: mask_eq_exp_minus_1)
  then show ?thesis
    unfolding HUGEPGROUNDDOWN_def by (simp only: unat_and_not_mask) simp
qed

lemma PGROUNDUP_eq: "PGROUNDUP a = PGROUNDDOWN (a + 4095)"
  by (simp add: PGROUNDUP_def PGROUNDDOWN_def add.commute)

lemma HUGEPGROUNDUP_eq: "HUGEPGROUNDUP a = HUGEPGROUNDDOWN (a + 4194303)"
  by (simp add: HUGEPGROUNDUP_def HUGEPGROUNDDOWN_def add_diff_eq [symmetric])

lemma unat_PGROUNDUP:
  "unat a \<le> 0xFFFFF000 \<Longrightarrow> unat (PGROUNDUP a) = (unat a + 4095) div 4096 * 4096"
  by (simp add: PGROUNDUP_eq unat_PGROUNDDOWN unat_add_no_wrap minus_mod_eq_div_mult)

lemma unat_HUGEPGROUNDUP:
  "unat a \<le> 0xFFC00000 \<Longrightarrow>
   unat (HUGEPGROUNDUP a) = (unat a + 4194303) div 4194304 * 4194304"
  by (simp add: HUGEPGROUNDUP_eq unat_HUGEPGROUNDDOWN unat_add_no_wrap minus_mod_eq_div_mult)

lemma PGROUNDUP_props:
  assumes "unat a \<le> 0xFFFFF000"
  shows "4096 dvd unat (PGROUNDUP a)" "unat a \<le> unat (PGROUNDUP a)"
    "unat (PGROUNDUP a) < unat a + 4096"
  using assms by (auto simp: unat_PGROUNDUP)

lemma HUGEPGROUNDUP_props:
  assumes "unat a \<le> 0xFFC00000"
  shows "4194304 dvd unat (HUGEPGROUNDUP a)" "unat a \<le> unat (HUGEPGROUNDUP a)"
    "unat (HUGEPGROUNDUP a) < unat a + 4194304"
  using assms by (auto simp: unat_HUGEPGROUNDUP)

lemma PGROUNDUP_le_iff:
  assumes "unat a \<le> 0xFFFFF000" "4096 dvd unat x"
  shows "PGROUNDUP a \<le> x \<longleftrightarrow> a \<le> x"
  using PGROUNDUP_props [OF assms(1)] dvd_less_room [of 4096 "unat x" "unat (PGROUNDUP a)"] assms(2)
  unfolding word_le_nat_alt by linarith

lemma HUGEPGROUNDUP_le_iff:
  assumes "unat a \<le> 0xFFC00000" "4194304 dvd unat x"
  shows "HUGEPGROUNDUP a \<le> x \<longleftrightarrow> a \<le> x"
  using HUGEPGROUNDUP_props [OF assms(1)] assms(2)
    dvd_less_room [of 4194304 "unat x" "unat (HUGEPGROUNDUP a)"]
  unfolding word_le_nat_alt by linarith

lemma unat_PTE_ADDR: "unat (PTE_ADDR a) = unat a - unat a mod 4096"
  unfolding PTE_ADDR_def mask_literals by (simp only: unat_and_not_mask) simp

lemma unat_PTE_FLAGS: "unat (PTE_FLAGS a) = unat a mod 4096"
  unfolding PTE_FLAGS_def mask_literals by (simp add: unat_and_mask)

section \<open>Round trips\<close>

lemma PGADDR_PDX_PTX: "PGADDR (PDX va) (PTX va) (va AND 0xFFF) = va"
  unfolding PGADDR_def PDX_def PTX_def mask_literals
proof (rule bit_word_eqI)
  fix n
  assume "n < LENGTH(32)"
  then show "bit (push_bit PDXSHIFT (drop_bit PDXSHIFT va AND mask 10) OR
      push_bit PTXSHIFT (drop_bit PTXSHIFT va AND mask 10) OR va AND mask 12) n = bit va n"
    by (cases "n < 22") (auto simp: bit_simps)
qed

lemma PGADDR_parts:
  assumes "unat d < 1024" "unat t < 1024" "unat o' < 4096"
  shows unat_PGADDR: "unat (PGADDR d t o') = unat d * 2 ^ 22 + unat t * 2 ^ 12 + unat o'"
    and PDX_PGADDR: "PDX (PGADDR d t o') = d"
    and PTX_PGADDR: "PTX (PGADDR d t o') = t"
proof -
  have d: "unat (push_bit PDXSHIFT d) = unat d * 2 ^ 22"
    using assms(1) by (simp add: push_bit_eq_mult unat_word_ariths(2))
  have t: "unat (push_bit PTXSHIFT t) = unat t * 2 ^ 12"
    using assms(2) by (simp add: push_bit_eq_mult unat_word_ariths(2))
  have "push_bit PTXSHIFT t AND o' = 0"
    by (rule and_eq_0_low [where n = 12]) (use t assms(3) in auto)
  then have to: "push_bit PTXSHIFT t OR o' = push_bit PTXSHIFT t + o'"
    by (rule or_eq_add)
  have uto: "unat (push_bit PTXSHIFT t OR o') = unat t * 2 ^ 12 + unat o'"
    unfolding to using t assms(2,3) by (subst unat_add_no_wrap) auto
  have "push_bit PDXSHIFT d AND (push_bit PTXSHIFT t OR o') = 0"
    by (rule and_eq_0_low [where n = 22]) (use d uto assms in auto)
  then have "PGADDR d t o' = push_bit PDXSHIFT d + (push_bit PTXSHIFT t OR o')"
    unfolding PGADDR_def by (simp add: or_eq_add or.assoc)
  then show u: "unat (PGADDR d t o') = unat d * 2 ^ 22 + unat t * 2 ^ 12 + unat o'"
    using d uto assms by (simp add: unat_add_no_wrap)
  have "unat (PDX (PGADDR d t o')) = unat d"
    unfolding unat_PDX u using assms by simp
  then show "PDX (PGADDR d t o') = d" by (simp add: word_unat_eq_iff)
  have "unat (PTX (PGADDR d t o')) = unat t"
  proof -
    have "unat d * 2 ^ 22 + unat t * 2 ^ 12 + unat o'
        = (unat d * 2 ^ 10 + unat t) * 2 ^ 12 + unat o'" by simp
    then have "(unat d * 2 ^ 22 + unat t * 2 ^ 12 + unat o') div 2 ^ 12
        = unat d * 2 ^ 10 + unat t" using assms(3) by (simp only: div_mult_self3) simp
    then show ?thesis unfolding unat_PTX u using assms(2) by simp
  qed
  then show "PTX (PGADDR d t o') = t" by (simp add: word_unat_eq_iff)
qed

text \<open>A page-table entry is a page address and twelve bits of flags.\<close>

lemma PTE_or_parts:
  assumes "4096 dvd unat pa" "unat f < 4096"
  shows PTE_ADDR_or: "PTE_ADDR (pa OR f) = pa"
    and PTE_FLAGS_or: "PTE_FLAGS (pa OR f) = f"
proof -
  have "pa AND f = 0"
    by (rule and_eq_0_low [where n = 12]) (use assms in auto)
  then have e: "pa OR f = pa + f" by (rule or_eq_add)
  have b: "unat pa + 4096 \<le> 4294967296"
    using aligned_room [of 12 pa] assms(1) by simp
  have u: "unat (pa OR f) = unat pa + unat f"
    unfolding e using b assms(2) by (simp add: unat_add_no_wrap)
  have "(unat pa + unat f) mod 4096 = unat f"
    using assms by (auto elim!: dvdE)
  then have "unat (PTE_ADDR (pa OR f)) = unat pa" "unat (PTE_FLAGS (pa OR f)) = unat f"
    by (simp_all add: unat_PTE_ADDR unat_PTE_FLAGS u)
  then show "PTE_ADDR (pa OR f) = pa" "PTE_FLAGS (pa OR f) = f"
    by (simp_all add: word_unat_eq_iff)
qed

lemma PTE_split: "PTE_ADDR e OR PTE_FLAGS e = e"
  unfolding PTE_ADDR_def PTE_FLAGS_def mask_literals
  by (rule bit_word_eqI) (auto simp: bit_simps)

lemma PTE_ADDR_aligned [simp]: "4096 dvd unat (PTE_ADDR e)"
  by (simp add: unat_PTE_ADDR dvd_minus_mod)

text \<open>The flag tests of the code look only at the low twelve bits.\<close>

lemma flag_tests:
  assumes "4096 dvd unat pa" "unat f < 4096"
  shows "(pa OR f) AND PTE_P = f AND PTE_P" "(pa OR f) AND PTE_W = f AND PTE_W"
    "(pa OR f) AND PTE_U = f AND PTE_U" "(pa OR f) AND PTE_PS = f AND PTE_PS"
proof -
  have *: "(pa OR f) AND c = f AND c" if "0xFFF AND c = c" for c
  proof -
    have "(pa OR f) AND c = PTE_FLAGS (pa OR f) AND c"
      using that by (simp add: PTE_FLAGS_def and.assoc)
    then show ?thesis using assms by (simp add: PTE_FLAGS_or)
  qed
  show "(pa OR f) AND PTE_P = f AND PTE_P" "(pa OR f) AND PTE_W = f AND PTE_W"
    "(pa OR f) AND PTE_U = f AND PTE_U" "(pa OR f) AND PTE_PS = f AND PTE_PS"
    by (rule *, simp)+
qed

end
