(* ===== verification/Cmem.thy ===== *)
theory Cmem
  imports Layout
begin

text \<open>
  Memory as the kernel's C code sees it, and string.c. A memory maps every address of the
  kernel's direct map to a byte; 32-bit loads and stores are little-endian. The routines of
  string.c are loops over that memory, with the string instructions of x86.h that
  \<open>memset\<close> uses; the lemmas show that each of them computes its one-line specification,
  and how 32-bit loads see it.
\<close>

type_synonym memory = "u32 \<Rightarrow> u8"

section \<open>Loads and stores\<close>

definition load32 :: "memory \<Rightarrow> u32 \<Rightarrow> u32" where
  "load32 m a = ucast (m a) OR push_bit 8 (ucast (m (a + 1))) OR
     push_bit 16 (ucast (m (a + 2))) OR push_bit 24 (ucast (m (a + 3)))"

definition store32 :: "memory \<Rightarrow> u32 \<Rightarrow> u32 \<Rightarrow> memory" where
  "store32 m a w = m(a := ucast w, a + 1 := ucast (drop_bit 8 w),
     a + 2 := ucast (drop_bit 16 w), a + 3 := ucast (drop_bit 24 w))"

section \<open>The string instructions (x86.h)\<close>

primrec stosb :: "memory \<Rightarrow> u32 \<Rightarrow> u8 \<Rightarrow> nat \<Rightarrow> memory" where
  "stosb m addr data 0 = m"
| "stosb m addr data (Suc cnt) = stosb (m(addr := data)) (addr + 1) data cnt"

primrec stosl :: "memory \<Rightarrow> u32 \<Rightarrow> u32 \<Rightarrow> nat \<Rightarrow> memory" where
  "stosl m addr data 0 = m"
| "stosl m addr data (Suc cnt) = stosl (store32 m addr data) (addr + 4) data cnt"

section \<open>string.c\<close>

definition memset :: "memory \<Rightarrow> u32 \<Rightarrow> u32 \<Rightarrow> u32 \<Rightarrow> memory" where
  "memset m dst c n =
     (if dst mod 4 = 0 \<and> n mod 4 = 0 then
        let c = c AND 0xFF
        in stosl m dst (push_bit 24 c OR push_bit 16 c OR push_bit 8 c OR c) (unat (n div 4))
      else stosb m dst (ucast c) (unat n))"

text \<open>A run of bytes stored at ascending addresses.\<close>

primrec poke :: "memory \<Rightarrow> u32 \<Rightarrow> u8 list \<Rightarrow> memory" where
  "poke m a [] = m"
| "poke m a (b # bs) = poke (m(a := b)) (a + 1) bs"

primrec memcmp_loop :: "memory \<Rightarrow> u32 \<Rightarrow> u32 \<Rightarrow> nat \<Rightarrow> int" where
  "memcmp_loop m s1 s2 0 = 0"
| "memcmp_loop m s1 s2 (Suc n) =
     (if m s1 \<noteq> m s2 then uint (m s1) - uint (m s2)
      else memcmp_loop m (s1 + 1) (s2 + 1) n)"

definition memcmp :: "memory \<Rightarrow> u32 \<Rightarrow> u32 \<Rightarrow> u32 \<Rightarrow> int" where
  "memcmp m v1 v2 n = memcmp_loop m v1 v2 (unat n)"

primrec copy_forward :: "memory \<Rightarrow> u32 \<Rightarrow> u32 \<Rightarrow> nat \<Rightarrow> memory" where
  "copy_forward m d s 0 = m"
| "copy_forward m d s (Suc n) = copy_forward (m(d := m s)) (d + 1) (s + 1) n"

primrec copy_backward :: "memory \<Rightarrow> u32 \<Rightarrow> u32 \<Rightarrow> nat \<Rightarrow> memory" where
  "copy_backward m d s 0 = m"
| "copy_backward m d s (Suc n) = copy_backward (m(d - 1 := m (s - 1))) (d - 1) (s - 1) n"

definition memmove :: "memory \<Rightarrow> u32 \<Rightarrow> u32 \<Rightarrow> u32 \<Rightarrow> memory" where
  "memmove m dst src n =
     (if src < dst \<and> src + n > dst then copy_backward m (dst + n) (src + n) (unat n)
      else copy_forward m dst src (unat n))"

primrec strncmp_loop :: "memory \<Rightarrow> u32 \<Rightarrow> u32 \<Rightarrow> nat \<Rightarrow> int" where
  "strncmp_loop m p q 0 = 0"
| "strncmp_loop m p q (Suc n) =
     (if m p \<noteq> 0 \<and> m p = m q then strncmp_loop m (p + 1) (q + 1) n
      else uint (m p) - uint (m q))"

definition strncmp :: "memory \<Rightarrow> u32 \<Rightarrow> u32 \<Rightarrow> u32 \<Rightarrow> int" where
  "strncmp m p q n = strncmp_loop m p q (unat n)"

primrec strncpy_loop :: "memory \<Rightarrow> u32 \<Rightarrow> u32 \<Rightarrow> nat \<Rightarrow> memory" where
  "strncpy_loop m s t 0 = m"
| "strncpy_loop m s t (Suc n) =
     (let c = m t; m' = m(s := c)
      in if c \<noteq> 0 then strncpy_loop m' (s + 1) (t + 1) n else stosb m' (s + 1) 0 n)"

definition strncpy :: "memory \<Rightarrow> u32 \<Rightarrow> u32 \<Rightarrow> int \<Rightarrow> memory" where
  "strncpy m s t n = strncpy_loop m s t (nat n)"

primrec safestrcpy_loop :: "memory \<Rightarrow> u32 \<Rightarrow> u32 \<Rightarrow> nat \<Rightarrow> memory" where
  "safestrcpy_loop m s t 0 = m(s := 0)"
| "safestrcpy_loop m s t (Suc n) =
     (let c = m t; m' = m(s := c)
      in if c \<noteq> 0 then safestrcpy_loop m' (s + 1) (t + 1) n else m'(s + 1 := 0))"

definition safestrcpy :: "memory \<Rightarrow> u32 \<Rightarrow> u32 \<Rightarrow> int \<Rightarrow> memory" where
  "safestrcpy m s t n = (if n \<le> 0 then m else safestrcpy_loop m s t (nat (n - 1)))"

partial_function (option) strlen_loop :: "memory \<Rightarrow> u32 \<Rightarrow> u32 \<Rightarrow> u32 option" where
  "strlen_loop m s n = (if m (s + n) = 0 then Some n else strlen_loop m s (n + 1))"

definition strlen :: "memory \<Rightarrow> u32 \<Rightarrow> u32 option" where
  "strlen m s = strlen_loop m s 0"

section \<open>What loads see of stores\<close>

lemma load32_cong:
  assumes "\<And>k. k < 4 \<Longrightarrow> m (a + word_of_nat k) = m' (a + word_of_nat k)"
  shows "load32 m a = load32 m' a"
  using assms [of 0] assms [of 1] assms [of 2] assms [of 3] by (simp add: load32_def)

lemma bytes_of_word:
  "ucast (ucast w :: u8) OR push_bit 8 (ucast (ucast (drop_bit 8 w) :: u8)) OR
   push_bit 16 (ucast (ucast (drop_bit 16 w) :: u8)) OR
   push_bit 24 (ucast (ucast (drop_bit 24 w) :: u8)) = (w :: u32)"
proof (rule bit_word_eqI)
  fix n
  assume n: "n < LENGTH(32)"
  consider "n < 8" | "8 \<le> n" "n < 16" | "16 \<le> n" "n < 24" | "24 \<le> n" "n < 32"
    using n by fastforce
  then show "bit (ucast (ucast w :: u8) OR push_bit 8 (ucast (ucast (drop_bit 8 w) :: u8)) OR
      push_bit 16 (ucast (ucast (drop_bit 16 w) :: u8)) OR
      push_bit 24 (ucast (ucast (drop_bit 24 w) :: u8)) :: u32) n = bit w n"
    by cases (auto simp: bit_simps)
qed

lemma load32_store32_same [simp]: "load32 (store32 m a w) a = w"
proof -
  have "load32 (store32 m a w) a = ucast (ucast w :: u8) OR
      push_bit 8 (ucast (ucast (drop_bit 8 w) :: u8)) OR
      push_bit 16 (ucast (ucast (drop_bit 16 w) :: u8)) OR
      push_bit 24 (ucast (ucast (drop_bit 24 w) :: u8))"
    by (simp add: load32_def store32_def)
  then show ?thesis by (simp only: bytes_of_word)
qed

text \<open>The bytes a 32-bit store touches: the region of four bytes from its address.\<close>

lemma store32_outside: "4 \<le> unat (x - a) \<Longrightarrow> store32 m a w x = m x"
  by (auto simp: store32_def)

lemma unat_minus_1: "(y :: 'a::len word) \<noteq> 0 \<Longrightarrow> unat (y - 1) = unat y - 1"
  by (rule unat_minus_one)

lemma add_word_of_nat: "unat (word_of_nat k :: u32) = k" if "k < 4294967296"
  using that by (simp add: unsigned_of_nat take_bit_eq_mod)

text \<open>Two words at multiples of four are the same word or disjoint.\<close>

lemma aligned_words_apart:
  assumes "4 dvd unat (a :: u32)" "4 dvd unat b" "a \<noteq> b" "k < 4"
  shows "4 \<le> unat (b + word_of_nat k - a)"
proof -
  have d: "4 dvd unat (b - a)"
    using assms(1,2) unat_lt_2p32 [of a] unat_lt_2p32 [of b]
    by (auto simp: unat_sub_if_size word_size intro!: dvd_diff_nat dvd_add)
  have "unat (b - a) \<noteq> 0" using assms(3) by (simp add: unsigned_eq_0_iff)
  with d have "4 \<le> unat (b - a)" by (auto elim!: dvdE)
  moreover have "unat (b - a) + 4 \<le> 4294967296"
    using aligned_room [of 2 "b - a"] d by simp
  ultimately have "unat (b - a + word_of_nat k) = unat (b - a) + k"
    using assms(4) by (simp add: unat_add_no_wrap add_word_of_nat)
  moreover have "b + word_of_nat k - a = b - a + word_of_nat k" by simp
  ultimately show ?thesis using \<open>4 \<le> unat (b - a)\<close> by (simp only:)
qed

lemma load32_store32:
  assumes "4 dvd unat a" "4 dvd unat b"
  shows "load32 (store32 m a w) b = (if a = b then w else load32 m b)"
proof (cases "a = b")
  case False
  have "load32 (store32 m a w) b = load32 m b"
    by (rule load32_cong) (use assms False in \<open>simp add: store32_outside aligned_words_apart\<close>)
  with False show ?thesis by simp
qed simp

section \<open>memset\<close>

lemma stosb_eq:
  "n \<le> 4294967296 \<Longrightarrow> stosb m a c n = (\<lambda>x. if unat (x - a) < n then c else m x)"
proof (induction n arbitrary: m a)
  case 0
  then show ?case by simp
next
  case (Suc n)
  show ?case
  proof
    fix x
    show "stosb m a c (Suc n) x = (if unat (x - a) < Suc n then c else m x)"
    proof (cases "x = a")
      case True
      then show ?thesis using Suc by simp
    next
      case False
      then have "unat (x - (a + 1)) = unat (x - a) - 1" "unat (x - a) \<noteq> 0"
        using unat_minus_1 [of "x - a"] by (simp_all add: diff_diff_eq [symmetric] unsigned_eq_0_iff)
      then show ?thesis using Suc False by auto
    qed
  qed
qed

lemma stosb_4:
  "stosb m a c (Suc (Suc (Suc (Suc n)))) =
   stosb (m(a := c, a + 1 := c, a + 2 := c, a + 3 := c)) (a + 4) c n"
  by (simp add: add.assoc)

lemma store32_fill:
  "store32 m a (push_bit 24 (ucast c) OR push_bit 16 (ucast c) OR push_bit 8 (ucast c) OR ucast c)
   = m(a := c, a + 1 := c, a + 2 := c, a + 3 := (c :: u8))"
proof -
  let ?w = "push_bit 24 (ucast c) OR push_bit 16 (ucast c) OR push_bit 8 (ucast c) OR ucast c :: u32"
  have "ucast ?w = c" "ucast (drop_bit 8 ?w) = c" "ucast (drop_bit 16 ?w) = c"
    "ucast (drop_bit 24 ?w) = c"
    by (rule bit_word_eqI; auto simp: bit_simps dest: bit_imp_le_length)+
  then show ?thesis by (simp only: store32_def)
qed

lemma stosl_eq_stosb:
  "stosl m a (push_bit 24 (ucast c) OR push_bit 16 (ucast c) OR push_bit 8 (ucast c) OR ucast c) n
   = stosb m a (c :: u8) (4 * n)"
proof (induction n arbitrary: m a)
  case 0
  then show ?case by simp
next
  case (Suc n)
  have "4 * Suc n = Suc (Suc (Suc (Suc (4 * n))))" by simp
  then show ?case
    by (simp only: stosl.simps store32_fill stosb_4 Suc.IH)
qed

lemma memset_eq:
  "memset m dst c n = (\<lambda>x. if unat (x - dst) < unat n then ucast c else m x)"
proof -
  have c: "c AND 0xFF = (ucast (ucast c :: u8) :: u32)"
  proof -
    have m: "(0xFF :: u32) = mask 8" by (simp add: mask_eq_exp_minus_1)
    show ?thesis unfolding m by (rule bit_word_eqI) (auto simp: bit_simps)
  qed
  have s: "stosb m dst (ucast c) (unat n) = (\<lambda>x. if unat (x - dst) < unat n then ucast c else m x)"
    by (rule stosb_eq) (simp add: less_imp_le)
  have "4 * unat (n div 4) = unat n" if "n mod 4 = 0"
  proof -
    have "unat (n mod 4) = 0" using that by simp
    then have "unat n mod 4 = 0" by (simp add: unat_mod)
    then show ?thesis by (simp add: unat_div mod_eq_0_iff_dvd)
  qed
  then show ?thesis
    unfolding memset_def Let_def c stosl_eq_stosb using s by auto
qed

section \<open>memmove\<close>

lemma word_diff_nat:
  "(x :: u32) = a + word_of_nat (unat (x - a))"
  by simp

lemma unat_add_of_nat:
  "unat (a :: u32) + k < 4294967296 \<Longrightarrow> unat (a + word_of_nat k) = unat a + k"
  by (subst unat_add_no_wrap) (simp_all add: add_word_of_nat)

lemma copy_forward_eq:
  assumes "unat d + n \<le> 4294967296" "unat s + n \<le> 4294967296"
    and "unat d \<le> unat s \<or> unat s + n \<le> unat d"
  shows "copy_forward m d s n = (\<lambda>x. if unat (x - d) < n then m (s + (x - d)) else m x)"
  using assms
proof (induction n arbitrary: m d s)
  case 0
  then show ?case by simp
next
  case (Suc n)
  let ?m = "m(d := m s)"
  have IH: "copy_forward ?m (d + 1) (s + 1) n
      = (\<lambda>x. if unat (x - (d + 1)) < n then ?m (s + 1 + (x - (d + 1))) else ?m x)"
  proof (cases "n = 0")
    case False
    then have "unat (d + 1) = unat d + 1" "unat (s + 1) = unat s + 1"
      using Suc.prems(1,2) by (simp_all add: unat_add_no_wrap)
    then show ?thesis using Suc.prems by (intro Suc.IH) auto
  qed (simp add: fun_eq_iff)
  show ?case
  proof
    fix x
    show "copy_forward m d s (Suc n) x = (if unat (x - d) < Suc n then m (s + (x - d)) else m x)"
    proof (cases "x = d")
      case True
      have "unat ((-1) :: u32) = 4294967295"
        by (simp add: unsigned_minus_1_eq_mask mask_eq_exp_minus_1)
      then show ?thesis using IH True Suc.prems(1) by (auto simp: diff_diff_eq [symmetric])
    next
      case False
      have u: "unat (x - (d + 1)) = unat (x - d) - 1" "unat (x - d) \<noteq> 0"
        using False unat_minus_1 [of "x - d"]
        by (simp_all add: diff_diff_eq [symmetric] unsigned_eq_0_iff)
      have "s + (x - d) \<noteq> d" if "unat (x - d) < Suc n"
      proof
        assume *: "s + (x - d) = d"
        have "unat (s + (x - d)) = unat s + unat (x - d)"
          using that Suc.prems(2) by (intro unat_add_no_wrap) simp
        then have "unat d = unat s + unat (x - d)" by (simp only: *)
        then show False using that u(2) Suc.prems(3) by auto
      qed
      then show ?thesis using IH u False by (auto simp: algebra_simps)
    qed
  qed
qed

lemma copy_backward_eq:
  assumes "unat d + n \<le> 4294967296" "unat s + n \<le> 4294967296" "unat s \<le> unat d"
  shows "copy_backward m (d + word_of_nat n) (s + word_of_nat n) n
    = (\<lambda>x. if unat (x - d) < n then m (s + (x - d)) else m x)"
  using assms
proof (induction n arbitrary: m)
  case 0
  then show ?case by simp
next
  case (Suc n)
  let ?m = "m(d + word_of_nat n := m (s + word_of_nat n))"
  have "copy_backward m (d + word_of_nat (Suc n)) (s + word_of_nat (Suc n)) (Suc n)
      = copy_backward ?m (d + word_of_nat n) (s + word_of_nat n) n"
    by (simp add: algebra_simps)
  also have "\<dots> = (\<lambda>x. if unat (x - d) < n then ?m (s + (x - d)) else ?m x)"
    using Suc.prems by (intro Suc.IH) auto
  also have "\<dots> = (\<lambda>x. if unat (x - d) < Suc n then m (s + (x - d)) else m x)"
  proof
    fix x
    have ne: "s + (x - d) \<noteq> d + word_of_nat n" if "unat (x - d) < n"
    proof
      assume *: "s + (x - d) = d + word_of_nat n"
      have "unat (s + (x - d)) = unat s + unat (x - d)"
        using that Suc.prems(2) by (simp add: unat_add_no_wrap)
      moreover have "unat (d + word_of_nat n) = unat d + n"
        using Suc.prems(1) by (simp add: unat_add_of_nat)
      ultimately show False using * that Suc.prems(3) by simp
    qed
    have eq: "x = d + word_of_nat n \<longleftrightarrow> unat (x - d) = n"
    proof
      assume "x = d + word_of_nat n"
      then show "unat (x - d) = n" using Suc.prems(1) by (simp add: add_word_of_nat)
    qed (use word_diff_nat [of x d] in auto)
    show "(if unat (x - d) < n then ?m (s + (x - d)) else ?m x)
        = (if unat (x - d) < Suc n then m (s + (x - d)) else m x)"
      using ne eq by (auto simp: less_Suc_eq)
  qed
  finally show ?case .
qed

lemma memmove_eq:
  assumes "unat dst + unat n \<le> 4294967296" "unat src + unat n \<le> 4294967296"
  shows "memmove m dst src n
    = (\<lambda>x. if unat (x - dst) < unat n then m (src + (x - dst)) else m x)"
proof (cases "src < dst \<and> src + n > dst")
  case True
  then show ?thesis
    using copy_backward_eq [of dst "unat n" src m] assms
    by (simp add: memmove_def word_less_nat_alt)
next
  case False
  then have "unat dst \<le> unat src \<or> unat src + unat n \<le> unat dst"
  proof (cases "src < dst")
    case True
    then have "unat src + unat n < 4294967296 \<or> n = 0 \<or> unat src + unat n = 4294967296"
      using assms(2) by auto
    then show ?thesis
      using False True assms
      by (auto simp: word_less_nat_alt word_le_nat_alt not_less unat_plus_if_size word_size
          split: if_splits)
  qed (auto simp: word_less_nat_alt)
  then have "copy_forward m dst src (unat n)
      = (\<lambda>x. if unat (x - dst) < unat n then m (src + (x - dst)) else m x)"
    using assms by (intro copy_forward_eq) auto
  then show ?thesis unfolding memmove_def using False by (simp only: if_False)
qed

section \<open>Words in filled and copied regions\<close>

definition fill32 :: "u32 \<Rightarrow> u32" where
  "fill32 c = push_bit 24 (ucast (ucast c :: u8)) OR push_bit 16 (ucast (ucast c :: u8)) OR
     push_bit 8 (ucast (ucast c :: u8)) OR ucast (ucast c :: u8)"

lemma fill32_simps [simp]: "fill32 0 = 0" "fill32 1 = 0x01010101"
  by (simp_all add: fill32_def)

lemma dvd_unat_diff:
  assumes "4 dvd unat (a :: u32)" "4 dvd unat p"
  shows "4 dvd unat (a - p)"
  using assms unat_lt_2p32 [of a] unat_lt_2p32 [of p]
  by (auto simp: unat_sub_if_size word_size intro!: dvd_diff_nat dvd_add)

lemma unat_aligned_byte:
  assumes "4 dvd unat (a :: u32)" "4 dvd unat p" "k < 4"
  shows "unat (a + word_of_nat k - p) = unat (a - p) + k"
proof -
  have "unat (a - p) + 4 \<le> 4294967296"
    using aligned_room [of 2 "a - p"] dvd_unat_diff [OF assms(1,2)] by simp
  then have "unat (a - p + word_of_nat k) = unat (a - p) + k"
    using assms(3) by (intro unat_add_of_nat) simp
  moreover have "a + word_of_nat k - p = a - p + word_of_nat k" by simp
  ultimately show ?thesis by (simp only:)
qed

lemma load32_memset:
  assumes "4 dvd unat a" "4 dvd unat p" "4 dvd unat n"
  shows "load32 (memset m p c n) a = (if unat (a - p) < unat n then fill32 c else load32 m a)"
proof (cases "unat (a - p) < unat n")
  case True
  then have "unat (a - p) + 4 \<le> unat n"
    using assms dvd_unat_diff dvd_less_room by simp
  then have *: "memset m p c n (a + word_of_nat k) = ucast c" if "k < 4" for k
    using that assms by (simp add: memset_eq unat_aligned_byte)
  show ?thesis
    using * [of 0] * [of 1] * [of 2] * [of 3] True
    by (simp add: load32_def fill32_def or.commute or.left_commute)
next
  case False
  have "load32 (memset m p c n) a = load32 m a"
    by (rule load32_cong) (use False assms in \<open>simp add: memset_eq unat_aligned_byte\<close>)
  with False show ?thesis by simp
qed

lemma load32_memmove:
  assumes "4 dvd unat a" "4 dvd unat dst" "4 dvd unat n"
    and "unat dst + unat n \<le> 4294967296" "unat src + unat n \<le> 4294967296"
  shows "load32 (memmove m dst src n) a =
    (if unat (a - dst) < unat n then load32 m (src + (a - dst)) else load32 m a)"
proof (cases "unat (a - dst) < unat n")
  case True
  then have "unat (a - dst) + 4 \<le> unat n"
    using assms dvd_unat_diff dvd_less_room by simp
  then have *: "memmove m dst src n (a + word_of_nat k) = m (src + (a - dst) + word_of_nat k)"
    if "k < 4" for k
    using that assms by (simp add: memmove_eq unat_aligned_byte) (simp add: algebra_simps)
  show ?thesis
    using * [of 0] * [of 1] * [of 2] * [of 3] True by (simp add: load32_def)
next
  case False
  have "load32 (memmove m dst src n) a = load32 m a"
    by (rule load32_cong) (use False assms in \<open>simp add: memmove_eq unat_aligned_byte\<close>)
  with False show ?thesis by simp
qed

section \<open>Bounded strings\<close>

text \<open>The first \<open>n\<close> bytes at \<open>p\<close>, cut before the first NUL: what the bounded routines compare.\<close>

primrec cstr :: "memory \<Rightarrow> u32 \<Rightarrow> nat \<Rightarrow> u8 list" where
  "cstr m p 0 = []"
| "cstr m p (Suc n) = (if m p = 0 then [] else m p # cstr m (p + 1) n)"

lemma strncmp_loop_eq_0: "strncmp_loop m p q n = 0 \<longleftrightarrow> cstr m p n = cstr m q n"
  by (induction n arbitrary: p q) (auto simp: word_uint_eq_iff)

lemma memcmp_loop_eq_0:
  "memcmp_loop m p q n = 0 \<longleftrightarrow> (\<forall>k < n. m (p + word_of_nat k) = m (q + word_of_nat k))"
proof (induction n arbitrary: p q)
  case 0
  then show ?case by simp
next
  case (Suc n)
  have "(\<forall>k < Suc n. m (p + word_of_nat k) = m (q + word_of_nat k)) \<longleftrightarrow>
      m p = m q \<and> (\<forall>k < n. m (p + 1 + word_of_nat k) = m (q + 1 + word_of_nat k))"
    unfolding All_less_Suc2 by (simp add: add.assoc)
  then show ?case using Suc by (simp add: word_uint_eq_iff)
qed

lemma stosb_outside: "n \<le> unat (x - s) \<Longrightarrow> n \<le> 4294967296 \<Longrightarrow> stosb m s c n x = m x"
  by (simp add: stosb_eq)

lemma unat_diff_Suc:
  assumes "(x :: u32) \<noteq> s" shows "unat (x - (s + 1)) = unat (x - s) - 1"
  using assms unat_minus_1 [of "x - s"] by (simp add: diff_diff_eq [symmetric])

text \<open>\<open>safestrcpy\<close> and \<open>strncpy\<close> never write outside the \<open>n\<close> bytes of the destination.\<close>

lemma safestrcpy_loop_outside:
  "n < unat (x - s) \<Longrightarrow> safestrcpy_loop m s t n x = m x"
proof (induction n arbitrary: m s t)
  case 0
  then show ?case by auto
next
  case (Suc n)
  have ne: "x \<noteq> s" "x \<noteq> s + 1" using Suc.prems by auto
  then have "n < unat (x - (s + 1))" using Suc.prems by (simp add: unat_diff_Suc)
  then show ?case using ne Suc.IH by (simp add: Let_def)
qed

lemma strncpy_loop_outside:
  "n \<le> unat (x - s) \<Longrightarrow> n \<le> 4294967296 \<Longrightarrow> strncpy_loop m s t n x = m x"
proof (induction n arbitrary: m s t)
  case 0
  then show ?case by auto
next
  case (Suc n)
  have ne: "x \<noteq> s" using Suc.prems by auto
  then have "n \<le> unat (x - (s + 1))" using Suc.prems by (simp add: unat_diff_Suc)
  then show ?case using ne Suc.IH Suc.prems by (simp add: Let_def stosb_outside)
qed

text \<open>\<open>safestrcpy\<close> copies the source string cut to \<open>n - 1\<close> bytes and always terminates it.\<close>

lemma cstr_cong:
  "(\<And>k. k < n \<Longrightarrow> m (p + word_of_nat k) = m' (p + word_of_nat k)) \<Longrightarrow> cstr m p n = cstr m' p n"
proof (induction n arbitrary: p)
  case 0
  then show ?case by simp
next
  case (Suc n)
  have "m p = m' p" using Suc.prems [of 0] by simp
  moreover have "cstr m (p + 1) n = cstr m' (p + 1) n"
    using Suc.prems [of "Suc _"] by (intro Suc.IH) (simp add: add.assoc)
  ultimately show ?case by simp
qed

end
