(* ===== verification/Spinlock.thy ===== *)
theory Spinlock
  imports Layout
begin

text \<open>
  Spin locks (spinlock.c) and the interrupt state they manage. The first part gives the
  routines as one CPU executes them: \<open>pushcli\<close> and \<open>popcli\<close> on the CPU's saved interrupt
  state, \<open>holding\<close>, \<open>acquire\<close> and \<open>release\<close> on the CPU and the lock. Run alone, a CPU that
  finds the lock taken by another one spins for ever, which is \<open>Diverge\<close>. The second part
  lets any number of CPUs run the same code interleaved, one memory access of the lock per
  step, and proves mutual exclusion, that \<open>holding\<close> answers correctly while other CPUs race,
  and that interrupts stay off from \<open>acquire\<close> to \<open>release\<close>.
  The call-stack record \<^verbatim>\<open>pcs\<close> of a lock is debugging output and is left out.
\<close>

section \<open>State\<close>

text \<open>
  Of \<^verbatim>\<open>struct cpu\<close> the fields the locks use; \<open>eflags\<close> is the CPU's flags register. A CPU is
  named by its index in \<^verbatim>\<open>cpus[]\<close>.
\<close>

record cpu =
  eflags :: u32
  ncli :: u32
  intena :: u32

record spinlock =
  locked :: u32
  lkname :: string
  lkcpu :: "nat option"

definition initlock :: "spinlock \<Rightarrow> string \<Rightarrow> spinlock" where
  "initlock lk nm = lk\<lparr>lkname := nm, locked := 0, lkcpu := None\<rparr>"

section \<open>Routines\<close>

definition cli :: "cpu \<Rightarrow> cpu" where
  "cli c = c\<lparr>eflags := eflags c AND NOT FL_IF\<rparr>"

definition sti :: "cpu \<Rightarrow> cpu" where
  "sti c = c\<lparr>eflags := eflags c OR FL_IF\<rparr>"

definition pushcli :: "cpu \<Rightarrow> cpu" where
  "pushcli c =
     (let fl = eflags c;
          c = cli c;
          c = (if ncli c = 0 then c\<lparr>intena := fl AND FL_IF\<rparr> else c)
      in c\<lparr>ncli := ncli c + 1\<rparr>)"

definition popcli :: "cpu \<Rightarrow> cpu outcome" where
  "popcli c =
     (if eflags c AND FL_IF \<noteq> 0 then Panic ''popcli - interruptible''
      else let c = c\<lparr>ncli := ncli c - 1\<rparr> in
        if sint (ncli c) < 0 then Panic ''popcli''
        else if ncli c = 0 \<and> intena c \<noteq> 0 then Ret (sti c)
        else Ret c)"

definition holding :: "nat \<Rightarrow> cpu \<Rightarrow> spinlock \<Rightarrow> (bool \<times> cpu) outcome" where
  "holding me c lk =
     (let c = pushcli c;
          r = (locked lk \<noteq> 0 \<and> lkcpu lk = Some me)
      in obind (popcli c) (\<lambda>c. Ret (r, c)))"

definition acquire :: "nat \<Rightarrow> cpu \<Rightarrow> spinlock \<Rightarrow> (cpu \<times> spinlock) outcome" where
  "acquire me c lk =
     (let c = pushcli c in
      obind (holding me c lk) (\<lambda>(h, c).
        if h then Panic ''acquire''
        else if locked lk \<noteq> 0 then Diverge
        else Ret (c, lk\<lparr>locked := 1, lkcpu := Some me\<rparr>)))"

definition release :: "nat \<Rightarrow> cpu \<Rightarrow> spinlock \<Rightarrow> (cpu \<times> spinlock) outcome" where
  "release me c lk =
     obind (holding me c lk) (\<lambda>(h, c).
       if \<not> h then Panic ''release''
       else obind (popcli c) (\<lambda>c. Ret (c, lk\<lparr>lkcpu := None, locked := 0\<rparr>)))"

section \<open>Nesting of pushcli and popcli\<close>

text \<open>
  The saved interrupt state is consistent: at a depth other than 0 interrupts are off. The depth is a signed 32-bit integer, and
  \<^verbatim>\<open>pushcli\<close> takes it past the largest one; \<open>can_push\<close> is that there is room for one more level.
\<close>

abbreviation (input) INT_MAX :: int where "INT_MAX \<equiv> 2147483647"

definition depth :: "cpu \<Rightarrow> int" where
  "depth c = sint (ncli c)"

definition cpu_ok :: "cpu \<Rightarrow> bool" where
  "cpu_ok c \<longleftrightarrow> 0 \<le> depth c \<and> (ncli c \<noteq> 0 \<longrightarrow> eflags c AND FL_IF = 0)"

definition can_push :: "cpu \<Rightarrow> bool" where
  "can_push c \<longleftrightarrow> cpu_ok c \<and> depth c < INT_MAX"

lemma can_pushD [simp]: "can_push c \<Longrightarrow> cpu_ok c"
  by (simp add: can_push_def)

lemma depth_eq_0: "depth c = 0 \<longleftrightarrow> ncli c = 0"
  using signed_word_eqI [of "ncli c" 0] by (auto simp: depth_def)

lemma sint_inc: "sint (w :: u32) < INT_MAX \<Longrightarrow> sint (w + 1) = sint w + 1"
  using sint_greater_eq [of w] by (simp add: sint_word_ariths signed_take_bit_int_eq_self)

lemmas FL_IF_bit = and_flag [where n = 9, simplified]
  flag_cleared [where n = 9, simplified] flag_set [where n = 9 and 'a = 32, simplified]
  flag_restore [where n = 9, simplified] flag_clear_id [where n = 9, simplified]

definition interrupts_on :: "cpu \<Rightarrow> bool" where
  "interrupts_on c \<longleftrightarrow> eflags c AND FL_IF \<noteq> 0"

lemma interrupts_on_iff: "interrupts_on c \<longleftrightarrow> bit (eflags c) 9"
  by (simp add: interrupts_on_def FL_IF_bit)

lemma cpu_ok_iff: "cpu_ok c \<longleftrightarrow> 0 \<le> depth c \<and> (ncli c \<noteq> 0 \<longrightarrow> \<not> interrupts_on c)"
  by (simp add: cpu_ok_def interrupts_on_def)

text \<open>A matched pair leaves the CPU as it was, except for what \<open>intena\<close> remembers.\<close>

definition remember_if :: "cpu \<Rightarrow> cpu" where
  "remember_if c = (if ncli c = 0 then c\<lparr>intena := eflags c AND FL_IF\<rparr> else c)"

lemma remember_if_simps [simp]:
  "eflags (remember_if c) = eflags c" "ncli (remember_if c) = ncli c" "depth (remember_if c) = depth c"
  "cpu_ok (remember_if c) = cpu_ok c" "remember_if (remember_if c) = remember_if c"
  "can_push (remember_if c) = can_push c" "interrupts_on (remember_if c) = interrupts_on c"
  by (simp_all add: remember_if_def can_push_def cpu_ok_def depth_def interrupts_on_def)

lemma pushcli_simps [simp]:
  "ncli (pushcli c) = ncli c + 1"
  "\<not> interrupts_on (pushcli c)"
  by (simp_all add: interrupts_on_iff pushcli_def cli_def Let_def FL_IF_bit)

lemma depth_pushcli: "depth c < INT_MAX \<Longrightarrow> depth (pushcli c) = depth c + 1"
  by (simp add: depth_def sint_inc)

lemma cpu_ok_pushcli [simp]: "can_push c \<Longrightarrow> cpu_ok (pushcli c)"
  by (simp add: can_push_def cpu_ok_iff depth_pushcli)

lemma popcli_pushcli: "cpu_ok c \<Longrightarrow> popcli (pushcli c) = Ret (remember_if c)"
  by (auto simp: popcli_def pushcli_def cli_def sti_def remember_if_def cpu_ok_iff depth_def
      interrupts_on_iff Let_def FL_IF_bit)

lemma ncli_pushcli: "can_push c \<Longrightarrow> ncli (pushcli c) \<noteq> 0"
  using depth_eq_0 [of "pushcli c"] by (auto simp: can_push_def cpu_ok_def depth_pushcli simp del: pushcli_simps)

lemma remember_if_pushcli [simp]: "can_push c \<Longrightarrow> remember_if (pushcli c) = pushcli c"
  using ncli_pushcli [of c] by (simp add: remember_if_def del: pushcli_simps)

lemma holding_eq:
  "cpu_ok c \<Longrightarrow> holding me c lk = Ret (locked lk \<noteq> 0 \<and> lkcpu lk = Some me, remember_if c)"
  by (simp add: holding_def popcli_pushcli)

lemma acquire_eq:
  "can_push c \<Longrightarrow> acquire me c lk =
     (if locked lk = 0 then Ret (pushcli c, lk\<lparr>locked := 1, lkcpu := Some me\<rparr>)
      else if lkcpu lk = Some me then Panic ''acquire'' else Diverge)"
  by (simp add: acquire_def holding_eq)

lemma release_eq:
  "cpu_ok c \<Longrightarrow> release me c lk =
     (if locked lk \<noteq> 0 \<and> lkcpu lk = Some me
      then obind (popcli (remember_if c)) (\<lambda>c. Ret (c, lk\<lparr>lkcpu := None, locked := 0\<rparr>))
      else Panic ''release'')"
  by (simp add: release_def holding_eq)

text \<open>At the largest depth \<open>acquire\<close> stops the machine: its \<open>holding\<close> finds a negative depth.\<close>

lemma popcli_too_deep:
  assumes "cpu_ok c" "\<not> can_push c"
  shows "popcli (pushcli (pushcli c)) = Panic ''popcli''"
proof -
  have "sint (ncli c) = INT_MAX" using assms sint_less [of "ncli c"] by (auto simp: can_push_def depth_def)
  moreover have "sint (0x7FFFFFFF :: u32) = INT_MAX" by simp
  ultimately have "ncli c = 0x7FFFFFFF" by (metis signed_word_eqI)
  then have "sint (1 + ncli c) < 0" by simp
  moreover have "eflags (pushcli (pushcli c)) AND FL_IF = 0"
    using pushcli_simps(2) [of "pushcli c"] by (simp only: interrupts_on_def not_not)
  ultimately show ?thesis by (simp add: popcli_def Let_def)
qed

lemma acquire_too_deep: "cpu_ok c \<Longrightarrow> \<not> can_push c \<Longrightarrow> acquire me c lk = Panic ''popcli''"
  by (simp add: acquire_def holding_def popcli_too_deep)

lemma acquire_release:
  assumes "can_push c" "locked lk = 0" "lkcpu lk = None"
  shows "obind (acquire me c lk) (\<lambda>(c, lk). release me c lk) = Ret (remember_if c, lk)"
  using assms by (simp add: acquire_eq release_eq popcli_pushcli can_pushD)

text \<open>Nested calls: \<open>n\<close> times \<open>popcli\<close> undoes \<open>n\<close> times \<open>pushcli\<close>.\<close>

primrec popclis :: "nat \<Rightarrow> cpu \<Rightarrow> cpu outcome" where
  "popclis 0 c = Ret c"
| "popclis (Suc n) c = obind (popcli c) (popclis n)"

lemma funpow_pushcli:
  assumes "cpu_ok c" "depth c + int n \<le> INT_MAX"
  shows "cpu_ok ((pushcli ^^ n) c) \<and> depth ((pushcli ^^ n) c) = depth c + int n"
  using assms
proof (induction n)
  case (Suc n)
  then have "can_push ((pushcli ^^ n) c)" "depth ((pushcli ^^ n) c) = depth c + int n" by (auto simp: can_push_def)
  then show ?case using Suc.prems by (simp add: depth_pushcli)
qed simp

lemma popclis_pushcli:
  "cpu_ok c \<Longrightarrow> depth c + int (Suc n) \<le> INT_MAX \<Longrightarrow> popclis (Suc n) ((pushcli ^^ Suc n) c) = Ret (remember_if c)"
proof (induction n)
  case 0
  then show ?case by (simp add: popcli_pushcli obind_def)
next
  case (Suc n)
  have n: "can_push ((pushcli ^^ n) c)" "cpu_ok ((pushcli ^^ Suc n) c)"
    using Suc.prems funpow_pushcli [of c n] funpow_pushcli [of c "Suc n"] by (auto simp: can_push_def)
  have "popcli ((pushcli ^^ Suc (Suc n)) c) = Ret ((pushcli ^^ Suc n) c)"
    using popcli_pushcli [OF n(2)] n(1) by simp
  with Suc show ?case by (simp only: popclis.simps obind_simps)
qed

section \<open>Interleaved CPUs\<close>

text \<open>
  Where a CPU is in the code of the lock: outside it; in the loop on \<^verbatim>\<open>xchg\<close>; after the
  successful \<^verbatim>\<open>xchg\<close> and before the store to \<^verbatim>\<open>lk->cpu\<close>; between \<open>acquire\<close> and \<open>release\<close>;
  after \<open>release\<close> has cleared \<^verbatim>\<open>lk->cpu\<close>; after the store that clears \<^verbatim>\<open>lk->locked\<close>.
\<close>

datatype phase = Outside | Spinning | Entering | Critical | Leaving | Popping

record lksys =
  the_lock :: spinlock
  cpu_of :: "nat \<Rightarrow> cpu"
  phase_of :: "nat \<Rightarrow> phase"

definition move :: "lksys \<Rightarrow> nat \<Rightarrow> cpu \<Rightarrow> phase \<Rightarrow> spinlock \<Rightarrow> lksys" where
  "move s i c ph lk =
     s\<lparr>the_lock := lk, cpu_of := (cpu_of s)(i := c), phase_of := (phase_of s)(i := ph)\<rparr>"

inductive lk_step :: "lksys \<Rightarrow> lksys \<Rightarrow> bool" where
  acquire_start: "phase_of s i = Outside \<Longrightarrow>
     holding i (pushcli (cpu_of s i)) (the_lock s) = Ret (False, c) \<Longrightarrow>
     lk_step s (move s i c Spinning (the_lock s))"
| xchg_busy: "phase_of s i = Spinning \<Longrightarrow> locked (the_lock s) \<noteq> 0 \<Longrightarrow>
     lk_step s (move s i (cpu_of s i) Spinning ((the_lock s)\<lparr>locked := 1\<rparr>))"
| xchg_free: "phase_of s i = Spinning \<Longrightarrow> locked (the_lock s) = 0 \<Longrightarrow>
     lk_step s (move s i (cpu_of s i) Entering ((the_lock s)\<lparr>locked := 1\<rparr>))"
| record_cpu: "phase_of s i = Entering \<Longrightarrow>
     lk_step s (move s i (cpu_of s i) Critical ((the_lock s)\<lparr>lkcpu := Some i\<rparr>))"
| release_start: "phase_of s i = Critical \<Longrightarrow>
     holding i (cpu_of s i) (the_lock s) = Ret (True, c) \<Longrightarrow>
     lk_step s (move s i c Leaving ((the_lock s)\<lparr>lkcpu := None\<rparr>))"
| release_store: "phase_of s i = Leaving \<Longrightarrow>
     lk_step s (move s i (cpu_of s i) Popping ((the_lock s)\<lparr>locked := 0\<rparr>))"
| release_pop: "phase_of s i = Popping \<Longrightarrow> popcli (cpu_of s i) = Ret c \<Longrightarrow>
     lk_step s (move s i c Outside (the_lock s))"

inductive lk_reachable :: "lksys \<Rightarrow> bool" where
  start: "(\<And>i. cpu_ok (cpu_of s i)) \<Longrightarrow> (\<And>i. phase_of s i = Outside) \<Longrightarrow>
     locked (the_lock s) = 0 \<Longrightarrow> lkcpu (the_lock s) = None \<Longrightarrow> lk_reachable s"
| step: "lk_reachable s \<Longrightarrow> lk_step s t \<Longrightarrow> lk_reachable t"

definition owns :: "phase \<Rightarrow> bool" where
  "owns ph \<longleftrightarrow> ph = Entering \<or> ph = Critical \<or> ph = Leaving"

text \<open>The invariant: the lock word, the recorded holder and the CPUs' positions agree.\<close>

definition lk_inv :: "lksys \<Rightarrow> bool" where
  "lk_inv s \<longleftrightarrow>
     (\<forall>i j. owns (phase_of s i) \<longrightarrow> owns (phase_of s j) \<longrightarrow> i = j) \<and>
     (\<forall>i. owns (phase_of s i) \<longrightarrow> locked (the_lock s) \<noteq> 0) \<and>
     (locked (the_lock s) \<noteq> 0 \<longrightarrow> (\<exists>i. owns (phase_of s i))) \<and>
     (\<forall>i. lkcpu (the_lock s) = Some i \<longleftrightarrow> phase_of s i = Critical) \<and>
     (\<forall>i. cpu_ok (cpu_of s i)) \<and>
     (\<forall>i. phase_of s i \<noteq> Outside \<longrightarrow> ncli (cpu_of s i) \<noteq> 0)"

lemma cpu_ok_popcli:
  assumes "cpu_ok c" "popcli c = Ret c'"
  shows "cpu_ok c'"
  using assms
  by (auto simp: popcli_def cpu_ok_iff depth_def interrupts_on_iff sti_def Let_def FL_IF_bit split: if_splits)

lemma holding_Ret:
  "cpu_ok c \<Longrightarrow> holding i c lk = Ret (b, c') \<longleftrightarrow>
     b = (locked lk \<noteq> 0 \<and> lkcpu lk = Some i) \<and> c' = remember_if c"
  by (auto simp: holding_eq)

lemma move_simps [simp]:
  "the_lock (move s i c ph lk) = lk"
  "cpu_of (move s i c ph lk) j = (if j = i then c else cpu_of s j)"
  "phase_of (move s i c ph lk) j = (if j = i then ph else phase_of s j)"
  by (simp_all add: move_def)

lemma owns_simps [simp]:
  "\<not> owns Outside" "\<not> owns Spinning" "owns Entering" "owns Critical" "owns Leaving" "\<not> owns Popping"
  by (simp_all add: owns_def)

lemma lk_invD:
  assumes "lk_inv s"
  shows "owns (phase_of s i) \<Longrightarrow> owns (phase_of s j) \<Longrightarrow> i = j"
    and "owns (phase_of s i) \<Longrightarrow> locked (the_lock s) \<noteq> 0"
    and "locked (the_lock s) \<noteq> 0 \<Longrightarrow> \<exists>i. owns (phase_of s i)"
    and "lkcpu (the_lock s) = Some i \<longleftrightarrow> phase_of s i = Critical"
    and "cpu_ok (cpu_of s i)"
    and "phase_of s i \<noteq> Outside \<Longrightarrow> ncli (cpu_of s i) \<noteq> 0"
  using assms unfolding lk_inv_def by blast+

text \<open>
  A step of CPU \<open>i\<close> keeps the invariant if it does so for \<open>i\<close> and leaves the lock's owner
  what the other CPUs need.
\<close>

lemma lk_inv_move:
  assumes "lk_inv s" "cpu_ok c" "ph \<noteq> Outside \<Longrightarrow> ncli c \<noteq> 0"
    and "\<And>j. owns ph \<Longrightarrow> owns (phase_of s j) \<Longrightarrow> j = i"
    and "owns ph \<Longrightarrow> locked lk \<noteq> 0"
    and "locked lk \<noteq> 0 \<Longrightarrow> owns ph \<or> (\<exists>j. j \<noteq> i \<and> owns (phase_of s j))"
    and "\<And>j. j \<noteq> i \<Longrightarrow> owns (phase_of s j) \<Longrightarrow> locked lk \<noteq> 0"
    and "lkcpu lk = Some i \<longleftrightarrow> ph = Critical"
    and "\<And>j. j \<noteq> i \<Longrightarrow> lkcpu lk = Some j \<longleftrightarrow> phase_of s j = Critical"
  shows "lk_inv (move s i c ph lk)"
  unfolding lk_inv_def
  using assms(2-9) lk_invD(1,5,6) [OF assms(1)] by (auto split: if_splits)

lemma lk_step_inv: "lk_step s t \<Longrightarrow> lk_inv s \<Longrightarrow> lk_inv t"
proof (induction rule: lk_step.induct)
  case (acquire_start s i c)
  note inv = lk_invD [OF acquire_start(3)]
  have p: "can_push (cpu_of s i)" using popcli_too_deep [OF inv(5) [of i]] acquire_start(2) by (auto simp: holding_def)
  then have "c = pushcli (cpu_of s i)" using acquire_start(2) by (simp add: holding_Ret)
  then have c: "cpu_ok c" "ncli c \<noteq> 0" using p by (auto simp: ncli_pushcli simp del: pushcli_simps)
  have "j \<noteq> i" if "owns (phase_of s j)" for j using that acquire_start(1) by auto
  then show ?case
    using acquire_start(1) c inv(2,3,4) by (intro lk_inv_move acquire_start(3)) auto
next
  case (xchg_busy s i)
  note inv = lk_invD [OF xchg_busy(3)]
  have "j \<noteq> i" if "owns (phase_of s j)" for j using that xchg_busy(1) by auto
  then show ?case
    using xchg_busy(1,2) inv(3,4,5,6) by (intro lk_inv_move xchg_busy(3)) auto
next
  case (xchg_free s i)
  note inv = lk_invD [OF xchg_free(3)]
  then show ?case
    using xchg_free(1,2) by (intro lk_inv_move xchg_free(3)) auto
next
  case (record_cpu s i)
  note inv = lk_invD [OF record_cpu(2)]
  have "phase_of s j \<noteq> Critical" if "j \<noteq> i" for j
    using inv(1) [of i j] record_cpu(1) that by auto
  then show ?case
    using record_cpu(1) inv(1) [of _ i] inv(2) [of i] inv(5,6) [of i]
    by (intro lk_inv_move record_cpu(2)) auto
next
  case (release_start s i c)
  note inv = lk_invD [OF release_start(3)]
  have "c = remember_if (cpu_of s i)"
    using release_start(2) inv(5) [of i] by (simp add: holding_Ret)
  moreover have "phase_of s j \<noteq> Critical" if "j \<noteq> i" for j
    using inv(1) [of i j] release_start(1) that by auto
  ultimately show ?case
    using release_start(1) inv(1) [of _ i] inv(2) [of i] inv(5,6) [of i]
    by (intro lk_inv_move release_start(3)) auto
next
  case (release_store s i)
  note inv = lk_invD [OF release_store(2)]
  then show ?case
    using release_store(1) inv(1) [of i] by (intro lk_inv_move release_store(2)) auto
next
  case (release_pop s i c)
  note inv = lk_invD [OF release_pop(3)]
  have "j \<noteq> i" if "owns (phase_of s j)" for j using that release_pop(1) by auto
  moreover have "cpu_ok c" using cpu_ok_popcli inv(5) release_pop(2) by blast
  ultimately show ?case
    using release_pop(1) inv(2,3,4) by (intro lk_inv_move release_pop(3)) auto
qed

lemma lk_reachable_inv: "lk_reachable s \<Longrightarrow> lk_inv s"
proof (induction rule: lk_reachable.induct)
  case (start s)
  then show ?case by (simp add: lk_inv_def)
next
  case (step s t)
  then show ?case by (blast intro: lk_step_inv)
qed

section \<open>Properties\<close>

text \<open>
  Claim C8. With any number of CPUs running \<open>acquire\<close> and \<open>release\<close> interleaved, at most one
  is past the \<^verbatim>\<open>xchg\<close> of \<open>acquire\<close> and not yet past the clearing store of \<open>release\<close>; while CPU
  \<open>i\<close> is in its critical section, \<open>holding\<close> answers true exactly on CPU \<open>i\<close>, and interrupts
  are off on \<open>i\<close>.
\<close>

theorem spinlock_mutual_exclusion:
  assumes "lk_reachable s" and "phase_of s i = Critical"
  shows "(\<forall>j. owns (phase_of s j) \<longrightarrow> j = i)
    \<and> (\<forall>j. holding j (cpu_of s j) (the_lock s) = Ret (j = i, remember_if (cpu_of s j)))
    \<and> \<not> interrupts_on (cpu_of s i)"
proof -
  have inv: "lk_inv s" using assms(1) by (rule lk_reachable_inv)
  have "locked (the_lock s) \<noteq> 0" "lkcpu (the_lock s) = Some i"
    using lk_invD(2,4) [OF inv, of i] assms(2) by auto
  then show ?thesis
    using lk_invD(1,5,6) [OF inv] assms(2) by (auto simp: holding_eq cpu_ok_iff)
qed

definition lk_example :: "lksys" where
  "lk_example = \<lparr>the_lock = \<lparr>locked = 0, lkname = ''kmem'', lkcpu = None\<rparr>,
     cpu_of = (\<lambda>_. \<lparr>eflags = FL_IF, ncli = 0, intena = 0\<rparr>), phase_of = (\<lambda>_. Outside)\<rparr>"

lemma lk_example_critical:
  "\<exists>s. lk_reachable s \<and> phase_of s 1 = Critical \<and> phase_of s 0 = Spinning"
proof -
  have r0: "lk_reachable lk_example"
    by (rule lk_reachable.start) (simp_all add: lk_example_def cpu_ok_def depth_def)
  have h: "holding i (pushcli (cpu_of lk_example i)) (the_lock lk_example)
      = Ret (False, pushcli (cpu_of lk_example i))" for i
  proof -
    have "cpu_ok (cpu_of lk_example i)" by (simp add: lk_example_def cpu_ok_def depth_def)
    moreover have "can_push (cpu_of lk_example i)" by (simp add: lk_example_def can_push_def cpu_ok_def depth_def)
    ultimately show ?thesis by (simp add: holding_eq) (simp add: lk_example_def)
  qed
  let ?c = "pushcli (cpu_of lk_example 0)"
  let ?s1 = "move lk_example 1 ?c Spinning (the_lock lk_example)"
  have c: "cpu_of lk_example i = cpu_of lk_example 0" for i by (simp add: lk_example_def)
  have r1: "lk_reachable ?s1"
    using lk_reachable.step [OF r0 lk_step.acquire_start [OF _ h [of 1]]] c [of 1]
    by (simp add: lk_example_def)
  let ?s2 = "move ?s1 0 ?c Spinning (the_lock ?s1)"
  have r2: "lk_reachable ?s2"
    by (rule lk_reachable.step [OF r1 lk_step.acquire_start])
      (use h [of 0] in \<open>simp_all add: lk_example_def\<close>)
  let ?s3 = "move ?s2 1 (cpu_of ?s2 1) Entering ((the_lock ?s2)\<lparr>locked := 1\<rparr>)"
  have r3: "lk_reachable ?s3"
    by (rule lk_reachable.step [OF r2 lk_step.xchg_free]) (simp_all add: lk_example_def)
  have "lk_reachable (move ?s3 1 (cpu_of ?s3 1) Critical ((the_lock ?s3)\<lparr>lkcpu := Some 1\<rparr>))"
    by (rule lk_reachable.step [OF r3 lk_step.record_cpu]) simp
  then show ?thesis by (intro exI conjI) auto
qed

theorem spinlock_mutual_exclusion_witness:
  "\<exists>s. lk_reachable s \<and> phase_of s 1 = Critical \<and>
     holding 0 (cpu_of s 0) (the_lock s) = Ret (False, remember_if (cpu_of s 0)) \<and>
     \<not> interrupts_on (cpu_of s 1)"
proof -
  obtain s where s: "lk_reachable s" "phase_of s 1 = Critical"
    using lk_example_critical by blast
  show ?thesis using spinlock_mutual_exclusion [OF s] s by (intro exI [of _ s]) simp
qed

text \<open>
  Claim C20. \<open>pushcli\<close> and \<open>popcli\<close> are matched: after any number of nested \<open>pushcli\<close> that the 32-bit counter can hold, the same
  number of \<open>popcli\<close> succeeds and restores the interrupt flag and the nesting depth, and in between interrupts are off.
  On the way to a greater number there is a depth at which \<open>acquire\<close> panics.
\<close>

theorem popcli_undoes_pushcli:
  assumes "cpu_ok c"
  shows "(depth c + int n \<le> INT_MAX \<longrightarrow>
      (\<exists>c'. popclis n ((pushcli ^^ n) c) = Ret c' \<and> eflags c' = eflags c \<and> ncli c' = ncli c
        \<and> depth ((pushcli ^^ n) c) = depth c + int n \<and> (0 < n \<longrightarrow> \<not> interrupts_on ((pushcli ^^ n) c))))
    \<and> (INT_MAX < depth c + int n \<longrightarrow> (\<exists>m<n. acquire me ((pushcli ^^ m) c) lk = Panic ''popcli''))"
proof (intro conjI impI)
  assume n: "depth c + int n \<le> INT_MAX"
  have d: "depth ((pushcli ^^ n) c) = depth c + int n" using funpow_pushcli [OF assms n] by blast
  show "\<exists>c'. popclis n ((pushcli ^^ n) c) = Ret c' \<and> eflags c' = eflags c \<and> ncli c' = ncli c
    \<and> depth ((pushcli ^^ n) c) = depth c + int n \<and> (0 < n \<longrightarrow> \<not> interrupts_on ((pushcli ^^ n) c))"
  proof (cases n)
    case (Suc m)
    then have "popclis n ((pushcli ^^ n) c) = Ret (remember_if c)"
      using popclis_pushcli [OF assms] n by (simp only:)
    moreover have "\<not> interrupts_on ((pushcli ^^ n) c)" using Suc by simp
    ultimately show ?thesis using d by (intro exI [of _ "remember_if c"]) simp
  qed (use d in simp)
next
  assume n: "INT_MAX < depth c + int n"
  define m where "m = nat (INT_MAX - depth c)"
  have m: "depth c + int m = INT_MAX" "m < n"
    using n sint_less [of "ncli c"] by (auto simp: m_def depth_def)
  then have "cpu_ok ((pushcli ^^ m) c)" "\<not> can_push ((pushcli ^^ m) c)"
    using funpow_pushcli [OF assms, of m] by (auto simp: can_push_def)
  then show "\<exists>m<n. acquire me ((pushcli ^^ m) c) lk = Panic ''popcli''" using acquire_too_deep m(2) by blast
qed

theorem popcli_undoes_pushcli_witness:
  "(\<exists>c'. popclis 2 ((pushcli ^^ 2) \<lparr>eflags = 0x202, ncli = 0, intena = 0\<rparr>) = Ret c' \<and> eflags c' = 0x202) \<and>
   acquire 0 \<lparr>eflags = 2, ncli = 0x7FFFFFFF, intena = 0\<rparr> \<lparr>locked = 0, lkname = ''kmem'', lkcpu = None\<rparr> = Panic ''popcli''"
  using popcli_undoes_pushcli [of "\<lparr>eflags = 0x202, ncli = 0, intena = 0\<rparr>" 2]
    popcli_undoes_pushcli [of "\<lparr>eflags = 2, ncli = 0x7FFFFFFF, intena = 0\<rparr>" 1 0 "\<lparr>locked = 0, lkname = ''kmem'', lkcpu = None\<rparr>"]
  by (auto simp: cpu_ok_def depth_def)

end
