(* ===== verification/Kalloc.thy ===== *)
theory Kalloc
  imports Cmem Spinlock
begin

text \<open>
  The physical page allocators (kalloc.c): \<open>kalloc\<close>/\<open>kfree\<close> hand out 4 KB pages from a free
  list threaded through the free pages themselves, \<open>khugealloc\<close>/\<open>khugefree\<close> do the same for
  4 MB pages of the region \<^verbatim>\<open>HUGE_PAGE_START..HUGE_PAGE_END\<close>. The state is the machine: memory,
  the two allocator structures with their locks, and the executing CPU. Both allocators
  are shown to be instances of one interface, a pool of distinct pages, in which the client
  lemmas are proved once.
\<close>

section \<open>State\<close>

text \<open>
  \<open>kend\<close> and \<open>kdata\<close> are the linker's symbols \<^verbatim>\<open>end\<close> and \<^verbatim>\<open>data\<close>; \<open>cpu_id\<close> and \<open>this_cpu\<close> are the
  executing CPU; \<open>kpgdir\<close> is the kernel's own page directory and \<open>cr3\<close> the register that selects the
  page directory in use; \<open>cons_out\<close> collects what \<^verbatim>\<open>cprintf\<close> prints.
\<close>

record kmem_t =
  klock :: spinlock
  use_lock :: int
  freelist :: u32

record khugemem_t =
  hlock :: spinlock
  huse_lock :: int
  freehugelist :: u32

record machine =
  mem :: memory
  kmem :: kmem_t
  khugemem :: khugemem_t
  cpu_id :: nat
  this_cpu :: cpu
  kend :: u32
  kdata :: u32
  kpgdir :: u32
  cr3 :: u32
  cons_out :: "string list"

definition cprintf :: "string \<Rightarrow> machine \<Rightarrow> machine" where
  "cprintf msg s = s\<lparr>cons_out := cons_out s @ [msg]\<rparr>"

definition acquire_kmem :: "machine \<Rightarrow> machine outcome" where
  "acquire_kmem s = obind (acquire (cpu_id s) (this_cpu s) (klock (kmem s)))
     (\<lambda>(c, lk). Ret (s\<lparr>this_cpu := c, kmem := (kmem s)\<lparr>klock := lk\<rparr>\<rparr>))"

definition release_kmem :: "machine \<Rightarrow> machine outcome" where
  "release_kmem s = obind (release (cpu_id s) (this_cpu s) (klock (kmem s)))
     (\<lambda>(c, lk). Ret (s\<lparr>this_cpu := c, kmem := (kmem s)\<lparr>klock := lk\<rparr>\<rparr>))"

definition acquire_khugemem :: "machine \<Rightarrow> machine outcome" where
  "acquire_khugemem s = obind (acquire (cpu_id s) (this_cpu s) (hlock (khugemem s)))
     (\<lambda>(c, lk). Ret (s\<lparr>this_cpu := c, khugemem := (khugemem s)\<lparr>hlock := lk\<rparr>\<rparr>))"

definition release_khugemem :: "machine \<Rightarrow> machine outcome" where
  "release_khugemem s = obind (release (cpu_id s) (this_cpu s) (hlock (khugemem s)))
     (\<lambda>(c, lk). Ret (s\<lparr>this_cpu := c, khugemem := (khugemem s)\<lparr>hlock := lk\<rparr>\<rparr>))"

section \<open>Operations\<close>

definition kfree :: "u32 \<Rightarrow> machine \<Rightarrow> machine outcome" where
  "kfree v s =
     (if v mod PGSIZE \<noteq> 0 \<or> v < kend s \<or> V2P v \<ge> PHYSTOP then Panic ''kfree''
      else
        let s = s\<lparr>mem := memset (mem s) v 1 PGSIZE\<rparr> in
        obind (if use_lock (kmem s) \<noteq> 0 then acquire_kmem s else Ret s) (\<lambda>s.
          let s = s\<lparr>mem := store32 (mem s) v (freelist (kmem s))\<rparr>;
              s = s\<lparr>kmem := (kmem s)\<lparr>freelist := v\<rparr>\<rparr>
          in if use_lock (kmem s) \<noteq> 0 then release_kmem s else Ret s))"

definition khugefree :: "u32 \<Rightarrow> machine \<Rightarrow> machine outcome" where
  "khugefree v s =
     (if v mod HUGE_PAGE_SIZE \<noteq> 0 \<or> V2P v < HUGE_PAGE_START \<or> V2P v \<ge> HUGE_PAGE_END
      then Panic ''khugefree''
      else
        let s = s\<lparr>mem := memset (mem s) v 1 HUGE_PAGE_SIZE\<rparr> in
        obind (if huse_lock (khugemem s) \<noteq> 0 then acquire_khugemem s else Ret s) (\<lambda>s.
          let s = s\<lparr>mem := store32 (mem s) v (freehugelist (khugemem s))\<rparr>;
              s = s\<lparr>khugemem := (khugemem s)\<lparr>freehugelist := v\<rparr>\<rparr>
          in if huse_lock (khugemem s) \<noteq> 0 then release_khugemem s else Ret s))"

definition kalloc :: "machine \<Rightarrow> (u32 \<times> machine) outcome" where
  "kalloc s =
     obind (if use_lock (kmem s) \<noteq> 0 then acquire_kmem s else Ret s) (\<lambda>s.
       let r = freelist (kmem s);
           s = (if r \<noteq> 0 then s\<lparr>kmem := (kmem s)\<lparr>freelist := load32 (mem s) r\<rparr>\<rparr> else s)
       in obind (if use_lock (kmem s) \<noteq> 0 then release_kmem s else Ret s) (\<lambda>s. Ret (r, s)))"

definition khugealloc :: "machine \<Rightarrow> (u32 \<times> machine) outcome" where
  "khugealloc s =
     obind (if huse_lock (khugemem s) \<noteq> 0 then acquire_khugemem s else Ret s) (\<lambda>s.
       let r = freehugelist (khugemem s);
           s = (if r \<noteq> 0
                then s\<lparr>khugemem := (khugemem s)\<lparr>freehugelist := load32 (mem s) r\<rparr>\<rparr> else s)
       in obind (if huse_lock (khugemem s) \<noteq> 0 then release_khugemem s else Ret s)
            (\<lambda>s. Ret (r, s)))"

text \<open>
  The loops over a range stop: \<open>kfree\<close> panics before the pointer can wrap around.
\<close>

lemma kfree_Ret_bound: "kfree p s = Ret s' \<Longrightarrow> unat p < 0x8E000000"
proof -
  assume "kfree p s = Ret s'"
  then have *: "V2P p < PHYSTOP" by (auto simp: kfree_def not_le split: if_splits)
  have "unat (p - 0x80000000) < 0xE000000"
    using * by (simp add: V2P_def word_less_nat_alt)
  then show ?thesis by (auto simp: unat_sub_if_size word_size split: if_splits)
qed

lemma khugefree_Ret_bound: "khugefree p s = Ret s' \<Longrightarrow> unat p < 0xBE000000"
proof -
  assume "khugefree p s = Ret s'"
  then have *: "V2P p < HUGE_PAGE_END" by (auto simp: khugefree_def not_le split: if_splits)
  have "unat (p - 0x80000000) < 0x3E000000"
    using * by (simp add: V2P_def word_less_nat_alt)
  then show ?thesis by (auto simp: unat_sub_if_size word_size split: if_splits)
qed

function freerange_loop :: "u32 \<Rightarrow> u32 \<Rightarrow> machine \<Rightarrow> machine outcome" where
  "freerange_loop p vend s =
     (if p + PGSIZE \<le> vend
      then obind (kfree p s) (\<lambda>s. freerange_loop (p + PGSIZE) vend s)
      else Ret s)"
  by pat_completeness auto
termination
  by (relation "measure (\<lambda>(p, vend, s). 4294967296 - unat p)")
    (auto dest!: kfree_Ret_bound simp: unat_add_no_wrap)

definition freerange :: "u32 \<Rightarrow> u32 \<Rightarrow> machine \<Rightarrow> machine outcome" where
  "freerange vstart vend s = freerange_loop (PGROUNDUP vstart) vend s"

function freehugerange_loop :: "u32 \<Rightarrow> u32 \<Rightarrow> machine \<Rightarrow> machine outcome" where
  "freehugerange_loop p vend s =
     (if p + HUGE_PAGE_SIZE \<le> vend
      then obind (khugefree p s) (\<lambda>s. freehugerange_loop (p + HUGE_PAGE_SIZE) vend s)
      else Ret s)"
  by pat_completeness auto
termination
  by (relation "measure (\<lambda>(p, vend, s). 4294967296 - unat p)")
    (auto dest!: khugefree_Ret_bound simp: unat_add_no_wrap)

definition freehugerange :: "u32 \<Rightarrow> u32 \<Rightarrow> machine \<Rightarrow> machine outcome" where
  "freehugerange vstart vend s = freehugerange_loop (HUGEPGROUNDUP vstart) vend s"

definition kinit1 :: "u32 \<Rightarrow> u32 \<Rightarrow> machine \<Rightarrow> machine outcome" where
  "kinit1 vstart vend s =
     (let s = s\<lparr>kmem := (kmem s)\<lparr>klock := initlock (klock (kmem s)) ''kmem''\<rparr>\<rparr>;
          s = s\<lparr>kmem := (kmem s)\<lparr>use_lock := 0\<rparr>\<rparr>
      in freerange vstart vend s)"

definition kinit2 :: "u32 \<Rightarrow> u32 \<Rightarrow> machine \<Rightarrow> machine outcome" where
  "kinit2 vstart vend s =
     obind (freerange vstart vend s) (\<lambda>s. Ret (s\<lparr>kmem := (kmem s)\<lparr>use_lock := 1\<rparr>\<rparr>))"

definition khugeinit :: "u32 \<Rightarrow> u32 \<Rightarrow> machine \<Rightarrow> machine outcome" where
  "khugeinit vstart vend s =
     (let s = s\<lparr>khugemem := (khugemem s)\<lparr>hlock := initlock (hlock (khugemem s)) ''khugemem''\<rparr>\<rparr>;
          s = s\<lparr>khugemem := (khugemem s)\<lparr>huse_lock := 0\<rparr>\<rparr>
      in obind (freehugerange vstart vend s)
           (\<lambda>s. Ret (s\<lparr>khugemem := (khugemem s)\<lparr>huse_lock := 1\<rparr>\<rparr>)))"

declare freerange_loop.simps [simp del] freehugerange_loop.simps [simp del]

section \<open>The operations with their locks free\<close>

text \<open>
  Called with the allocator's lock free, an operation takes the lock and gives it back; what
  remains is its effect, and the interrupt state remembered by the CPU.
\<close>

definition lock_free :: "spinlock \<Rightarrow> bool" where
  "lock_free lk \<longleftrightarrow> locked lk = 0 \<and> lkcpu lk = None"

definition locks_ok :: "machine \<Rightarrow> bool" where
  "locks_ok s \<longleftrightarrow>
     can_push (this_cpu s) \<and> lock_free (klock (kmem s)) \<and> lock_free (hlock (khugemem s))"

definition settle :: "bool \<Rightarrow> machine \<Rightarrow> machine" where
  "settle b s = (if b then s\<lparr>this_cpu := remember_if (this_cpu s)\<rparr> else s)"

lemma settle_simps [simp]:
  "mem (settle b s) = mem s" "kmem (settle b s) = kmem s" "khugemem (settle b s) = khugemem s"
  "kend (settle b s) = kend s" "kdata (settle b s) = kdata s"
  "kpgdir (settle b s) = kpgdir s" "cr3 (settle b s) = cr3 s" "cpu_id (settle b s) = cpu_id s"
  "cons_out (settle b s) = cons_out s" "locks_ok (settle b s) = locks_ok s"
  "can_push (this_cpu (settle b s)) = can_push (this_cpu s)"
  by (simp_all add: settle_def locks_ok_def)

lemma locks_ok_update [simp]:
  "locks_ok (s\<lparr>mem := m\<rparr>) = locks_ok s"
  "locks_ok (s\<lparr>kmem := (kmem s)\<lparr>freelist := x\<rparr>\<rparr>) = locks_ok s"
  "locks_ok (s\<lparr>khugemem := (khugemem s)\<lparr>freehugelist := x\<rparr>\<rparr>) = locks_ok s"
  "locks_ok (s\<lparr>cons_out := c\<rparr>) = locks_ok s"
  by (simp_all add: locks_ok_def)

lemma lock_free_id:
  "lock_free lk \<Longrightarrow> lk\<lparr>lkcpu := None, locked := 0\<rparr> = lk"
  "lock_free lk \<Longrightarrow> lk\<lparr>locked := 0, lkcpu := None\<rparr> = lk"
  by (cases lk, simp add: lock_free_def)+

definition kpage :: "machine \<Rightarrow> u32 \<Rightarrow> bool" where
  "kpage s p \<longleftrightarrow> p mod PGSIZE = 0 \<and> kend s \<le> p \<and> V2P p < PHYSTOP"

definition hpage :: "u32 \<Rightarrow> bool" where
  "hpage p \<longleftrightarrow> p mod HUGE_PAGE_SIZE = 0 \<and> HUGE_PAGE_START \<le> V2P p \<and> V2P p < HUGE_PAGE_END"

lemma kpage_update [simp]:
  "kpage (settle b s) = kpage s" "kpage (s\<lparr>mem := m\<rparr>) = kpage s"
  "kpage (s\<lparr>kmem := k\<rparr>) = kpage s" "kpage (s\<lparr>khugemem := h\<rparr>) = kpage s"
  "kpage (s\<lparr>cons_out := c\<rparr>) = kpage s"
  by (simp_all add: kpage_def fun_eq_iff)

lemma kalloc_eq:
  assumes "locks_ok s"
  shows "kalloc s = (let r = freelist (kmem s) in
     Ret (r, settle (use_lock (kmem s) \<noteq> 0)
       (if r \<noteq> 0 then s\<lparr>kmem := (kmem s)\<lparr>freelist := load32 (mem s) r\<rparr>\<rparr> else s)))"
  using assms
  by (auto simp: kalloc_def acquire_kmem_def release_kmem_def acquire_eq release_eq
      popcli_pushcli can_pushD locks_ok_def settle_def Let_def lock_free_def lock_free_id)

lemma khugealloc_eq:
  assumes "locks_ok s"
  shows "khugealloc s = (let r = freehugelist (khugemem s) in
     Ret (r, settle (huse_lock (khugemem s) \<noteq> 0)
       (if r \<noteq> 0 then s\<lparr>khugemem := (khugemem s)\<lparr>freehugelist := load32 (mem s) r\<rparr>\<rparr> else s)))"
  using assms
  by (auto simp: khugealloc_def acquire_khugemem_def release_khugemem_def acquire_eq release_eq
      popcli_pushcli can_pushD locks_ok_def settle_def Let_def lock_free_def lock_free_id)

lemma kfree_eq:
  assumes "locks_ok s" "kpage s v"
  shows "kfree v s = Ret (settle (use_lock (kmem s) \<noteq> 0)
    (s\<lparr>mem := store32 (memset (mem s) v 1 PGSIZE) v (freelist (kmem s)),
       kmem := (kmem s)\<lparr>freelist := v\<rparr>\<rparr>))"
  using assms
  by (auto simp: kfree_def kpage_def acquire_kmem_def release_kmem_def acquire_eq release_eq
      popcli_pushcli can_pushD locks_ok_def settle_def Let_def lock_free_def lock_free_id)

lemma khugefree_eq:
  assumes "locks_ok s" "hpage v"
  shows "khugefree v s = Ret (settle (huse_lock (khugemem s) \<noteq> 0)
    (s\<lparr>mem := store32 (memset (mem s) v 1 HUGE_PAGE_SIZE) v (freehugelist (khugemem s)),
       khugemem := (khugemem s)\<lparr>freehugelist := v\<rparr>\<rparr>))"
  using assms
  by (auto simp: khugefree_def hpage_def acquire_khugemem_def release_khugemem_def acquire_eq
      release_eq popcli_pushcli can_pushD locks_ok_def settle_def Let_def lock_free_def lock_free_id)

lemma kfree_bad: "\<not> kpage s v \<Longrightarrow> kfree v s = Panic ''kfree''"
  unfolding kfree_def kpage_def by (rule if_P) (meson not_le)

lemma khugefree_bad: "\<not> hpage v \<Longrightarrow> khugefree v s = Panic ''khugefree''"
  unfolding khugefree_def hpage_def by (rule if_P) (meson not_le)

section \<open>Pages apart\<close>

lemma word_mod_0_iff: "(v :: u32) mod w = 0 \<longleftrightarrow> unat w dvd unat v"
  by (metis dvd_eq_mod_eq_0 unat_mod unsigned_eq_0_iff)

lemma kpage_iff:
  "kpage s p \<longleftrightarrow> 4096 dvd unat p \<and> kend s \<le> p \<and> 0x80000000 \<le> unat p \<and> unat p < 0x8E000000"
proof -
  have "V2P p < PHYSTOP \<longleftrightarrow> 0x80000000 \<le> unat p \<and> unat p < 0x8E000000"
    using unat_lt_2p32 [of p]
    by (auto simp: V2P_def word_less_nat_alt unat_sub_if_size word_size split: if_splits)
  then show ?thesis
    unfolding kpage_def word_mod_0_iff by simp
qed

lemma hpage_iff:
  "hpage p \<longleftrightarrow> 4194304 dvd unat p \<and> 0x9E000000 \<le> unat p \<and> unat p < 0xBE000000"
proof -
  have "HUGE_PAGE_START \<le> V2P p \<and> V2P p < HUGE_PAGE_END \<longleftrightarrow>
      0x9E000000 \<le> unat p \<and> unat p < 0xBE000000"
    using unat_lt_2p32 [of p]
    by (auto simp: V2P_def word_less_nat_alt word_le_nat_alt unat_sub_if_size word_size
        split: if_splits)
  then show ?thesis
    unfolding hpage_def word_mod_0_iff by simp
qed

lemma kpage_nonzero: "kpage s p \<Longrightarrow> p \<noteq> 0"
  by (auto simp: kpage_iff)

lemma hpage_nonzero: "hpage p \<Longrightarrow> p \<noteq> 0"
  by (auto simp: hpage_iff)

text \<open>A region of aligned blocks: an address belongs to at most one block.\<close>

lemma block_apart:
  assumes "b dvd unat (p :: u32)" "b dvd unat q" "p \<noteq> q" "unat (x - p) < b"
    and "unat p + b \<le> 4294967296" "unat q + b \<le> 4294967296"
  shows "b \<le> unat (x - q)"
proof (rule ccontr)
  assume "\<not> b \<le> unat (x - q)"
  then have q: "unat (x - q) < b" by simp
  have "unat (q + (x - q)) = unat q + unat (x - q)"
    using q assms(6) by (intro unat_add_no_wrap) simp
  then have x1: "unat x = unat q + unat (x - q)" by simp
  have "unat (p + (x - p)) = unat p + unat (x - p)"
    using assms(4,5) by (intro unat_add_no_wrap) simp
  then have x2: "unat x = unat p + unat (x - p)" by simp
  have "unat x div b = unat q div b" "unat x div b = unat p div b"
    using assms(1,2,4) q
    by (simp add: x1 div_plus_div_distrib_dvd_left, simp add: x2 div_plus_div_distrib_dvd_left)
  then have "unat p div b = unat q div b" by simp
  then have "unat p = unat q" using assms(1,2) by (metis dvd_div_mult_self)
  then show False using assms(3) by (simp add: word_unat_eq_iff)
qed

text \<open>What freeing a page does to 32-bit words.\<close>

lemma load32_junk:
  assumes "4 dvd unat p" "4 dvd unat n" "4 dvd unat x" "0 < unat n"
  shows "load32 (store32 (memset m p c n) p w) x =
    (if x = p then w else if unat (x - p) < unat n then fill32 c else load32 m x)"
  using assms by (simp add: load32_store32 load32_memset)

section \<open>The free list in memory\<close>

text \<open>\<open>run_list m p xs\<close>: following the links of \<^verbatim>\<open>struct run\<close> from \<open>p\<close> visits exactly \<open>xs\<close>.\<close>

primrec run_list :: "memory \<Rightarrow> u32 \<Rightarrow> u32 list \<Rightarrow> bool" where
  "run_list m p [] \<longleftrightarrow> p = 0"
| "run_list m p (x # xs) \<longleftrightarrow> p = x \<and> x \<noteq> 0 \<and> run_list m (load32 m x) xs"

lemma run_list_cong:
  "(\<And>x. x \<in> set xs \<Longrightarrow> load32 m' x = load32 m x) \<Longrightarrow> run_list m' p xs = run_list m p xs"
  by (induction xs arbitrary: p) auto

lemma run_list_unique: "run_list m p xs \<Longrightarrow> run_list m p ys \<Longrightarrow> xs = ys"
proof (induction xs arbitrary: p ys)
  case Nil
  then show ?case by (cases ys) auto
next
  case (Cons x xs)
  then show ?case by (cases ys) auto
qed

definition kpool :: "machine \<Rightarrow> u32 list \<Rightarrow> bool" where
  "kpool s xs \<longleftrightarrow> locks_ok s \<and> run_list (mem s) (freelist (kmem s)) xs \<and> distinct xs \<and>
     (\<forall>p \<in> set xs. kpage s p)"

definition hpool :: "machine \<Rightarrow> u32 list \<Rightarrow> bool" where
  "hpool s xs \<longleftrightarrow> locks_ok s \<and> run_list (mem s) (freehugelist (khugemem s)) xs \<and> distinct xs \<and>
     (\<forall>p \<in> set xs. hpage p)"

lemma kpage_apart:
  assumes "kpage s p" "kpage s q" "p \<noteq> q" "unat (x - p) < 4096"
  shows "4096 \<le> unat (x - q)"
  by (rule block_apart [of 4096 p q]) (use assms in \<open>auto simp: kpage_iff\<close>)

lemma hpage_apart:
  assumes "hpage p" "hpage q" "p \<noteq> q" "unat (x - p) < 4194304"
  shows "4194304 \<le> unat (x - q)"
  by (rule block_apart [of 4194304 p q]) (use assms in \<open>auto simp: hpage_iff\<close>)

lemma kpage_hpage_apart:
  assumes "kpage s p" "hpage q"
  shows "unat (x - p) < 4096 \<Longrightarrow> 4194304 \<le> unat (x - q)"
    and "unat (x - q) < 4194304 \<Longrightarrow> 4096 \<le> unat (x - p)"
proof -
  have p: "unat p < 0x8E000000" "0x80000000 \<le> unat p" using assms(1) by (simp_all add: kpage_iff)
  have q: "0x9E000000 \<le> unat q" "unat q < 0xBE000000" using assms(2) by (simp_all add: hpage_iff)
  have x: "unat (x - p) < 4096 \<Longrightarrow> unat x = unat p + unat (x - p)"
    using p unat_add_no_wrap [of p "x - p"] by simp
  have y: "unat (x - q) < 4194304 \<Longrightarrow> unat x = unat q + unat (x - q)"
    using q unat_add_no_wrap [of q "x - q"] by simp
  show "unat (x - p) < 4096 \<Longrightarrow> 4194304 \<le> unat (x - q)"
    using x y p q by (rule_tac ccontr) simp
  show "unat (x - q) < 4194304 \<Longrightarrow> 4096 \<le> unat (x - p)"
    using x y p q by (rule_tac ccontr) simp
qed

section \<open>The interface: a pool of pages\<close>

text \<open>
  What a page allocator promises to its clients. \<open>repr s ps\<close>: in state \<open>s\<close> the free pages are
  \<open>ps\<close>, in the order in which they will be handed out.
\<close>

locale page_pool =
  fixes alloc :: "'s \<Rightarrow> (u32 \<times> 's) outcome"
    and free :: "u32 \<Rightarrow> 's \<Rightarrow> 's outcome"
    and repr :: "'s \<Rightarrow> u32 list \<Rightarrow> bool"
    and valid :: "'s \<Rightarrow> u32 \<Rightarrow> bool"
  assumes alloc_none: "repr s [] \<Longrightarrow> \<exists>s'. alloc s = Ret (0, s') \<and> repr s' [] \<and> valid s' = valid s"
    and alloc_some: "repr s (p # ps) \<Longrightarrow>
      \<exists>s'. alloc s = Ret (p, s') \<and> repr s' ps \<and> valid s' = valid s"
    and free_valid: "repr s ps \<Longrightarrow> valid s p \<Longrightarrow> p \<notin> set ps \<Longrightarrow>
      \<exists>s'. free p s = Ret s' \<and> repr s' (p # ps) \<and> valid s' = valid s"
    and free_invalid: "\<not> valid s p \<Longrightarrow> \<exists>e. free p s = Panic e"
    and repr_distinct: "repr s ps \<Longrightarrow> distinct ps"
    and repr_valid: "repr s ps \<Longrightarrow> p \<in> set ps \<Longrightarrow> valid s p"
    and valid_nonzero: "valid s p \<Longrightarrow> p \<noteq> 0"

text \<open>
  A client of a pool: it holds some pages, asks for more (and is refused when the result is
  the null pointer), and gives back pages it holds.
\<close>

inductive pool_run ::
  "('s \<Rightarrow> (u32 \<times> 's) outcome) \<Rightarrow> (u32 \<Rightarrow> 's \<Rightarrow> 's outcome) \<Rightarrow> 's \<Rightarrow> u32 list \<Rightarrow> 's \<Rightarrow> u32 list \<Rightarrow> bool"
  for al fr where
  start: "pool_run al fr s h s h"
| got: "pool_run al fr s h s' h' \<Longrightarrow> al s' = Ret (p, s'') \<Longrightarrow> p \<noteq> 0 \<Longrightarrow>
    pool_run al fr s h s'' (p # h')"
| refused: "pool_run al fr s h s' h' \<Longrightarrow> al s' = Ret (0, s'') \<Longrightarrow> pool_run al fr s h s'' h'"
| gave: "pool_run al fr s h s' h' \<Longrightarrow> p \<in> set h' \<Longrightarrow> fr p s' = Ret s'' \<Longrightarrow>
    pool_run al fr s h s'' (remove1 p h')"

context page_pool
begin

lemma alloc_cases:
  assumes "repr s ps"
  obtains s' where "ps = []" "alloc s = Ret (0, s')" "repr s' []" "valid s' = valid s"
  | p qs s' where "ps = p # qs" "alloc s = Ret (p, s')" "repr s' qs" "valid s' = valid s" "p \<noteq> 0"
proof (cases ps)
  case Nil
  with alloc_none assms that(1) show ?thesis by blast
next
  case (Cons p qs)
  have "p \<noteq> 0" using repr_valid [OF assms] valid_nonzero Cons by auto
  with alloc_some [of s p qs] assms Cons that(2) show ?thesis by blast
qed

lemma free_alloc:
  assumes "repr s ps" "valid s p" "p \<notin> set ps"
  shows "\<exists>s' s''. free p s = Ret s' \<and> alloc s' = Ret (p, s'') \<and> repr s'' ps"
  using free_valid [OF assms] alloc_some by blast

lemma conservation:
  assumes "pool_run alloc free s h s' h'" and "repr s ps" "distinct (ps @ h)"
    and "\<And>p. p \<in> set h \<Longrightarrow> valid s p"
  shows "\<exists>ps'. repr s' ps' \<and> distinct (ps' @ h') \<and> set (ps' @ h') = set (ps @ h) \<and>
    valid s' = valid s"
  using assms
proof (induction rule: pool_run.induct)
  case (start s h)
  then show ?case by blast
next
  case (got s h s' h' p s'')
  then obtain ps' where ps': "repr s' ps'" "distinct (ps' @ h')" "set (ps' @ h') = set (ps @ h)"
    "valid s' = valid s" by blast
  from ps'(1) show ?case
  proof (cases rule: alloc_cases)
    case (2 q qs t)
    with got ps' show ?thesis by (intro exI [of _ qs]) auto
  qed (use got in auto)
next
  case (refused s h s' h' s'')
  then obtain ps' where ps': "repr s' ps'" "distinct (ps' @ h')" "set (ps' @ h') = set (ps @ h)"
    "valid s' = valid s" by blast
  from ps'(1) show ?case
  proof (cases rule: alloc_cases)
    case (1 t)
    with refused ps' show ?thesis by (intro exI [of _ ps']) auto
  qed (use refused in auto)
next
  case (gave s h s' h' p s'')
  then obtain ps' where ps': "repr s' ps'" "distinct (ps' @ h')" "set (ps' @ h') = set (ps @ h)"
    "valid s' = valid s" by blast
  have "p \<in> set (ps @ h)" "p \<notin> set ps'" using ps'(2,3) gave.hyps(2) by auto
  then have "valid s' p"
    using gave.prems(1,3) repr_valid [OF gave.prems(1)] ps'(4) by auto
  then have "repr s'' (p # ps')" "valid s'' = valid s'"
    using free_valid [OF ps'(1) _ \<open>p \<notin> set ps'\<close>] gave.hyps(3) by auto
  moreover have "distinct h'" using ps'(2) by simp
  ultimately show ?case
    using ps' gave.hyps(2) by (intro exI [of _ "p # ps'"]) auto
qed

lemma never_stuck:
  assumes "pool_run alloc free s h s' h'" and "repr s ps" "distinct (ps @ h)"
    and "\<And>p. p \<in> set h \<Longrightarrow> valid s p"
  shows "(\<exists>p s''. alloc s' = Ret (p, s'')) \<and> (p \<in> set h' \<longrightarrow> (\<exists>s''. free p s' = Ret s''))"
proof -
  obtain ps' where ps': "repr s' ps'" "distinct (ps' @ h')" "set (ps' @ h') = set (ps @ h)"
    "valid s' = valid s" using conservation [OF assms] by blast
  have "valid s' p" "p \<notin> set ps'" if "p \<in> set h'"
    using that ps' assms(4) repr_valid [OF assms(2)] by (auto 0 4)
  then show ?thesis
    using alloc_cases [OF ps'(1)] free_valid [OF ps'(1)] by metis
qed

end

section \<open>Both allocators are pools\<close>

lemma kpoolD:
  assumes "kpool s xs"
  shows "locks_ok s" "run_list (mem s) (freelist (kmem s)) xs" "distinct xs"
    "p \<in> set xs \<Longrightarrow> kpage s p"
  using assms by (auto simp: kpool_def)

lemma hpoolD:
  assumes "hpool s xs"
  shows "locks_ok s" "run_list (mem s) (freehugelist (khugemem s)) xs" "distinct xs"
    "p \<in> set xs \<Longrightarrow> hpage p"
  using assms by (auto simp: hpool_def)

lemma dvd_4: "4096 dvd n \<Longrightarrow> 4 dvd (n :: nat)" "4194304 dvd n \<Longrightarrow> 4 dvd n"
  by (auto elim!: dvdE)

lemma kpage_dvd_4 [simp]: "kpage s p \<Longrightarrow> 4 dvd unat p"
  by (auto simp: kpage_iff intro: dvd_4)

lemma hpage_dvd_4 [simp]: "hpage p \<Longrightarrow> 4 dvd unat p"
  by (auto simp: hpage_iff intro: dvd_4)

lemma kalloc_pool:
  assumes "kpool s (p # ps)"
  shows "kalloc s = Ret (p, settle (use_lock (kmem s) \<noteq> 0)
      (s\<lparr>kmem := (kmem s)\<lparr>freelist := load32 (mem s) p\<rparr>\<rparr>))"
  using kpoolD [OF assms] by (simp add: kalloc_eq Let_def)

lemma kalloc_pool_empty: "kpool s [] \<Longrightarrow> kalloc s = Ret (0, settle (use_lock (kmem s) \<noteq> 0) s)"
  by (simp add: kpool_def kalloc_eq Let_def)

lemma khugealloc_pool:
  assumes "hpool s (p # ps)"
  shows "khugealloc s = Ret (p, settle (huse_lock (khugemem s) \<noteq> 0)
      (s\<lparr>khugemem := (khugemem s)\<lparr>freehugelist := load32 (mem s) p\<rparr>\<rparr>))"
  using hpoolD [OF assms] by (simp add: khugealloc_eq Let_def)

lemma khugealloc_pool_empty:
  "hpool s [] \<Longrightarrow> khugealloc s = Ret (0, settle (huse_lock (khugemem s) \<noteq> 0) s)"
  by (simp add: hpool_def khugealloc_eq Let_def)

lemma load32_kfree_other:
  assumes "kpage s v" "kpage s x" "x \<noteq> v"
  shows "load32 (store32 (memset m v 1 PGSIZE) v w) x = load32 m x"
  using assms kpage_apart [of s x v x] by (subst load32_junk) auto

lemma load32_khugefree_other:
  assumes "hpage v" "hpage x" "x \<noteq> v"
  shows "load32 (store32 (memset m v 1 HUGE_PAGE_SIZE) v w) x = load32 m x"
  using assms hpage_apart [of x v x] by (subst load32_junk) auto

lemma kfree_pool:
  assumes "kpool s ps" "kpage s p" "p \<notin> set ps"
  shows "\<exists>s'. kfree p s = Ret s' \<and> kpool s' (p # ps) \<and> kpage s' = kpage s"
proof -
  let ?s' = "settle (use_lock (kmem s) \<noteq> 0)
    (s\<lparr>mem := store32 (memset (mem s) p 1 PGSIZE) p (freelist (kmem s)),
       kmem := (kmem s)\<lparr>freelist := p\<rparr>\<rparr>)"
  have "run_list (mem ?s') (freelist (kmem s)) ps = run_list (mem s) (freelist (kmem s)) ps"
    using assms kpoolD(4) [OF assms(1)]
    by (intro run_list_cong) (simp, metis load32_kfree_other)
  then have "kpool ?s' (p # ps)"
    using assms kpage_nonzero [OF assms(2)] by (auto simp: kpool_def locks_ok_def)
  moreover have "kpage ?s' = kpage s" by simp
  ultimately show ?thesis
    using kfree_eq [OF kpoolD(1) [OF assms(1)] assms(2)] by blast
qed

lemma khugefree_pool:
  assumes "hpool s ps" "hpage p" "p \<notin> set ps"
  shows "\<exists>s'. khugefree p s = Ret s' \<and> hpool s' (p # ps)"
proof -
  let ?s' = "settle (huse_lock (khugemem s) \<noteq> 0)
    (s\<lparr>mem := store32 (memset (mem s) p 1 HUGE_PAGE_SIZE) p (freehugelist (khugemem s)),
       khugemem := (khugemem s)\<lparr>freehugelist := p\<rparr>\<rparr>)"
  have "run_list (mem ?s') (freehugelist (khugemem s)) ps
      = run_list (mem s) (freehugelist (khugemem s)) ps"
    using assms hpoolD(4) [OF assms(1)]
    by (intro run_list_cong) (simp, metis load32_khugefree_other)
  then have "hpool ?s' (p # ps)"
    using assms hpage_nonzero [OF assms(2)] by (auto simp: hpool_def locks_ok_def)
  then show ?thesis
    using assms khugefree_eq [OF hpoolD(1) [OF assms(1)] assms(2)] by blast
qed

interpretation base_pages: page_pool kalloc kfree kpool kpage
proof unfold_locales
  fix s assume "kpool s []"
  then show "\<exists>s'. kalloc s = Ret (0, s') \<and> kpool s' [] \<and> kpage s' = kpage s"
    by (auto simp: kalloc_pool_empty kpool_def)
next
  fix s p ps assume *: "kpool s (p # ps)"
  then show "\<exists>s'. kalloc s = Ret (p, s') \<and> kpool s' ps \<and> kpage s' = kpage s"
    by (simp add: kalloc_pool) (simp add: kpool_def)
next
  fix s ps p assume "kpool s ps" "kpage s p" "p \<notin> set ps"
  then show "\<exists>s'. kfree p s = Ret s' \<and> kpool s' (p # ps) \<and> kpage s' = kpage s"
    by (rule kfree_pool)
qed (auto simp: kfree_bad kpool_def dest: kpage_nonzero)

interpretation huge_pages: page_pool khugealloc khugefree hpool "\<lambda>s. hpage"
proof unfold_locales
  fix s assume "hpool s []"
  then show "\<exists>s'. khugealloc s = Ret (0, s') \<and> hpool s' [] \<and> hpage = hpage"
    by (auto simp: khugealloc_pool_empty hpool_def)
next
  fix s p ps assume "hpool s (p # ps)"
  then show "\<exists>s'. khugealloc s = Ret (p, s') \<and> hpool s' ps \<and> hpage = hpage"
    by (simp add: khugealloc_pool) (simp add: hpool_def)
next
  fix s ps p assume "hpool s ps" "hpage p" "p \<notin> set ps"
  then show "\<exists>s'. khugefree p s = Ret s' \<and> hpool s' (p # ps) \<and> hpage = hpage"
    using khugefree_pool by blast
qed (auto simp: khugefree_bad hpool_def dest: hpage_nonzero)

section \<open>Filling the pools at boot\<close>

text \<open>The pages a range loop visits, and freeing a list of pages one after the other.\<close>

primrec page_seq :: "u32 \<Rightarrow> u32 \<Rightarrow> nat \<Rightarrow> u32 list" where
  "page_seq sz p 0 = []"
| "page_seq sz p (Suc n) = p # page_seq sz (p + sz) n"

primrec free_all :: "(u32 \<Rightarrow> 's \<Rightarrow> 's outcome) \<Rightarrow> u32 list \<Rightarrow> 's \<Rightarrow> 's outcome" where
  "free_all fr [] s = Ret s"
| "free_all fr (p # ps) s = obind (fr p s) (free_all fr ps)"

lemma length_page_seq [simp]: "length (page_seq sz p n) = n"
  by (induction n arbitrary: p) auto

lemma page_seq_mem:
  assumes "unat p + n * unat sz \<le> 4294967296" "0 < unat sz"
  shows "x \<in> set (page_seq sz p n) \<longleftrightarrow> (\<exists>i < n. unat x = unat p + i * unat sz)"
  using assms
proof (induction n arbitrary: p)
  case 0
  then show ?case by simp
next
  case (Suc n)
  show ?case
  proof (cases "n = 0")
    case True
    then show ?thesis by (auto simp: word_unat_eq_iff)
  next
    case False
    then have u: "unat (p + sz) = unat p + unat sz"
      using Suc.prems by (intro unat_add_no_wrap) (simp, cases n, auto)
    have "x \<in> set (page_seq sz (p + sz) n) \<longleftrightarrow> (\<exists>i < n. unat x = unat (p + sz) + i * unat sz)"
      using Suc.prems by (intro Suc.IH) (auto simp: u)
    also have "\<dots> \<longleftrightarrow> (\<exists>i < n. unat x = unat p + Suc i * unat sz)"
      by (simp add: u add.assoc)
    finally show ?thesis
      unfolding Ex_less_Suc2 by (auto simp: word_unat_eq_iff)
  qed
qed

lemma distinct_page_seq:
  assumes "unat p + n * unat sz \<le> 4294967296" "0 < unat sz"
  shows "distinct (page_seq sz p n)"
  using assms
proof (induction n arbitrary: p)
  case 0
  then show ?case by simp
next
  case (Suc n)
  show ?case
  proof (cases "n = 0")
    case False
    then have u: "unat (p + sz) = unat p + unat sz"
      using Suc.prems by (intro unat_add_no_wrap) (simp, cases n, auto)
    have "p \<notin> set (page_seq sz (p + sz) n)"
      using Suc.prems page_seq_mem [of "p + sz" n sz p] by (auto simp: u)
    then show ?thesis using Suc by (auto simp: u)
  qed simp
qed

context page_pool
begin

lemma free_all_valid:
  assumes "repr s ps" "distinct (qs @ ps)" "\<And>q. q \<in> set qs \<Longrightarrow> valid s q"
  shows "\<exists>s'. free_all free qs s = Ret s' \<and> repr s' (rev qs @ ps) \<and> valid s' = valid s"
  using assms
proof (induction qs arbitrary: s ps)
  case Nil
  then show ?case by simp
next
  case (Cons q qs)
  obtain s1 where s1: "free q s = Ret s1" "repr s1 (q # ps)" "valid s1 = valid s"
    using free_valid [of s ps q] Cons.prems by auto
  have "\<exists>s'. free_all free qs s1 = Ret s' \<and> repr s' (rev qs @ q # ps) \<and> valid s' = valid s1"
    using s1 Cons.prems by (intro Cons.IH) auto
  then show ?case using s1 by auto
qed

end

lemma page_seq_range:
  assumes "unat sz dvd unat (p :: u32)" "0 < unat sz" "n = (unat (vend :: u32) - unat p) div unat sz"
    and "unat p \<le> 4294967296"
  shows "set (page_seq sz p n) = {x. unat sz dvd unat x \<and> p \<le> x \<and> unat x + unat sz \<le> unat vend}"
    and "distinct (page_seq sz p n)"
proof -
  have le: "n * unat sz \<le> unat vend - unat p" by (simp add: assms(3))
  then have *: "unat p + n * unat sz \<le> 4294967296"
    using unat_lt_2p32 [of vend] assms(4) by linarith
  show "distinct (page_seq sz p n)" using * assms(2) by (rule distinct_page_seq)
  have "(\<exists>i < n. unat x = unat p + i * unat sz) \<longleftrightarrow>
      unat sz dvd unat x \<and> p \<le> x \<and> unat x + unat sz \<le> unat vend" (is "?l = ?r") for x
  proof
    assume ?l
    then obtain i where i: "i < n" "unat x = unat p + i * unat sz" by blast
    have "Suc i * unat sz \<le> n * unat sz" using i(1) by (intro mult_le_mono1) simp
    then have "Suc i * unat sz \<le> unat vend - unat p" using le by linarith
    then have "unat p + (i * unat sz + unat sz) \<le> unat vend" using assms(2) by simp
    then show ?r using i assms(1) by (simp add: word_le_nat_alt)
  next
    assume r: ?r
    define i where "i = (unat x - unat p) div unat sz"
    have "unat sz dvd unat x - unat p" using r assms(1) by (simp add: dvd_diff_nat)
    then have x: "unat x = unat p + i * unat sz"
      using r by (simp add: i_def word_le_nat_alt)
    then have "Suc i * unat sz \<le> unat vend - unat p" using r by auto
    then have "Suc i \<le> n" using assms(2,3) by (simp add: less_eq_div_iff_mult_less_eq)
    then show ?l using x by (intro exI [of _ i]) simp
  qed
  then show "set (page_seq sz p n) = {x. unat sz dvd unat x \<and> p \<le> x \<and> unat x + unat sz \<le> unat vend}"
    using page_seq_mem [OF * assms(2)] by blast
qed

lemma freerange_loop_eq:
  assumes "n = (unat vend - unat p) div 4096" "unat p + 4096 < 4294967296"
    and "unat vend + 4096 < 4294967296"
  shows "freerange_loop p vend s = free_all kfree (page_seq PGSIZE p n) s"
  using assms
proof (induction n arbitrary: p s)
  case 0
  have "unat (p + PGSIZE) = unat p + 4096" using 0 by (intro unat_add_no_wrap [THEN trans]) auto
  with 0 have "\<not> p + PGSIZE \<le> vend" by (simp add: word_le_nat_alt div_eq_0_iff)
  then show ?case by (simp add: freerange_loop.simps [of p])
next
  case (Suc n)
  have u: "unat (p + PGSIZE) = unat p + 4096"
    using Suc.prems by (intro unat_add_no_wrap [THEN trans]) auto
  have le: "unat p + 4096 \<le> unat vend" using Suc.prems(1) by (cases "unat p + 4096 \<le> unat vend") auto
  have "freerange_loop (p + PGSIZE) vend = free_all kfree (page_seq PGSIZE (p + PGSIZE) n)"
    using Suc.prems u le by (intro ext Suc.IH) auto
  then show ?case using u le by (simp add: freerange_loop.simps [of p] word_le_nat_alt)
qed

lemma freehugerange_loop_eq:
  assumes "n = (unat vend - unat p) div 4194304" "unat p + 4194304 < 4294967296"
    and "unat vend + 4194304 < 4294967296"
  shows "freehugerange_loop p vend s = free_all khugefree (page_seq HUGE_PAGE_SIZE p n) s"
  using assms
proof (induction n arbitrary: p s)
  case 0
  have "unat (p + HUGE_PAGE_SIZE) = unat p + 4194304"
    using 0 by (intro unat_add_no_wrap [THEN trans]) auto
  with 0 have "\<not> p + HUGE_PAGE_SIZE \<le> vend" by (simp add: word_le_nat_alt div_eq_0_iff)
  then show ?case by (simp add: freehugerange_loop.simps [of p])
next
  case (Suc n)
  have u: "unat (p + HUGE_PAGE_SIZE) = unat p + 4194304"
    using Suc.prems by (intro unat_add_no_wrap [THEN trans]) auto
  have le: "unat p + 4194304 \<le> unat vend"
    using Suc.prems(1) by (cases "unat p + 4194304 \<le> unat vend") auto
  have "freehugerange_loop (p + HUGE_PAGE_SIZE) vend
      = free_all khugefree (page_seq HUGE_PAGE_SIZE (p + HUGE_PAGE_SIZE) n)"
    using Suc.prems u le by (intro ext Suc.IH) auto
  then show ?case using u le by (simp add: freehugerange_loop.simps [of p] word_le_nat_alt)
qed

lemma freerange_pool:
  assumes "kpool s ps" "unat vend \<le> 0x8E000000" "unat vstart < 0x8E000000"
    and "\<And>q. 4096 dvd unat q \<Longrightarrow> vstart \<le> q \<Longrightarrow> unat q + 4096 \<le> unat vend \<Longrightarrow> kpage s q"
    and "\<And>p. p \<in> set ps \<Longrightarrow> p < vstart \<or> vend \<le> p"
  shows "\<exists>s' qs. freerange vstart vend s = Ret s' \<and> kpool s' (rev qs @ ps) \<and> kpage s' = kpage s \<and>
    set qs = {p. 4096 dvd unat p \<and> vstart \<le> p \<and> unat p + 4096 \<le> unat vend}"
proof -
  let ?p = "PGROUNDUP vstart"
  let ?n = "(unat vend - unat ?p) div 4096"
  let ?qs = "page_seq PGSIZE ?p ?n"
  have p: "4096 dvd unat ?p" "unat vstart \<le> unat ?p" "unat ?p < unat vstart + 4096"
    using assms(3) by (auto intro!: PGROUNDUP_props)
  have up: "?p \<le> x \<longleftrightarrow> vstart \<le> x" if "4096 dvd unat x" for x
    using that assms(3) by (simp add: PGROUNDUP_le_iff)
  have set: "set ?qs = {x. 4096 dvd unat x \<and> vstart \<le> x \<and> unat x + 4096 \<le> unat vend}"
    using page_seq_range(1) [of PGSIZE ?p ?n vend] p up by (auto simp: less_imp_le)
  have dist: "distinct ?qs" using page_seq_range(2) [of PGSIZE ?p ?n vend] p by (simp add: less_imp_le)
  have "kpage s q" if "q \<in> set ?qs" for q
    using that by (intro assms(4)) (auto simp: set)
  moreover have "distinct (?qs @ ps)"
    using dist kpoolD(3) [OF assms(1)]
    by (auto simp: set word_le_nat_alt word_less_nat_alt dest!: assms(5))
  ultimately have "\<exists>s'. free_all kfree ?qs s = Ret s' \<and> kpool s' (rev ?qs @ ps) \<and> kpage s' = kpage s"
    using assms(1) by (intro base_pages.free_all_valid) auto
  moreover have "freerange vstart vend s = free_all kfree ?qs s"
    unfolding freerange_def using assms p by (intro freerange_loop_eq) auto
  ultimately obtain s' where s': "freerange vstart vend s = Ret s'" "kpool s' (rev ?qs @ ps)"
    "kpage s' = kpage s" by auto
  show ?thesis by (rule exI [of _ s'], rule exI [of _ ?qs]) (use s' set in \<open>simp only: simp_thms\<close>)
qed

lemma freehugerange_pool:
  assumes "hpool s ps" "0x9E000000 \<le> unat vstart" "unat vend \<le> 0xBE000000"
    and "unat vstart < 0xBE000000" "\<And>p. p \<in> set ps \<Longrightarrow> p < vstart \<or> vend \<le> p"
  shows "\<exists>s' qs. freehugerange vstart vend s = Ret s' \<and> hpool s' (rev qs @ ps) \<and>
    set qs = {p. 4194304 dvd unat p \<and> vstart \<le> p \<and> unat p + 4194304 \<le> unat vend} \<and>
    length qs = (unat vend - unat (HUGEPGROUNDUP vstart)) div 4194304"
proof -
  let ?p = "HUGEPGROUNDUP vstart"
  let ?n = "(unat vend - unat ?p) div 4194304"
  let ?qs = "page_seq HUGE_PAGE_SIZE ?p ?n"
  have p: "4194304 dvd unat ?p" "unat vstart \<le> unat ?p" "unat ?p < unat vstart + 4194304"
    using assms(4) by (auto intro!: HUGEPGROUNDUP_props)
  have up: "?p \<le> x \<longleftrightarrow> vstart \<le> x" if "4194304 dvd unat x" for x
    using that assms(4) by (simp add: HUGEPGROUNDUP_le_iff)
  have set: "set ?qs = {x. 4194304 dvd unat x \<and> vstart \<le> x \<and> unat x + 4194304 \<le> unat vend}"
    using page_seq_range(1) [of HUGE_PAGE_SIZE ?p ?n vend] p up by (auto simp: less_imp_le)
  have dist: "distinct ?qs"
    using page_seq_range(2) [of HUGE_PAGE_SIZE ?p ?n vend] p by (simp add: less_imp_le)
  have "hpage q" if "q \<in> set ?qs" for q
    using that assms(2,3) by (simp add: set hpage_iff word_le_nat_alt)
  moreover have "distinct (?qs @ ps)"
    using dist hpoolD(3) [OF assms(1)]
    by (auto simp: set word_le_nat_alt word_less_nat_alt dest!: assms(5))
  ultimately have "\<exists>s'. free_all khugefree ?qs s = Ret s' \<and> hpool s' (rev ?qs @ ps) \<and> hpage = hpage"
    using assms(1) by (intro huge_pages.free_all_valid) auto
  moreover have "freehugerange vstart vend s = free_all khugefree ?qs s"
    unfolding freehugerange_def using assms p by (intro freehugerange_loop_eq) auto
  ultimately obtain s' where s': "freehugerange vstart vend s = Ret s'" "hpool s' (rev ?qs @ ps)"
    by auto
  show ?thesis
    by (rule exI [of _ s'], rule exI [of _ ?qs]) (use s' set in \<open>simp only: simp_thms length_page_seq\<close>)
qed

section \<open>The two pools do not touch each other\<close>

lemma load32_kfree_huge:
  assumes "kpage s v" "hpage x"
  shows "load32 (store32 (memset m v 1 PGSIZE) v w) x = load32 m x"
  using assms kpage_hpage_apart(2) [of s v x x] kpage_hpage_apart(1) [of s v x x]
  by (subst load32_junk) auto

lemma load32_khugefree_base:
  assumes "hpage v" "kpage s x"
  shows "load32 (store32 (memset m v 1 HUGE_PAGE_SIZE) v w) x = load32 m x"
  using assms kpage_hpage_apart(1) [of s x v x] by (subst load32_junk) auto

lemma kalloc_hpool: "hpool s hs \<Longrightarrow> kalloc s = Ret (p, s') \<Longrightarrow> hpool s' hs"
  by (auto simp: kalloc_eq Let_def hpool_def split: if_splits)

lemma khugealloc_kpool: "kpool s ks \<Longrightarrow> khugealloc s = Ret (p, s') \<Longrightarrow> kpool s' ks"
  by (auto simp: khugealloc_eq Let_def kpool_def split: if_splits)

lemma kfree_hpool:
  assumes "hpool s hs" "kfree p s = Ret s'"
  shows "hpool s' hs"
proof -
  have p: "kpage s p" using assms(2) kfree_bad by fastforce
  have "run_list (store32 (memset (mem s) p 1 PGSIZE) p w) q hs = run_list (mem s) q hs" for q w
    using p hpoolD(4) [OF assms(1)] load32_kfree_huge by (intro run_list_cong) blast
  then show ?thesis
    using assms p by (auto simp: kfree_eq hpool_def locks_ok_def)
qed

lemma khugefree_kpool:
  assumes "kpool s ks" "khugefree p s = Ret s'"
  shows "kpool s' ks"
proof -
  have p: "hpage p" using assms(2) khugefree_bad by fastforce
  have "run_list (store32 (memset (mem s) p 1 HUGE_PAGE_SIZE) p w) q ks = run_list (mem s) q ks" for q w
    using p kpoolD(4) [OF assms(1)] load32_khugefree_base by (intro run_list_cong) blast
  then show ?thesis
    using assms p by (auto simp: khugefree_eq kpool_def locks_ok_def)
qed

lemma freehugerange_kpool:
  assumes "kpool s ks" "freehugerange vstart vend s = Ret s'"
  shows "kpool s' ks"
proof -
  have "freehugerange_loop p vend s = Ret s' \<Longrightarrow> kpool s' ks" for p
    using assms(1)
    by (induction p vend s rule: freehugerange_loop.induct)
      (subst (asm) (2) freehugerange_loop.simps, auto dest: khugefree_kpool split: if_splits)
  then show ?thesis using assms(2) by (simp add: freehugerange_def)
qed

lemma lock_free_initlock [simp]: "lock_free (initlock lk nm)"
  by (simp add: lock_free_def initlock_def)

lemma unat_boot_addrs [simp]:
  "unat (P2V 0x400000) = 0x80400000" "unat (P2V PHYSTOP) = 0x8E000000"
  "unat (P2V HUGE_PAGE_START) = 0x9E000000" "unat (P2V HUGE_PAGE_END) = 0xBE000000"
  by (simp_all add: P2V_def)

lemma kinit2_pool:
  assumes "kpool s ps" "kend s \<le> P2V 0x400000" "\<And>p. p \<in> set ps \<Longrightarrow> unat p < 0x80400000"
  shows "\<exists>s' qs. kinit2 (P2V 0x400000) (P2V PHYSTOP) s = Ret s' \<and> kpool s' (rev qs @ ps) \<and>
    use_lock (kmem s') = 1 \<and> set qs = {p. kpage s p \<and> 0x80400000 \<le> unat p}"
proof -
  have room: "unat p + 4096 \<le> 0x8E000000 \<longleftrightarrow> unat p < 0x8E000000" if "4096 dvd unat p" for p :: u32
    using that dvd_less_room [of 4096 "unat p" "0x8E000000"] by auto
  have kp: "kpage s p \<longleftrightarrow> unat p < 0x8E000000" if "4096 dvd unat p" "0x80400000 \<le> unat p" for p
    using that assms(2) by (auto simp: kpage_iff word_le_nat_alt)
  obtain s' qs where s': "freerange (P2V 0x400000) (P2V PHYSTOP) s = Ret s'" "kpool s' (rev qs @ ps)"
    "set qs = {p. 4096 dvd unat p \<and> P2V 0x400000 \<le> p \<and> unat p + 4096 \<le> unat (P2V PHYSTOP)}"
  proof -
    have "\<exists>s' qs. freerange (P2V 0x400000) (P2V PHYSTOP) s = Ret s' \<and> kpool s' (rev qs @ ps) \<and>
      kpage s' = kpage s \<and>
      set qs = {p. 4096 dvd unat p \<and> P2V 0x400000 \<le> p \<and> unat p + 4096 \<le> unat (P2V PHYSTOP)}"
      using assms(1)
      by (rule freerange_pool) (auto simp: kp word_le_nat_alt word_less_nat_alt dest!: assms(3))
    then show ?thesis using that by blast
  qed
  have "set qs = {p. kpage s p \<and> 0x80400000 \<le> unat p}"
    using kp room unfolding s'(3) by (auto simp: word_le_nat_alt kpage_iff)
  moreover have "kpool (s'\<lparr>kmem := (kmem s')\<lparr>use_lock := 1\<rparr>\<rparr>) xs = kpool s' xs" for xs
    by (simp add: kpool_def locks_ok_def)
  ultimately show ?thesis using s'(1,2) by (intro exI [of _ qs] exI) (auto simp: kinit2_def)
qed

lemma kinit1_pool:
  assumes "can_push (this_cpu s)" "lock_free (hlock (khugemem s))" "freelist (kmem s) = 0"
    and "0x80000000 \<le> unat (kend s)" "unat (kend s) < 0x80400000"
  shows "\<exists>s' qs. kinit1 (kend s) (P2V 0x400000) s = Ret s' \<and> kpool s' qs \<and> kpage s' = kpage s \<and>
    set qs = {p. kpage s p \<and> unat p < 0x80400000}"
proof -
  define s0 where "s0 = s\<lparr>kmem := (kmem s)\<lparr>klock := initlock (klock (kmem s)) ''kmem'', use_lock := 0\<rparr>\<rparr>"
  have kp: "kpage s0 = kpage s" by (simp add: s0_def)
  have 0: "kpool s0 []" using assms(1-3) by (simp add: s0_def kpool_def locks_ok_def)
  have room: "unat p + 4096 \<le> 0x80400000 \<longleftrightarrow> unat p < 0x80400000" if "4096 dvd unat p" for p :: u32
    using that dvd_less_room [of 4096 "unat p" "0x80400000"] by auto
  have "\<exists>s' qs. freerange (kend s) (P2V 0x400000) s0 = Ret s' \<and> kpool s' (rev qs @ []) \<and>
      kpage s' = kpage s0 \<and>
      set qs = {p. 4096 dvd unat p \<and> kend s \<le> p \<and> unat p + 4096 \<le> unat (P2V 0x400000)}"
    using 0 by (rule freerange_pool) (use assms in \<open>auto simp: kp kpage_iff word_le_nat_alt\<close>)
  then obtain s' qs where s': "freerange (kend s) (P2V 0x400000) s0 = Ret s'" "kpool s' (rev qs)"
    "kpage s' = kpage s"
    "set qs = {p. 4096 dvd unat p \<and> kend s \<le> p \<and> unat p + 4096 \<le> unat (P2V 0x400000)}"
    by (auto simp: kp)
  have "set qs = {p. kpage s p \<and> unat p < 0x80400000}"
    using room assms(4) unfolding s'(4) by (auto simp: word_le_nat_alt kpage_iff)
  then show ?thesis using s'(1-3) by (intro exI [of _ "rev qs"] exI) (auto simp: kinit1_def s0_def Let_def)
qed

section \<open>Properties\<close>

text \<open>A machine as the boot loader leaves it: memory and the allocator structures are zero.\<close>

definition machine0 :: machine where
  "machine0 = \<lparr>mem = (\<lambda>_. 0),
     kmem = \<lparr>klock = \<lparr>locked = 0, lkname = [], lkcpu = None\<rparr>, use_lock = 0, freelist = 0\<rparr>,
     khugemem = \<lparr>hlock = \<lparr>locked = 0, lkname = [], lkcpu = None\<rparr>, huse_lock = 0, freehugelist = 0\<rparr>,
     cpu_id = 0, this_cpu = \<lparr>eflags = 0, ncli = 0, intena = 0\<rparr>,
     kend = 0x80117000, kdata = 0x80109000, kpgdir = 0, cr3 = 0, cons_out = []\<rparr>"

lemma machine0_simps [simp]:
  "locks_ok machine0" "freelist (kmem machine0) = 0" "freehugelist (khugemem machine0) = 0"
  "kend machine0 = 0x80117000" "can_push (this_cpu machine0)"
  by (simp_all add: machine0_def locks_ok_def lock_free_def can_push_def cpu_ok_def depth_def interrupts_on_def FL_IF_bit)

text \<open>
  Claim C4. The 4 KB allocator keeps account of its pages under every sequence of calls: after any
  run of \<open>kalloc\<close> and \<open>kfree\<close> that frees only pages it was given, the free list is intact, the pages
  on it and the pages held are all different and are together the pages there were at the start,
  the next \<open>kalloc\<close> returns, and freeing any held page returns. So no page is handed out twice,
  none is lost, and neither call panics.
\<close>

theorem kalloc_accounts_for_pages:
  assumes "pool_run kalloc kfree s h s' h'" and "kpool s ps" "distinct (ps @ h)"
    and "\<forall>p \<in> set h. kpage s p"
  shows "(\<exists>ps'. kpool s' ps' \<and> distinct (ps' @ h') \<and> set (ps' @ h') = set (ps @ h)) \<and>
    (\<exists>p s''. kalloc s' = Ret (p, s'')) \<and> (\<forall>p \<in> set h'. \<exists>s''. kfree p s' = Ret s'')"
  using base_pages.conservation [OF assms(1-3)] base_pages.never_stuck [OF assms(1-3)] assms(4)
  by blast

theorem kalloc_accounts_for_pages_witness:
  "\<exists>s ps. kpool s ps \<and> ps = [0x80200000] \<and>
     (\<exists>s' h'. pool_run kalloc kfree s [] s' h' \<and> h' = [0x80200000] \<and> kpool s' [])"
proof -
  let ?p = "0x80200000 :: u32"
  have m: "kpool machine0 []" by (simp add: kpool_def)
  have v: "kpage machine0 ?p" by (simp add: kpage_iff)
  obtain s where s: "kpool s [?p]" using base_pages.free_valid [OF m v] by auto
  obtain s' where s': "kalloc s = Ret (?p, s')" using kalloc_pool [OF s] by blast
  have run: "pool_run kalloc kfree s [] s' [?p]"
    using pool_run.got [OF pool_run.start, of kalloc s ?p s' kfree "[]"] s' by simp
  obtain ps' where ps': "kpool s' ps'" "distinct (ps' @ [?p])" "set (ps' @ [?p]) = {?p}"
    using kalloc_accounts_for_pages [OF run s] by auto
  then have "ps' = []" by (cases ps') auto
  with s run ps' show ?thesis by blast
qed

text \<open>
  Claim C17. The huge page allocator keeps account of its pages in the same way, and does not
  disturb the 4 KB free list: after any run of \<open>khugealloc\<close> and \<open>khugefree\<close> that frees only pages
  it was given, free and held huge pages are all different and together those there were at the
  start, the next call of either function returns, and the 4 KB pool is the one it was.
\<close>

theorem khugealloc_accounts_for_pages:
  assumes "pool_run khugealloc khugefree s h s' h'" and "hpool s ps" "distinct (ps @ h)"
    and "\<forall>p \<in> set h. hpage p" and "kpool s ks"
  shows "(\<exists>ps'. hpool s' ps' \<and> distinct (ps' @ h') \<and> set (ps' @ h') = set (ps @ h)) \<and>
    (\<exists>p s''. khugealloc s' = Ret (p, s'')) \<and> (\<forall>p \<in> set h'. \<exists>s''. khugefree p s' = Ret s'') \<and>
    kpool s' ks"
proof -
  have "kpool s' ks"
    using assms(1,5)
    by (induction rule: pool_run.induct) (blast intro: khugealloc_kpool khugefree_kpool)+
  then show ?thesis
    using huge_pages.conservation [OF assms(1-3)] huge_pages.never_stuck [OF assms(1-3)] assms(4)
    by blast
qed

theorem khugealloc_accounts_for_pages_witness:
  "\<exists>s ps. hpool s ps \<and> ps = [0xA0000000] \<and> kpool s [] \<and>
     (\<exists>s' h'. pool_run khugealloc khugefree s [] s' h' \<and> h' = [0xA0000000] \<and> hpool s' [] \<and> kpool s' [])"
proof -
  let ?p = "0xA0000000 :: u32"
  have m: "hpool machine0 []" and k: "kpool machine0 []" by (simp_all add: hpool_def kpool_def)
  have v: "hpage ?p" by (simp add: hpage_iff)
  obtain s where s: "khugefree ?p machine0 = Ret s" "hpool s [?p]"
    using huge_pages.free_valid [OF m v] by auto
  then have ks: "kpool s []" using khugefree_kpool [OF k] by blast
  obtain s' where s': "khugealloc s = Ret (?p, s')" using khugealloc_pool [OF s(2)] by blast
  have run: "pool_run khugealloc khugefree s [] s' [?p]"
    using pool_run.got [OF pool_run.start, of khugealloc s ?p s' khugefree "[]"] s' by simp
  obtain ps' where ps': "hpool s' ps'" "distinct (ps' @ [?p])" "set (ps' @ [?p]) = {?p}" "kpool s' []"
    using khugealloc_accounts_for_pages [OF run s(2) _ _ ks] by auto
  then have "ps' = []" by (cases ps') auto
  with s ks run ps' show ?thesis by blast
qed

text \<open>
  Claim C18. Boot of the 4 KB allocator: \<open>kinit1\<close> frees the pages from the kernel's end to 4 MB; whatever
  the kernel then allocates and frees, \<open>kinit2\<close> adds the rest, and from then on the free pages and
  the pages in use are all different and are together every page \<open>kfree\<close> accepts. No call panics,
  and the lock is in use at the end.
\<close>

theorem kinit_frees_every_page:
  assumes "can_push (this_cpu s)" "lock_free (hlock (khugemem s))" "freelist (kmem s) = 0"
    and "P2V EXTMEM \<le> kend s" "kend s < P2V 0x400000"
  shows "\<exists>s1 ps1. kinit1 (kend s) (P2V 0x400000) s = Ret s1 \<and> kpool s1 ps1 \<and>
    (\<forall>s2 h. pool_run kalloc kfree s1 [] s2 h \<longrightarrow>
      (\<exists>s3 ps3. kinit2 (P2V 0x400000) (P2V PHYSTOP) s2 = Ret s3 \<and> kpool s3 ps3 \<and>
         distinct (ps3 @ h) \<and> set (ps3 @ h) = {p. kpage s p} \<and> use_lock (kmem s3) = 1))"
proof -
  have b: "0x80000000 \<le> unat (kend s)" "unat (kend s) < 0x80400000"
    using assms(4,5) by (simp_all add: P2V_def word_le_nat_alt word_less_nat_alt)
  obtain s1 ps1 where s1: "kinit1 (kend s) (P2V 0x400000) s = Ret s1" "kpool s1 ps1"
    "kpage s1 = kpage s" "set ps1 = {p. kpage s p \<and> unat p < 0x80400000}"
    using kinit1_pool [OF assms(1-3) b] by blast
  have "\<exists>s3 ps3. kinit2 (P2V 0x400000) (P2V PHYSTOP) s2 = Ret s3 \<and> kpool s3 ps3 \<and>
         distinct (ps3 @ h) \<and> set (ps3 @ h) = {p. kpage s p} \<and> use_lock (kmem s3) = 1"
    if run: "pool_run kalloc kfree s1 [] s2 h" for s2 h
  proof -
    obtain ps2 where ps2: "kpool s2 ps2" "distinct (ps2 @ h)" "set (ps2 @ h) = set ps1" "kpage s2 = kpage s"
      using base_pages.conservation [OF run s1(2)] kpoolD(3) [OF s1(2)] unfolding s1(3) append_Nil2
      by (metis empty_iff list.set(1))
    have "kend s2 \<le> P2V 0x400000"
      using fun_cong [OF ps2(4), of "P2V 0x400000"] b by (simp add: kpage_iff word_le_nat_alt)
    moreover have "unat p < 0x80400000" if "p \<in> set ps2" for p
      using that ps2(3) s1(4) by auto
    ultimately obtain s3 qs where s3: "kinit2 (P2V 0x400000) (P2V PHYSTOP) s2 = Ret s3"
      "kpool s3 (rev qs @ ps2)" "use_lock (kmem s3) = 1" "set qs = {p. kpage s p \<and> 0x80400000 \<le> unat p}"
      using kinit2_pool [OF ps2(1)] ps2(4) by auto
    have "set (rev qs @ ps2 @ h) = {p. kpage s p}"
      using ps2(3) s1(4) s3(4) by auto
    moreover have "set qs \<inter> set (ps2 @ h) = {}" using ps2(3) s1(4) s3(4) by auto
    ultimately show ?thesis
      using s3(1-3) ps2(2) kpoolD(3) [OF s3(2)] by (intro exI [of _ s3] exI [of _ "rev qs @ ps2"]) auto
  qed
  with s1(1,2) show ?thesis by blast
qed

theorem kinit_frees_every_page_witness:
  "\<exists>s1 ps1. kinit1 0x80117000 (P2V 0x400000) machine0 = Ret s1 \<and> kpool s1 ps1 \<and>
    (\<exists>s3 ps3. kinit2 (P2V 0x400000) (P2V PHYSTOP) s1 = Ret s3 \<and> kpool s3 ps3 \<and>
       set ps3 = {p. kpage machine0 p})"
proof -
  have "can_push (this_cpu machine0)" "lock_free (hlock (khugemem machine0))" "P2V EXTMEM \<le> kend machine0"
    "kend machine0 < P2V 0x400000"
    by (simp_all, simp_all add: machine0_def lock_free_def P2V_def)
  from kinit_frees_every_page [OF this(1,2) _ this(3,4)] obtain s1 ps1 where
    s1: "kinit1 0x80117000 (P2V 0x400000) machine0 = Ret s1" "kpool s1 ps1"
    "\<And>s2 h. pool_run kalloc kfree s1 [] s2 h \<Longrightarrow>
      \<exists>s3 ps3. kinit2 (P2V 0x400000) (P2V PHYSTOP) s2 = Ret s3 \<and> kpool s3 ps3 \<and>
         distinct (ps3 @ h) \<and> set (ps3 @ h) = {p. kpage machine0 p} \<and> use_lock (kmem s3) = 1"
    by auto
  from s1(1,2) s1(3) [OF pool_run.start] show ?thesis by auto
qed

text \<open>
  Claim C19. Boot of the huge page allocator: called as in \<^verbatim>\<open>main\<close> on the region from
  \<^verbatim>\<open>HUGE_PAGE_START\<close> to \<^verbatim>\<open>HUGE_PAGE_END\<close>, \<open>khugeinit\<close> returns with exactly the 128 huge pages of the
  region free, its lock in use, and the 4 KB free list as it was.
\<close>

theorem khugeinit_frees_128_pages:
  assumes "kpool s ks" "freehugelist (khugemem s) = 0"
  shows "\<exists>s' ps. khugeinit (P2V HUGE_PAGE_START) (P2V HUGE_PAGE_END) s = Ret s' \<and> hpool s' ps \<and>
    set ps = {p. hpage p} \<and> length ps = 128 \<and> huse_lock (khugemem s') = 1 \<and> kpool s' ks"
proof -
  define s0 where "s0 = s\<lparr>khugemem := (khugemem s)\<lparr>hlock := initlock (hlock (khugemem s)) ''khugemem'',
    huse_lock := 0\<rparr>\<rparr>"
  have 0: "hpool s0 []" "kpool s0 ks"
    using assms by (simp_all add: s0_def hpool_def kpool_def locks_ok_def)
  have "\<exists>s' qs. freehugerange (P2V HUGE_PAGE_START) (P2V HUGE_PAGE_END) s0 = Ret s' \<and>
      hpool s' (rev qs @ []) \<and>
      set qs = {p. 4194304 dvd unat p \<and> P2V HUGE_PAGE_START \<le> p \<and>
        unat p + 4194304 \<le> unat (P2V HUGE_PAGE_END)} \<and>
      length qs = (unat (P2V HUGE_PAGE_END) - unat (HUGEPGROUNDUP (P2V HUGE_PAGE_START))) div 4194304"
    using 0(1) by (rule freehugerange_pool) simp_all
  then obtain s' qs where s': "freehugerange (P2V HUGE_PAGE_START) (P2V HUGE_PAGE_END) s0 = Ret s'"
    "hpool s' (rev qs)" "length qs = 128"
    "set qs = {p. 4194304 dvd unat p \<and> 0x9E000000 \<le> unat p \<and> unat p + 4194304 \<le> 0xBE000000}"
    by (auto simp: unat_HUGEPGROUNDUP word_le_nat_alt)
  have "unat p + 4194304 \<le> 0xBE000000 \<longleftrightarrow> unat p < 0xBE000000" if "4194304 dvd unat p" for p :: u32
    using that dvd_less_room [of 4194304 "unat p" "0xBE000000"] by auto
  then have "set qs = {p. hpage p}" unfolding s'(4) by (auto simp: hpage_iff)
  moreover have "hpool (s'\<lparr>khugemem := (khugemem s')\<lparr>huse_lock := 1\<rparr>\<rparr>) xs = hpool s' xs"
    "kpool (s'\<lparr>khugemem := (khugemem s')\<lparr>huse_lock := 1\<rparr>\<rparr>) xs = kpool s' xs" for xs
    by (simp_all add: hpool_def kpool_def locks_ok_def)
  moreover have "kpool s' ks" using freehugerange_kpool [OF 0(2) s'(1)] .
  ultimately show ?thesis
    using s'(1-3) by (intro exI [of _ "rev qs"] exI) (auto simp: khugeinit_def s0_def Let_def)
qed

theorem khugeinit_frees_128_pages_witness:
  "\<exists>s' ps. khugeinit (P2V HUGE_PAGE_START) (P2V HUGE_PAGE_END) machine0 = Ret s' \<and> hpool s' ps \<and>
    length ps = 128 \<and> 0xBDC00000 \<in> set ps \<and> kpool s' []"
proof -
  have "kpool machine0 []" by (simp add: kpool_def)
  from khugeinit_frees_128_pages [OF this] show ?thesis by (fastforce simp: hpage_iff)
qed

end
