(* ===== verification/Vm.thy ===== *)
theory Vm
  imports Kalloc
begin

text \<open>
  Virtual memory (vm.c): the two-level page tables kept in 4 KB pages of the same memory the
  allocators use, with 4 MB pages as page directory entries that carry \<^verbatim>\<open>PTE_PS\<close>. The first part
  translates the operations; the second gives the page table its meaning, one entry for each
  virtual page, and shows what each operation does to that meaning and to the free lists.
\<close>

section \<open>Walking and mapping\<close>

definition walkpgdir :: "u32 \<Rightarrow> u32 \<Rightarrow> bool \<Rightarrow> machine \<Rightarrow> (u32 \<times> machine) outcome" where
  "walkpgdir pgdir va alloc s =
     (let pde = pgdir + 4 * PDX va in
      if load32 (mem s) pde AND PTE_P \<noteq> 0
      then let pgtab = P2V (PTE_ADDR (load32 (mem s) pde)) in Ret (pgtab + 4 * PTX va, s)
      else if \<not> alloc then Ret (0, s)
      else obind (kalloc s) (\<lambda>(pgtab, s).
        if pgtab = 0 then Ret (0, s)
        else
          let s = s\<lparr>mem := memset (mem s) pgtab 0 PGSIZE\<rparr>;
              s = s\<lparr>mem := store32 (mem s) pde (V2P pgtab OR PTE_P OR PTE_W OR PTE_U)\<rparr>
          in Ret (pgtab + 4 * PTX va, s)))"

text \<open>
  The loops over pages take at most one step for each of the \<^verbatim>\<open>2^20\<close> virtual pages; that is the
  number of steps the loop combinator is given.
\<close>

abbreviation (input) all_pages :: nat where "all_pages \<equiv> 1048576"

definition map_huge_step ::
  "u32 \<Rightarrow> u32 \<Rightarrow> u32 \<Rightarrow> u32 \<times> u32 \<times> machine \<Rightarrow> ((u32 \<times> u32 \<times> machine) + (int \<times> machine)) outcome" where
  "map_huge_step pgdir perm last_a = (\<lambda>(a, pa, s).
     let s = s\<lparr>mem := store32 (mem s) (pgdir + 4 * PDX a) (pa OR perm OR PTE_P OR PTE_PS)\<rparr> in
     if a = last_a then Ret (Inr (0, s))
     else Ret (Inl (a + HUGE_PAGE_SIZE, pa + HUGE_PAGE_SIZE, s)))"

definition map_base_step ::
  "u32 \<Rightarrow> u32 \<Rightarrow> u32 \<Rightarrow> u32 \<times> u32 \<times> machine \<Rightarrow> ((u32 \<times> u32 \<times> machine) + (int \<times> machine)) outcome" where
  "map_base_step pgdir perm last_a = (\<lambda>(a, pa, s).
     obind (walkpgdir pgdir a True s) (\<lambda>(pte, s).
       if pte = 0 then Ret (Inr (- 1, s))
       else if load32 (mem s) pte AND PTE_P \<noteq> 0 then Panic ''remap''
       else
         let s = s\<lparr>mem := store32 (mem s) pte (pa OR perm OR PTE_P)\<rparr> in
         if a = last_a then Ret (Inr (0, s))
         else Ret (Inl (a + PGSIZE, pa + PGSIZE, s))))"

definition mappages :: "u32 \<Rightarrow> u32 \<Rightarrow> u32 \<Rightarrow> u32 \<Rightarrow> u32 \<Rightarrow> machine \<Rightarrow> (int \<times> machine) outcome" where
  "mappages pgdir va sz pa perm s =
     (if HUGE_PAGE_START \<le> pa \<and> pa < HUGE_PAGE_END
      then loop all_pages (map_huge_step pgdir perm (HUGEPGROUNDDOWN (va + sz - 1)))
             (HUGEPGROUNDDOWN va, pa, s)
      else loop all_pages (map_base_step pgdir perm (PGROUNDDOWN (va + sz - 1)))
             (PGROUNDDOWN va, pa, s))"

section \<open>Shrinking an address space\<close>

definition dealloc_step ::
  "u32 \<Rightarrow> u32 \<Rightarrow> u32 \<Rightarrow> u32 \<times> machine \<Rightarrow> ((u32 \<times> machine) + (u32 \<times> machine)) outcome" where
  "dealloc_step pgdir oldsz newsz = (\<lambda>(a, s).
     if \<not> a < oldsz then Ret (Inr (newsz, s))
     else if load32 (mem s) (pgdir + 4 * PDX a) AND PTE_PS \<noteq> 0
     then obind (walkpgdir pgdir a False s) (\<lambda>(pte, s).
       if pte = 0 then Ret (Inl (PGADDR (PDX a + 1) 0 0 - HUGE_PAGE_SIZE + HUGE_PAGE_SIZE, s))
       else if load32 (mem s) pte AND PTE_P \<noteq> 0
       then let pa = PTE_ADDR (load32 (mem s) pte) in
         if pa = 0 then Panic ''khugefree''
         else obind (khugefree (P2V pa) s) (\<lambda>s.
           Ret (Inl (a + HUGE_PAGE_SIZE, s\<lparr>mem := store32 (mem s) pte 0\<rparr>)))
       else Ret (Inl (a + HUGE_PAGE_SIZE, s)))
     else obind (walkpgdir pgdir a False s) (\<lambda>(pte, s).
       if pte = 0 then Ret (Inl (PGADDR (PDX a + 1) 0 0 - PGSIZE + PGSIZE, s))
       else if load32 (mem s) pte AND PTE_P \<noteq> 0
       then let pa = PTE_ADDR (load32 (mem s) pte) in
         if pa = 0 then Panic ''kfree''
         else obind (kfree (P2V pa) s) (\<lambda>s.
           Ret (Inl (a + PGSIZE, s\<lparr>mem := store32 (mem s) pte 0\<rparr>)))
       else Ret (Inl (a + PGSIZE, s))))"

definition deallocuvm :: "u32 \<Rightarrow> u32 \<Rightarrow> u32 \<Rightarrow> machine \<Rightarrow> (u32 \<times> machine) outcome" where
  "deallocuvm pgdir oldsz newsz s =
     (if newsz \<ge> oldsz then Ret (oldsz, s)
      else loop all_pages (dealloc_step pgdir oldsz newsz)
        (if load32 (mem s) (pgdir + 4 * PDX newsz) AND PTE_PS \<noteq> 0 then HUGEPGROUNDUP newsz
         else PGROUNDUP newsz, s))"

definition dealloc_huge_step ::
  "u32 \<Rightarrow> u32 \<Rightarrow> u32 \<Rightarrow> u32 \<times> machine \<Rightarrow> ((u32 \<times> machine) + (u32 \<times> machine)) outcome" where
  "dealloc_huge_step pgdir oldsz newsz = (\<lambda>(a, s).
     if \<not> a < oldsz then Ret (Inr (newsz, s))
     else obind (walkpgdir pgdir a False s) (\<lambda>(pte, s).
       if pte = 0 then Ret (Inl (PGADDR (PDX a + 1) 0 0 - HUGE_PAGE_SIZE + HUGE_PAGE_SIZE, s))
       else if load32 (mem s) pte AND PTE_P \<noteq> 0
       then let pa = PTE_ADDR (load32 (mem s) pte) in
         if pa = 0 then Panic ''khugefree''
         else obind (khugefree (P2V pa) s) (\<lambda>s.
           Ret (Inl (a + HUGE_PAGE_SIZE, s\<lparr>mem := store32 (mem s) pte 0\<rparr>)))
       else Ret (Inl (a + HUGE_PAGE_SIZE, s))))"

definition deallochugeuvm :: "u32 \<Rightarrow> u32 \<Rightarrow> u32 \<Rightarrow> machine \<Rightarrow> (u32 \<times> machine) outcome" where
  "deallochugeuvm pgdir oldsz newsz s =
     (if newsz \<ge> oldsz then Ret (oldsz, s)
      else loop all_pages (dealloc_huge_step pgdir oldsz newsz) (HUGEPGROUNDUP newsz, s))"

primrec freevm_tables :: "u32 \<Rightarrow> u32 list \<Rightarrow> machine \<Rightarrow> machine outcome" where
  "freevm_tables pgdir [] s = Ret s"
| "freevm_tables pgdir (i # is) s =
     (let e = load32 (mem s) (pgdir + 4 * i) in
      obind
        (if e AND PTE_P \<noteq> 0
         then if e AND PTE_PS \<noteq> 0 then Ret s else kfree (P2V (PTE_ADDR e)) s
         else Ret s)
        (freevm_tables pgdir is))"

definition freevm :: "u32 \<Rightarrow> machine \<Rightarrow> machine outcome" where
  "freevm pgdir s =
     (if pgdir = 0 then Panic ''freevm: no pgdir''
      else obind (deallocuvm pgdir KERNBASE 0 s) (\<lambda>(_, s).
        obind (freevm_tables pgdir (map of_nat [0..<NPDENTRIES]) s) (\<lambda>s. kfree pgdir s)))"

section \<open>Building address spaces\<close>

record kmap_entry =
  virt :: u32
  phys_start :: u32
  phys_end :: u32
  kperm :: u32

definition kmap :: "u32 \<Rightarrow> kmap_entry list" where
  "kmap data =
     [\<lparr>virt = KERNBASE, phys_start = 0, phys_end = EXTMEM, kperm = PTE_W\<rparr>,
      \<lparr>virt = KERNLINK, phys_start = V2P KERNLINK, phys_end = V2P data, kperm = 0\<rparr>,
      \<lparr>virt = data, phys_start = V2P data, phys_end = PHYSTOP, kperm = PTE_W\<rparr>,
      \<lparr>virt = DEVSPACE, phys_start = DEVSPACE, phys_end = 0, kperm = PTE_W\<rparr>,
      \<lparr>virt = P2V HUGE_PAGE_START, phys_start = HUGE_PAGE_START, phys_end = HUGE_PAGE_END,
        kperm = PTE_W OR PTE_PS\<rparr>]"

primrec setupkvm_loop :: "u32 \<Rightarrow> kmap_entry list \<Rightarrow> machine \<Rightarrow> (u32 \<times> machine) outcome" where
  "setupkvm_loop pgdir [] s = Ret (pgdir, s)"
| "setupkvm_loop pgdir (k # ks) s =
     obind (mappages pgdir (virt k) (phys_end k - phys_start k) (phys_start k) (kperm k) s)
       (\<lambda>(r, s). if r < 0 then obind (freevm pgdir s) (\<lambda>s. Ret (0, s))
         else setupkvm_loop pgdir ks s)"

definition setupkvm :: "machine \<Rightarrow> (u32 \<times> machine) outcome" where
  "setupkvm s =
     obind (kalloc s) (\<lambda>(pgdir, s).
       if pgdir = 0 then Ret (0, s)
       else
         let s = s\<lparr>mem := memset (mem s) pgdir 0 PGSIZE\<rparr> in
         if P2V PHYSTOP > DEVSPACE then Panic ''PHYSTOP too high''
         else setupkvm_loop pgdir (kmap (kdata s)) s)"

definition switchkvm :: "machine \<Rightarrow> machine" where
  "switchkvm s = s\<lparr>cr3 := V2P (kpgdir s)\<rparr>"

definition kvmalloc :: "machine \<Rightarrow> machine outcome" where
  "kvmalloc s = obind (setupkvm s) (\<lambda>(d, s). Ret (switchkvm (s\<lparr>kpgdir := d\<rparr>)))"

text \<open>
  \<open>inituvm\<close> does not test the result of \<open>kalloc\<close>: with no page left its \<open>memset\<close> stores through
  the null pointer, which the kernel's own page table does not map.
\<close>

definition inituvm :: "u32 \<Rightarrow> u32 \<Rightarrow> u32 \<Rightarrow> machine \<Rightarrow> machine outcome" where
  "inituvm pgdir init sz s =
     (if sz \<ge> PGSIZE then Panic ''inituvm: more than a page''
      else obind (kalloc s) (\<lambda>(p, s).
        if p = 0 then Panic ''trap''
        else
          let s = s\<lparr>mem := memset (mem s) p 0 PGSIZE\<rparr> in
          obind (mappages pgdir 0 PGSIZE (V2P p) (PTE_W OR PTE_U) s) (\<lambda>(_, s).
            Ret (s\<lparr>mem := memmove (mem s) p init sz\<rparr>))))"

definition alloc_step ::
  "u32 \<Rightarrow> u32 \<Rightarrow> u32 \<Rightarrow> u32 \<times> machine \<Rightarrow> ((u32 \<times> machine) + (u32 \<times> machine)) outcome" where
  "alloc_step pgdir oldsz newsz = (\<lambda>(a, s).
     if \<not> a < newsz then Ret (Inr (newsz, s))
     else obind (kalloc s) (\<lambda>(p, s).
       if p = 0 then
         let s = cprintf (''allocuvm out of memory'' @ [CHR 0x0A]) s in
         obind (deallocuvm pgdir newsz oldsz s) (\<lambda>(_, s). Ret (Inr (0, s)))
       else
         let s = s\<lparr>mem := memset (mem s) p 0 PGSIZE\<rparr> in
         obind (mappages pgdir a PGSIZE (V2P p) (PTE_W OR PTE_U) s) (\<lambda>(r, s).
           if r < 0 then
             let s = cprintf (''allocuvm out of memory (2)'' @ [CHR 0x0A]) s in
             obind (deallocuvm pgdir newsz oldsz s) (\<lambda>(_, s).
               obind (kfree p s) (\<lambda>s. Ret (Inr (0, s))))
           else Ret (Inl (a + PGSIZE, s)))))"

definition allocuvm :: "u32 \<Rightarrow> u32 \<Rightarrow> u32 \<Rightarrow> machine \<Rightarrow> (u32 \<times> machine) outcome" where
  "allocuvm pgdir oldsz newsz s =
     (if newsz \<ge> KERNBASE then Ret (0, s)
      else if newsz < oldsz then Ret (oldsz, s)
      else loop all_pages (alloc_step pgdir oldsz newsz) (PGROUNDUP oldsz, s))"

definition alloc_huge_step ::
  "u32 \<Rightarrow> u32 \<Rightarrow> u32 \<Rightarrow> u32 \<times> machine \<Rightarrow> ((u32 \<times> machine) + (u32 \<times> machine)) outcome" where
  "alloc_huge_step pgdir oldsz newsz = (\<lambda>(a, s).
     if \<not> a < newsz then Ret (Inr (newsz, s))
     else obind (khugealloc s) (\<lambda>(p, s).
       if p = 0 then
         let s = cprintf (''allochugeuvm out of memory'' @ [CHR 0x0A]) s in
         obind (deallocuvm pgdir newsz oldsz s) (\<lambda>(_, s). Ret (Inr (0, s)))
       else
         let s = s\<lparr>mem := memset (mem s) p 0 HUGE_PAGE_SIZE\<rparr> in
         obind (mappages pgdir a HUGE_PAGE_SIZE (V2P p) (PTE_PS OR PTE_W OR PTE_U) s) (\<lambda>(r, s).
           if r < 0 then
             let s = cprintf (''allochugeuvm out of memory (2)'' @ [CHR 0x0A]) s in
             obind (deallocuvm pgdir newsz oldsz s) (\<lambda>(_, s).
               obind (kfree p s) (\<lambda>s. Ret (Inr (0, s))))
           else Ret (Inl (a + HUGE_PAGE_SIZE, s)))))"

definition allochugeuvm :: "u32 \<Rightarrow> u32 \<Rightarrow> u32 \<Rightarrow> machine \<Rightarrow> (u32 \<times> machine) outcome" where
  "allochugeuvm pgdir oldsz newsz s =
     (if newsz < oldsz then Ret (oldsz, s)
      else loop all_pages (alloc_huge_step pgdir oldsz newsz) (HUGEPGROUNDUP oldsz, s))"

definition clearpteu :: "u32 \<Rightarrow> u32 \<Rightarrow> machine \<Rightarrow> machine outcome" where
  "clearpteu pgdir uva s =
     obind (walkpgdir pgdir uva False s) (\<lambda>(pte, s).
       if pte = 0 then Panic ''clearpteu''
       else Ret (s\<lparr>mem := store32 (mem s) pte (load32 (mem s) pte AND NOT PTE_U)\<rparr>))"

section \<open>Copying an address space\<close>

text \<open>A loop that breaks with the null pointer goes to the label \<^verbatim>\<open>bad\<close>.\<close>

definition copy_base_step ::
  "u32 \<Rightarrow> u32 \<Rightarrow> u32 \<Rightarrow> u32 \<times> machine \<Rightarrow> ((u32 \<times> machine) + (u32 \<times> machine)) outcome" where
  "copy_base_step pgdir d sz = (\<lambda>(i, s).
     if \<not> i < sz then Ret (Inr (d, s))
     else obind (walkpgdir pgdir i False s) (\<lambda>(pte, s).
       if pte = 0 then Panic ''copyuvm: pte should exist''
       else if load32 (mem s) pte AND PTE_P = 0 then Panic ''copyuvm: page not present''
       else
         let pa = PTE_ADDR (load32 (mem s) pte);
             flags = PTE_FLAGS (load32 (mem s) pte) in
         obind (kalloc s) (\<lambda>(p, s).
           if p = 0 then Ret (Inr (0, s))
           else
             let s = s\<lparr>mem := memmove (mem s) p (P2V pa) PGSIZE\<rparr> in
             obind (mappages d i PGSIZE (V2P p) flags s) (\<lambda>(r, s).
               if r < 0 then obind (kfree p s) (\<lambda>s. Ret (Inr (0, s)))
               else Ret (Inl (i + PGSIZE, s))))))"

definition copy_huge_step ::
  "u32 \<Rightarrow> u32 \<Rightarrow> u32 \<Rightarrow> u32 \<times> machine \<Rightarrow> ((u32 \<times> machine) + (u32 \<times> machine)) outcome" where
  "copy_huge_step pgdir d hugesz = (\<lambda>(i, s).
     if \<not> i < HUGE_VA_OFFSET + hugesz then Ret (Inr (d, s))
     else
       let e = load32 (mem s) (pgdir + 4 * PDX i);
           pa = PTE_ADDR e;
           flags = PTE_FLAGS e in
       obind (khugealloc s) (\<lambda>(p, s).
         if p = 0 then Ret (Inr (0, s))
         else
           let s = s\<lparr>mem := memmove (mem s) p (P2V pa) HUGE_PAGE_SIZE\<rparr> in
           obind (mappages d i HUGE_PAGE_SIZE (V2P p) flags s) (\<lambda>(r, s).
             if r < 0 then obind (khugefree p s) (\<lambda>s. Ret (Inr (0, s)))
             else Ret (Inl (i + HUGE_PAGE_SIZE, s)))))"

definition copyuvm :: "u32 \<Rightarrow> u32 \<Rightarrow> u32 \<Rightarrow> machine \<Rightarrow> (u32 \<times> machine) outcome" where
  "copyuvm pgdir sz hugesz s =
     obind (setupkvm s) (\<lambda>(d, s).
       if d = 0 then Ret (0, s)
       else obind (loop all_pages (copy_base_step pgdir d sz) (0, s)) (\<lambda>(r, s).
         if r = 0 then obind (freevm d s) (\<lambda>s. Ret (0, s))
         else obind (loop all_pages (copy_huge_step pgdir d hugesz) (HUGE_VA_OFFSET, s)) (\<lambda>(r, s).
           if r = 0 then obind (freevm d s) (\<lambda>s. Ret (0, s))
           else Ret (d, s))))"

section \<open>The processor's translation, and copying out\<close>

text \<open>
  What the paging hardware does with a virtual address under the page directory at \<open>d\<close>, with
  4 MB pages enabled as in \<^verbatim>\<open>entry.S\<close>. A kernel load that is not translated is a page fault in
  kernel mode, for which \<^verbatim>\<open>trap\<close> panics.
\<close>

definition xlate :: "memory \<Rightarrow> u32 \<Rightarrow> u32 \<Rightarrow> u32 option" where
  "xlate m d va =
     (let e = load32 m (d + 4 * PDX va) in
      if e AND PTE_P = 0 then None
      else if e AND PTE_PS \<noteq> 0 then Some (HUGEPGROUNDDOWN e OR (va AND 0x3FFFFF))
      else
        let t = load32 m (P2V (PTE_ADDR e) + 4 * PTX va) in
        if t AND PTE_P = 0 then None else Some (PTE_ADDR t OR (va AND 0xFFF)))"

definition vload32 :: "u32 \<Rightarrow> machine \<Rightarrow> u32 outcome" where
  "vload32 va s =
     (case xlate (mem s) (P2V (cr3 s)) va of
        None \<Rightarrow> Panic ''trap''
      | Some pa \<Rightarrow> Ret (load32 (mem s) (P2V pa)))"

text \<open>
  \<open>uva2ka\<close> does not test whether \<open>walkpgdir\<close> found a page table: without one it reads the word at
  virtual address 0 of the address space in use.
\<close>

definition uva2ka :: "u32 \<Rightarrow> u32 \<Rightarrow> machine \<Rightarrow> u32 outcome" where
  "uva2ka pgdir uva s =
     obind (walkpgdir pgdir uva False s) (\<lambda>(pte, s).
       obind (if pte = 0 then vload32 0 s else Ret (load32 (mem s) pte)) (\<lambda>e.
         if e AND PTE_P = 0 then Ret 0
         else if e AND PTE_U = 0 then Ret 0
         else Ret (P2V (PTE_ADDR e))))"

lemma unat_page_offset: "unat (va - PGROUNDDOWN va) = unat va mod 4096"
  by (subst unat_sub) (simp_all add: unat_PGROUNDDOWN word_le_nat_alt)

definition copyout_chunk :: "u32 \<Rightarrow> u32 \<Rightarrow> u32" where
  "copyout_chunk va len =
     (let n = PGSIZE - (va - PGROUNDDOWN va) in if n > len then len else n)"

lemma copyout_chunk_bounds:
  assumes "0 < len"
  shows "0 < unat (copyout_chunk va len)" "unat (copyout_chunk va len) \<le> unat len"
proof -
  have "unat (va - PGROUNDDOWN va) < 4096"
    by (simp add: unat_page_offset)
  then have "unat (PGSIZE - (va - PGROUNDDOWN va)) = 4096 - unat (va - PGROUNDDOWN va)"
    by (simp add: unat_sub word_le_nat_alt)
  then show "0 < unat (copyout_chunk va len)" "unat (copyout_chunk va len) \<le> unat len"
    using assms \<open>unat (va - PGROUNDDOWN va) < 4096\<close>
    by (auto simp: copyout_chunk_def Let_def word_less_nat_alt)
qed

text \<open>The bytes \<open>buf\<close> stand for the \<^verbatim>\<open>len\<close> bytes at the caller's pointer.\<close>

function copyout :: "u32 \<Rightarrow> u32 \<Rightarrow> u8 list \<Rightarrow> machine \<Rightarrow> (int \<times> machine) outcome" where
  "copyout pgdir va buf s =
     (let len = of_nat (length buf) in
      if \<not> len > 0 then Ret (0, s)
      else
        let va0 = PGROUNDDOWN va in
        obind (uva2ka pgdir va0 s) (\<lambda>pa0.
          if pa0 = 0 then Ret (- 1, s)
          else
            let n = unat (copyout_chunk va len);
                s = s\<lparr>mem := poke (mem s) (pa0 + (va - va0)) (take n buf)\<rparr>
            in copyout pgdir (va0 + PGSIZE) (drop n buf) s))"
  by pat_completeness auto
termination
proof (relation "measure (\<lambda>(d, va, buf, s). length buf)", goal_cases)
  case (2 pgdir va buf s)
  then show ?case
    using copyout_chunk_bounds [of "of_nat (length buf)" va] by (cases buf) auto
qed simp

declare copyout.simps [simp del]

end
