(* ===== verification/Vm_Space.thy ===== *)
theory Vm_Space
  imports Vm
begin

text \<open>
  The meaning of a page table in memory: one 32-bit entry for each virtual page, the abstract
  address space. The page directory and its page tables are kernel pages, all different and
  none of them free; under that invariant writing an entry is a function update of the abstract
  address space, and \<open>walkpgdir\<close>, which may take a page for a new table, does not change it.
\<close>

section \<open>Words of kernel pages\<close>

lemma unat_slot:
  assumes "kpage s p" "unat i < 1024"
  shows "unat (p + 4 * i) = unat p + 4 * unat i"
proof -
  have i: "unat (4 * i) = 4 * unat i"
    using assms(2) by (subst unat_mult_lem [THEN iffD1]) auto
  then show ?thesis using assms by (subst unat_add_no_wrap) (auto simp: kpage_iff)
qed

lemma slot_offset:
  assumes "unat i < 1024"
  shows "unat (p + 4 * i - p) = 4 * unat (i :: u32)" "unat (4 * i) = 4 * unat i"
proof -
  show "unat (4 * i) = 4 * unat i"
    using assms by (subst unat_mult_lem [THEN iffD1]) auto
  then show "unat (p + 4 * i - p) = 4 * unat i" by simp
qed

lemma slot_dvd_4 [simp]: "kpage s p \<Longrightarrow> unat i < 1024 \<Longrightarrow> 4 dvd unat (p + 4 * i)"
  by (simp add: unat_slot)

lemma slot_eq_iff:
  assumes "kpage s p" "kpage s q" "unat i < 1024" "unat j < 1024"
  shows "p + 4 * i = q + 4 * j \<longleftrightarrow> p = q \<and> i = j"
proof
  assume eq: "p + 4 * i = q + 4 * j"
  have "p = q"
  proof (rule ccontr)
    assume "p \<noteq> q"
    with kpage_apart [OF assms(1,2), of "p + 4 * i"] slot_offset(1) [OF assms(3), of p]
      slot_offset(1) [OF assms(4), of q] assms(3,4) eq
    show False by simp
  qed
  with eq have "unat (4 * i) = unat (4 * j)" by simp
  then have "unat i = unat j" using slot_offset(2) [OF assms(3)] slot_offset(2) [OF assms(4)] by simp
  with \<open>p = q\<close> show "p = q \<and> i = j" by (simp add: word_unat_eq_iff)
qed simp

lemma load32_slot_store:
  assumes "kpage s p" "kpage s q" "unat i < 1024" "unat j < 1024"
  shows "load32 (store32 m (p + 4 * i) w) (q + 4 * j) =
    (if p = q \<and> i = j then w else load32 m (q + 4 * j))"
proof -
  have "load32 (store32 m (p + 4 * i) w) (q + 4 * j) =
      (if q + 4 * j = p + 4 * i then w else load32 m (q + 4 * j))"
    using slot_dvd_4 [OF assms(1,3)] slot_dvd_4 [OF assms(2,4)] by (subst load32_store32) auto
  then show ?thesis using slot_eq_iff [OF assms] by metis
qed

section \<open>Memory unchanged outside some pages\<close>

definition same_outside :: "u32 set \<Rightarrow> memory \<Rightarrow> memory \<Rightarrow> bool" where
  "same_outside U m m' \<longleftrightarrow> (\<forall>x. (\<forall>p \<in> U. 4096 \<le> unat (x - p)) \<longrightarrow> m' x = m x)"

lemma same_outside_refl [simp]: "same_outside U m m"
  by (simp add: same_outside_def)

lemma same_outside_trans:
  "same_outside U m m' \<Longrightarrow> same_outside V m' m'' \<Longrightarrow> U \<union> V \<subseteq> W \<Longrightarrow> same_outside W m m''"
  by (auto simp: same_outside_def subset_iff)

lemma same_outside_mono: "same_outside U m m' \<Longrightarrow> U \<subseteq> V \<Longrightarrow> same_outside V m m'"
  by (auto simp: same_outside_def subset_iff)

lemma same_outside_store:
  assumes "unat i < 1024"
  shows "same_outside {p} m (store32 m (p + 4 * i) w)"
  unfolding same_outside_def
proof clarsimp
  fix x assume "4096 \<le> unat (x - p)"
  then have "4 * i \<le> x - p" using assms by (simp add: word_le_nat_alt slot_offset)
  then have "unat ((x - p) - 4 * i) = unat (x - p) - 4 * unat i"
    using assms by (simp only: unat_sub slot_offset(2))
  then have "4 \<le> unat (x - (p + 4 * i))" using assms \<open>4096 \<le> unat (x - p)\<close> by (simp add: diff_diff_add)
  then show "store32 m (p + 4 * i) w x = m x" by (simp add: store32_outside)
qed

lemma same_outside_memset: "same_outside {p} m (memset m p c PGSIZE)"
  by (simp add: same_outside_def memset_eq)

lemma load32_same_outside:
  assumes "same_outside U m m'" "\<And>p. p \<in> U \<Longrightarrow> kpage s p" "kpage s q" "q \<notin> U" "unat j < 1024"
  shows "load32 m' (q + 4 * j) = load32 m (q + 4 * j)"
proof (rule load32_cong)
  fix k :: nat assume k: "k < 4"
  have "q + 4 * j + word_of_nat k - q = 4 * j + word_of_nat k" by simp
  moreover have "unat (4 * j + word_of_nat k :: u32) = 4 * unat j + k"
    using assms(5) k by (subst unat_add_no_wrap) (auto simp: slot_offset add_word_of_nat)
  ultimately have "unat (q + 4 * j + word_of_nat k - q) < 4096" using assms(5) k by simp
  then have "4096 \<le> unat (q + 4 * j + word_of_nat k - p)" if "p \<in> U" for p
    using kpage_apart [OF assms(3) assms(2) [OF that]] that assms(4) by blast
  then show "m' (q + 4 * j + word_of_nat k) = m (q + 4 * j + word_of_nat k)"
    using assms(1) by (simp add: same_outside_def)
qed

lemma run_list_same_outside:
  assumes "same_outside U m m'" "\<And>p. p \<in> U \<Longrightarrow> kpage s p" "\<And>q. q \<in> set ps \<Longrightarrow> kpage s q \<and> q \<notin> U"
  shows "run_list m' p ps = run_list m p ps"
  using load32_same_outside [OF assms(1,2), where j = 0] assms(3) by (intro run_list_cong) auto

lemma kpool_same_outside:
  assumes "kpool s ps" "same_outside U (mem s) m'" "\<And>p. p \<in> U \<Longrightarrow> kpage s p" "U \<inter> set ps = {}"
  shows "kpool (s\<lparr>mem := m'\<rparr>) ps"
  using assms run_list_same_outside [OF assms(2,3), of ps "freelist (kmem s)"]
  by (auto simp: kpool_def)

lemma hpage_same_outside:
  assumes "same_outside U m m'" "\<And>p. p \<in> U \<Longrightarrow> kpage s p" "hpage q" "unat (x - q) < 4194304"
  shows "m' x = m x"
  using assms kpage_hpage_apart(2) [of s _ q x] by (auto simp: same_outside_def)

lemma hpool_same_outside:
  assumes "hpool s hs" "same_outside U (mem s) m'" "\<And>p. p \<in> U \<Longrightarrow> kpage s p"
  shows "hpool (s\<lparr>mem := m'\<rparr>) hs"
proof -
  have "load32 m' q = load32 (mem s) q" if "q \<in> set hs" for q
  proof (rule load32_cong)
    fix k :: nat assume "k < 4"
    then show "m' (q + word_of_nat k) = mem s (q + word_of_nat k)"
      using hpoolD(4) [OF assms(1) that]
      by (intro hpage_same_outside [OF assms(2,3)]) (auto simp: add_word_of_nat)
  qed
  then show ?thesis
    using assms(1) run_list_cong [of hs m' "mem s"] by (simp add: hpool_def)
qed

section \<open>The abstract address space\<close>

text \<open>
  \<open>tab m d i\<close> is the page table that entry \<open>i\<close> of the page directory at \<open>d\<close> points to; \<open>entry m d va\<close>
  is the entry that governs the address \<open>va\<close>: the page table entry, the page directory entry itself
  for a 4 MB page, and 0 where there is no page table.
\<close>

definition tab :: "memory \<Rightarrow> u32 \<Rightarrow> u32 \<Rightarrow> u32 option" where
  "tab m d i =
     (let e = load32 m (d + 4 * i) in
      if e AND PTE_P \<noteq> 0 \<and> e AND PTE_PS = 0 then Some (P2V (PTE_ADDR e)) else None)"

definition huge :: "memory \<Rightarrow> u32 \<Rightarrow> u32 \<Rightarrow> bool" where
  "huge m d i \<longleftrightarrow>
     load32 m (d + 4 * i) AND PTE_P \<noteq> 0 \<and> load32 m (d + 4 * i) AND PTE_PS \<noteq> 0"

definition entry :: "memory \<Rightarrow> u32 \<Rightarrow> u32 \<Rightarrow> u32" where
  "entry m d va =
     (if huge m d (PDX va) then load32 m (d + 4 * PDX va)
      else case tab m d (PDX va) of None \<Rightarrow> 0 | Some t \<Rightarrow> load32 m (t + 4 * PTX va))"

definition aspace :: "machine \<Rightarrow> u32 \<Rightarrow> u32 list \<Rightarrow> bool" where
  "aspace s d ps \<longleftrightarrow>
     kpool s ps \<and> kpage s d \<and> d \<notin> set ps \<and>
     (\<forall>i t. unat i < 1024 \<longrightarrow> tab (mem s) d i = Some t \<longrightarrow> kpage s t \<and> t \<noteq> d \<and> t \<notin> set ps) \<and>
     (\<forall>i j t. unat i < 1024 \<longrightarrow> unat j < 1024 \<longrightarrow> tab (mem s) d i = Some t \<longrightarrow>
        tab (mem s) d j = Some t \<longrightarrow> i = j) \<and>
     (\<forall>i. unat i < 1024 \<longrightarrow> load32 (mem s) (d + 4 * i) AND PTE_P = 0 \<longrightarrow> load32 (mem s) (d + 4 * i) = 0)"

definition tabs :: "memory \<Rightarrow> u32 \<Rightarrow> u32 set" where
  "tabs m d = {t. \<exists>i. unat i < 1024 \<and> tab m d i = Some t}"

lemma tabsI: "tab m d i = Some t \<Longrightarrow> unat i < 1024 \<Longrightarrow> t \<in> tabs m d"
  by (auto simp: tabs_def)

lemma tabsE:
  assumes "t \<in> tabs m d"
  obtains i where "unat i < 1024" "tab m d i = Some t"
  using assms by (auto simp: tabs_def)

lemma tabs_update:
  assumes "\<And>j. unat j < 1024 \<Longrightarrow> tab m' d j = (if j = i then Some p else tab m d j)"
    and "unat i < 1024" "tab m d i = None"
  shows "tabs m' d = insert p (tabs m d)"
proof (intro set_eqI iffI)
  fix t assume "t \<in> tabs m' d"
  then show "t \<in> insert p (tabs m d)"
    by (elim tabsE) (auto simp: assms(1) intro: tabsI split: if_splits)
next
  fix t assume "t \<in> insert p (tabs m d)"
  then consider "t = p" | j where "unat j < 1024" "tab m d j = Some t" by (auto elim: tabsE)
  then show "t \<in> tabs m' d"
  proof cases
    case 1
    then show ?thesis using assms(1,2) by (intro tabsI [of _ _ i]) auto
  next
    case (2 j)
    then show ?thesis using assms by (intro tabsI [of _ _ j]) auto
  qed
qed

lemma aspaceD:
  assumes "aspace s d ps"
  shows "kpool s ps" "kpage s d" "d \<notin> set ps"
    "tab (mem s) d i = Some t \<Longrightarrow> unat i < 1024 \<Longrightarrow> kpage s t"
    "tab (mem s) d i = Some t \<Longrightarrow> unat i < 1024 \<Longrightarrow> t \<noteq> d"
    "tab (mem s) d i = Some t \<Longrightarrow> unat i < 1024 \<Longrightarrow> t \<notin> set ps"
    "tab (mem s) d i = Some t \<Longrightarrow> tab (mem s) d j = Some t \<Longrightarrow> unat i < 1024 \<Longrightarrow> unat j < 1024 \<Longrightarrow> i = j"
    "load32 (mem s) (d + 4 * i) AND PTE_P = 0 \<Longrightarrow> unat i < 1024 \<Longrightarrow> load32 (mem s) (d + 4 * i) = 0"
  using assms unfolding aspace_def by blast+

lemma aspaceI:
  assumes "kpool s ps" "kpage s d" "d \<notin> set ps"
    and "\<And>i t. tab (mem s) d i = Some t \<Longrightarrow> unat i < 1024 \<Longrightarrow> kpage s t \<and> t \<noteq> d \<and> t \<notin> set ps"
    and "\<And>i j t. tab (mem s) d i = Some t \<Longrightarrow> tab (mem s) d j = Some t \<Longrightarrow> unat i < 1024 \<Longrightarrow>
      unat j < 1024 \<Longrightarrow> i = j"
    and "\<And>i. load32 (mem s) (d + 4 * i) AND PTE_P = 0 \<Longrightarrow> unat i < 1024 \<Longrightarrow> load32 (mem s) (d + 4 * i) = 0"
  shows "aspace s d ps"
proof -
  have "\<forall>i t. unat i < 1024 \<longrightarrow> tab (mem s) d i = Some t \<longrightarrow> kpage s t \<and> t \<noteq> d \<and> t \<notin> set ps"
    using assms(4) by blast
  moreover have "\<forall>i j t. unat i < 1024 \<longrightarrow> unat j < 1024 \<longrightarrow> tab (mem s) d i = Some t \<longrightarrow>
      tab (mem s) d j = Some t \<longrightarrow> i = j"
    using assms(5) by blast
  moreover have "\<forall>i. unat i < 1024 \<longrightarrow> load32 (mem s) (d + 4 * i) AND PTE_P = 0 \<longrightarrow>
      load32 (mem s) (d + 4 * i) = 0"
    using assms(6) by blast
  ultimately show ?thesis unfolding aspace_def using assms(1-3) by (intro conjI)
qed

text \<open>Two addresses lie on one page when both their indices agree.\<close>

lemma two_digits: "p < 1024 \<Longrightarrow> q < 1024 \<Longrightarrow> x * 1024 + p = y * 1024 + q \<longleftrightarrow> x = y \<and> p = (q :: nat)"
proof
  assume p: "p < 1024" "q < 1024" and eq: "x * 1024 + p = y * 1024 + q"
  have "(x * 1024 + p) div 1024 = x" "(y * 1024 + q) div 1024 = y" using p by simp_all
  with eq show "x = y \<and> p = q" by simp
qed simp

lemma page_eq_iff: "PGROUNDDOWN a = PGROUNDDOWN b \<longleftrightarrow> PDX a = PDX b \<and> PTX a = PTX b"
proof -
  have *: "unat x div 4096 = unat (PDX x) * 1024 + unat (PTX x)" for x
    using div_mult2_eq [of "unat x" 4096 1024] by (simp add: unat_PDX unat_PTX div_mult_mod_eq)
  have "PGROUNDDOWN a = PGROUNDDOWN b \<longleftrightarrow> unat a div 4096 = unat b div 4096"
    by (auto simp: word_unat_eq_iff unat_PGROUNDDOWN minus_mod_eq_div_mult)
  also have "\<dots> \<longleftrightarrow> unat (PDX a) = unat (PDX b) \<and> unat (PTX a) = unat (PTX b)"
    unfolding * by (rule two_digits) (rule PTX_less)+
  finally show ?thesis by (simp add: word_unat_eq_iff)
qed

lemma huge_table_excl: "tab m d i = Some t \<Longrightarrow> \<not> huge m d i"
  by (auto simp: tab_def huge_def Let_def split: if_splits)

text \<open>Outside the pages of an address space nothing matters to it.\<close>

lemma aspace_change:
  assumes "aspace s d ps" "same_outside U (mem s) (mem s')" "\<forall>p \<in> U. kpage s p"
    and "kpage s' = kpage s" "d \<notin> U" "U \<inter> tabs (mem s) d = {}"
    and "kpool s' ps'" "d \<notin> set ps'" "set ps' \<inter> tabs (mem s) d = {}"
  shows "aspace s' d ps'" "entry (mem s') d = entry (mem s) d" "tabs (mem s') d = tabs (mem s) d"
    "unat i < 1024 \<Longrightarrow> tab (mem s') d i = tab (mem s) d i"
    "unat i < 1024 \<Longrightarrow> huge (mem s') d i = huge (mem s) d i"
proof -
  have dir: "load32 (mem s') (d + 4 * i) = load32 (mem s) (d + 4 * i)" if "unat i < 1024" for i
    using load32_same_outside [OF assms(2) bspec [OF assms(3)] aspaceD(2) [OF assms(1)] assms(5) that] .
  then have tab: "tab (mem s') d i = tab (mem s) d i" and huge: "huge (mem s') d i = huge (mem s) d i"
    if "unat i < 1024" for i using that by (simp_all add: tab_def huge_def)
  then show "unat i < 1024 \<Longrightarrow> tab (mem s') d i = tab (mem s) d i"
    "unat i < 1024 \<Longrightarrow> huge (mem s') d i = huge (mem s) d i" by blast+
  show "tabs (mem s') d = tabs (mem s) d" using tab by (auto simp: tabs_def)
  show "aspace s' d ps'"
  proof (rule aspaceI [OF assms(7) _ assms(8)])
    show "kpage s' d" using aspaceD(2) [OF assms(1)] assms(4) by simp
    fix i t assume i: "tab (mem s') d i = Some t" "unat i < 1024"
    then have t: "tab (mem s) d i = Some t" using tab by simp
    then show "kpage s' t \<and> t \<noteq> d \<and> t \<notin> set ps'"
      using aspaceD(4,5) [OF assms(1) t i(2)] tabsI [OF t i(2)] assms(4,9) by auto
  next
    fix i j t assume "tab (mem s') d i = Some t" "tab (mem s') d j = Some t" "unat i < 1024" "unat j < 1024"
    then show "i = j" using aspaceD(7) [OF assms(1), of i t j] by (simp add: tab)
  next
    fix i assume "load32 (mem s') (d + 4 * i) AND PTE_P = 0" "unat i < 1024"
    then show "load32 (mem s') (d + 4 * i) = 0" using aspaceD(8) [OF assms(1), of i] by (simp add: dir)
  qed
  have "load32 (mem s') (t + 4 * j) = load32 (mem s) (t + 4 * j)"
    if "tab (mem s) d i = Some t" "unat i < 1024" "unat j < 1024" for i j t
    using load32_same_outside [OF assms(2) bspec [OF assms(3)] aspaceD(4) [OF assms(1) that(1,2)] _ that(3)]
      assms(6) tabsI [OF that(1,2)] by auto
  then show "entry (mem s') d = entry (mem s) d"
    by (auto simp: fun_eq_iff entry_def tab huge dir split: option.split)
qed

section \<open>Writing entries\<close>

lemma aspace_store_pte:
  assumes "aspace s d ps" "tab (mem s) d (PDX va) = Some t"
    and m'_def: "m' = store32 (mem s) (t + 4 * PTX va) w"
  shows "aspace (s\<lparr>mem := m'\<rparr>) d ps"
    "entry m' d x = (if PGROUNDDOWN x = PGROUNDDOWN va then w else entry (mem s) d x)"
    "unat i < 1024 \<Longrightarrow> tab m' d i = tab (mem s) d i"
    "unat i < 1024 \<Longrightarrow> huge m' d i = huge (mem s) d i"
    "same_outside {t} (mem s) m'"
proof -
  have t: "kpage s t" "t \<noteq> d" "t \<notin> set ps" using aspaceD(4-6) [OF assms(1,2)] by auto
  have d: "kpage s d" using aspaceD(2) [OF assms(1)] .
  show out: "same_outside {t} (mem s) m'"
    unfolding m'_def by (rule same_outside_store) simp
  have dir: "load32 m' (d + 4 * i) = load32 (mem s) (d + 4 * i)" if "unat i < 1024" for i
    unfolding m'_def using t d that by (subst load32_slot_store [of s]) auto
  show tab: "tab m' d i = tab (mem s) d i" if "unat i < 1024" for i
    using dir [OF that] by (simp add: tab_def)
  show huge: "huge m' d i = huge (mem s) d i" if "unat i < 1024" for i
    using dir [OF that] by (simp add: huge_def)
  have "kpool (s\<lparr>mem := m'\<rparr>) ps"
    using t by (intro kpool_same_outside [OF aspaceD(1) [OF assms(1)] out]) auto
  then show "aspace (s\<lparr>mem := m'\<rparr>) d ps"
    using assms(1) by (auto simp: aspace_def tab dir)
  show "entry m' d x = (if PGROUNDDOWN x = PGROUNDDOWN va then w else entry (mem s) d x)"
  proof (cases "tab (mem s) d (PDX x)")
    case None
    then have "PDX x \<noteq> PDX va" using assms(2) by auto
    with None show ?thesis by (simp add: entry_def tab huge dir page_eq_iff)
  next
    case (Some t')
    have t': "kpage s t'" "\<not> huge (mem s) d (PDX x)"
      using aspaceD(4) [OF assms(1) Some] huge_table_excl [OF Some] by simp_all
    have eq: "t = t' \<longleftrightarrow> PDX x = PDX va"
    proof
      assume "t = t'"
      with Some assms(2) show "PDX x = PDX va"
        using aspaceD(7) [OF assms(1), of "PDX x" t "PDX va"] by simp
    qed (use Some assms(2) in simp)
    have "entry m' d x = load32 m' (t' + 4 * PTX x)"
      by (simp add: entry_def tab huge Some t')
    also have "\<dots> = (if t = t' \<and> PTX va = PTX x then w else load32 (mem s) (t' + 4 * PTX x))"
      unfolding m'_def using t(1) t'(1) by (rule load32_slot_store) simp_all
    also have "load32 (mem s) (t' + 4 * PTX x) = entry (mem s) d x"
      by (simp add: entry_def Some t')
    finally show ?thesis unfolding page_eq_iff eq by (simp add: eq_commute)
  qed
qed

lemma aspace_new_table:
  assumes "aspace s d ps" "load32 (mem s) (d + 4 * i) AND PTE_P = 0" "unat i < 1024"
    and p: "kpage s p" "p \<noteq> d" "p \<notin> set ps" "p \<notin> tabs (mem s) d"
    and m'_def: "m' = store32 (memset (mem s) p 0 PGSIZE) (d + 4 * i) (V2P p OR PTE_P OR PTE_W OR PTE_U)"
  shows "aspace (s\<lparr>mem := m'\<rparr>) d ps"
    "entry m' d = entry (mem s) d"
    "unat j < 1024 \<Longrightarrow> tab m' d j = (if j = i then Some p else tab (mem s) d j)"
    "unat j < 1024 \<Longrightarrow> huge m' d j = huge (mem s) d j"
    "same_outside {p, d} (mem s) m'"
proof -
  have d: "kpage s d" using aspaceD(2) [OF assms(1)] .
  have dvd: "4096 dvd unat (V2P p)"
    using p(1) by (auto simp: kpage_iff V2P_def unat_sub word_le_nat_alt dvd_diff_nat)
  have e: "PTE_ADDR (V2P p OR 7) = V2P p" "(V2P p OR 7) AND PTE_P \<noteq> 0" "(V2P p OR 7) AND PTE_PS = 0"
    using flag_tests [OF dvd, of 7] dvd by (simp_all add: PTE_ADDR_or)
  show out: "same_outside {p, d} (mem s) m'"
    unfolding m'_def using same_outside_memset same_outside_store [OF assms(3)]
    by (rule same_outside_trans) auto
  have page: "load32 m' (q + 4 * j) = (if q = p then 0 else load32 (mem s) (q + 4 * j))"
    if "kpage s q" "unat j < 1024" "q \<noteq> d \<or> j \<noteq> i" for q j
  proof -
    have "load32 m' (q + 4 * j) = load32 (memset (mem s) p 0 PGSIZE) (q + 4 * j)"
      unfolding m'_def using d that assms(3) by (subst load32_slot_store [of s]) auto
    moreover have "unat (q + 4 * j - p) < 4096 \<longleftrightarrow> q = p"
    proof
      assume "unat (q + 4 * j - p) < 4096"
      then show "q = p"
        using kpage_apart [OF that(1) p(1), of "q + 4 * j"] slot_offset(1) [OF that(2), of q] that(2)
        by fastforce
    next
      assume "q = p"
      then show "unat (q + 4 * j - p) < 4096" using slot_offset(1) [OF that(2), of q] that(2) by simp
    qed
    ultimately show ?thesis
      using slot_dvd_4 [OF that(1,2)] p(1) by (auto simp: load32_memset fill32_simps)
  qed
  have new: "load32 m' (d + 4 * i) = V2P p OR 7" unfolding m'_def by simp
  show tab: "tab m' d j = (if j = i then Some p else tab (mem s) d j)" if "unat j < 1024" for j
    using that page [OF d, of j] p(2) e new by (cases "j = i") (simp_all add: tab_def P2V_V2P)
  show huge: "huge m' d j = huge (mem s) d j" if "unat j < 1024" for j
    using that page [OF d, of j] p(2) e new assms(2) by (cases "j = i") (simp_all add: huge_def)
  have "kpool (s\<lparr>mem := m'\<rparr>) ps"
    using p d aspaceD(3) [OF assms(1)]
    by (intro kpool_same_outside [OF aspaceD(1) [OF assms(1)] out]) auto
  then show "aspace (s\<lparr>mem := m'\<rparr>) d ps"
  proof (rule aspaceI)
    fix j t assume "tab (mem (s\<lparr>mem := m'\<rparr>)) d j = Some t" "unat j < 1024"
    then show "kpage (s\<lparr>mem := m'\<rparr>) t \<and> t \<noteq> d \<and> t \<notin> set ps"
      using p aspaceD(4-6) [OF assms(1), of j t] by (auto simp: tab split: if_splits)
  next
    fix j k t
    assume "tab (mem (s\<lparr>mem := m'\<rparr>)) d j = Some t" "tab (mem (s\<lparr>mem := m'\<rparr>)) d k = Some t"
      "unat j < 1024" "unat k < 1024"
    then show "j = k"
      using p(4) aspaceD(7) [OF assms(1), of j t k] by (auto simp: tab tabs_def split: if_splits)
  next
    fix j
    assume "load32 (mem (s\<lparr>mem := m'\<rparr>)) (d + 4 * j) AND PTE_P = 0" "unat j < 1024"
    then show "load32 (mem (s\<lparr>mem := m'\<rparr>)) (d + 4 * j) = 0"
      using page [OF d, of j] aspaceD(8) [OF assms(1), of j] new e(2) p(2) by (cases "j = i") auto
  qed (use d aspaceD(3) [OF assms(1)] in simp_all)
  have none: "tab (mem s) d i = None" "\<not> huge (mem s) d i"
    using assms(2) by (simp_all add: tab_def huge_def)
  show "entry m' d = entry (mem s) d"
  proof
    fix x
    show "entry m' d x = entry (mem s) d x"
    proof (cases "PDX x = i")
      case True
      moreover have "tab m' d i = Some p" "\<not> huge m' d i"
        using tab [OF assms(3)] huge [OF assms(3)] none by simp_all
      ultimately show ?thesis
        using none p(2) page [OF p(1), of "PTX x"] by (simp add: entry_def)
    next
      case False
      have "load32 m' (t + 4 * PTX x) = load32 (mem s) (t + 4 * PTX x)"
        if "tab (mem s) d (PDX x) = Some t" for t
      proof -
        have "t \<noteq> p" using p(4) that by (auto simp: tabs_def)
        then show ?thesis using page [of t "PTX x"] aspaceD(4,5) [OF assms(1) that] by simp
      qed
      moreover have "load32 m' (d + 4 * PDX x) = load32 (mem s) (d + 4 * PDX x)"
        using page [OF d, of "PDX x"] p(2) False by simp
      ultimately show ?thesis
        using False by (simp add: entry_def tab huge split: option.split)
    qed
  qed
qed

section \<open>Steps on an address space\<close>

text \<open>
  \<open>kframe U s s'\<close>: between \<open>s\<close> and \<open>s'\<close> memory changes only in the kernel pages \<open>U\<close>, and the huge
  page allocator and the kernel's addresses do not change.
\<close>

definition kframe :: "u32 set \<Rightarrow> machine \<Rightarrow> machine \<Rightarrow> bool" where
  "kframe U s s' \<longleftrightarrow> same_outside U (mem s) (mem s') \<and> (\<forall>p \<in> U. kpage s p) \<and>
     khugemem s' = khugemem s \<and> kend s' = kend s \<and> kdata s' = kdata s \<and> kpgdir s' = kpgdir s \<and>
     cr3 s' = cr3 s"

lemma kframeD:
  assumes "kframe U s s'"
  shows "same_outside U (mem s) (mem s')" "p \<in> U \<Longrightarrow> kpage s p" "khugemem s' = khugemem s"
    "kend s' = kend s" "kdata s' = kdata s" "kpgdir s' = kpgdir s" "cr3 s' = cr3 s" "kpage s' = kpage s"
  using assms by (auto simp: kframe_def kpage_def fun_eq_iff)

lemma kframe_refl [simp]: "kframe {} s s"
  by (simp add: kframe_def)

lemma kframe_trans:
  assumes "kframe U s s'" "kframe V s' s''" "U \<union> V \<subseteq> W" "\<And>p. p \<in> W \<Longrightarrow> kpage s p"
  shows "kframe W s s''"
  using assms same_outside_trans [OF kframeD(1) [OF assms(1)] kframeD(1) [OF assms(2)] assms(3)]
  by (simp add: kframe_def)

lemma kframe_mono: "kframe U s s' \<Longrightarrow> U \<subseteq> V \<Longrightarrow> (\<And>p. p \<in> V \<Longrightarrow> kpage s p) \<Longrightarrow> kframe V s s'"
  by (auto simp: kframe_def intro: same_outside_mono)

lemma kframe_mem:
  "same_outside U (mem s) m' \<Longrightarrow> (\<And>p. p \<in> U \<Longrightarrow> kpage s p) \<Longrightarrow> kframe U s (s\<lparr>mem := m'\<rparr>)"
  by (simp add: kframe_def)

lemma kframe_cprintf [simp]: "kframe {} s (cprintf msg s)"
  by (simp add: kframe_def cprintf_def)

lemma hpool_kframe:
  assumes "hpool s hs" "kframe U s s'" "locks_ok s'"
  shows "hpool s' hs"
  using hpool_same_outside [OF assms(1) kframeD(1,2) [OF assms(2)]] assms(3) kframeD(3) [OF assms(2)]
  by (simp add: hpool_def)

text \<open>
  What an operation that only maps pages does besides the mapping: the invariant holds again, with
  the free pages \<open>ps'\<close> a suffix of \<open>ps\<close>; what left the free list became page tables; memory changes
  only in the directory, its tables and the pages taken; and no entry of the directory turns into
  or from a 4 MB page.
\<close>

definition vm_step :: "u32 \<Rightarrow> machine \<Rightarrow> u32 list \<Rightarrow> machine \<Rightarrow> u32 list \<Rightarrow> bool" where
  "vm_step d s ps s' ps' \<longleftrightarrow> aspace s' d ps' \<and> kframe (insert d (set ps \<union> tabs (mem s) d)) s s' \<and>
     set ps' \<union> tabs (mem s') d = set ps \<union> tabs (mem s) d \<and> (\<exists>qs. ps = qs @ ps') \<and>
     (\<forall>i. unat i < 1024 \<longrightarrow> huge (mem s') d i = huge (mem s) d i)"

lemma vm_stepD:
  assumes "vm_step d s ps s' ps'"
  shows "aspace s' d ps'" "kframe (insert d (set ps \<union> tabs (mem s) d)) s s'"
    "set ps' \<union> tabs (mem s') d = set ps \<union> tabs (mem s) d" "\<exists>qs. ps = qs @ ps'"
    "unat i < 1024 \<Longrightarrow> huge (mem s') d i = huge (mem s) d i" "kpage s' = kpage s"
  using assms kframeD(8) by (auto simp: vm_step_def)

lemma aspace_pages:
  assumes "aspace s d ps" "p \<in> insert d (set ps \<union> tabs (mem s) d)"
  shows "kpage s p"
  using assms aspaceD(2,4) [OF assms(1)] kpoolD(4) [OF aspaceD(1) [OF assms(1)]] by (auto simp: tabs_def)

lemma vm_step_refl: "aspace s d ps \<Longrightarrow> vm_step d s ps s ps"
  using kframe_mono [OF kframe_refl, of "insert d (set ps \<union> tabs (mem s) d)" s] aspace_pages [of s d ps]
  by (simp add: vm_step_def)

lemma vm_step_trans:
  assumes "vm_step d s ps s' ps'" "vm_step d s' ps' s'' ps''"
  shows "vm_step d s ps s'' ps''"
proof -
  have *: "set ps' \<union> tabs (mem s') d = set ps \<union> tabs (mem s) d" using vm_stepD(3) [OF assms(1)] .
  then have "kframe (insert d (set ps \<union> tabs (mem s) d)) s s''"
    using kframeD(2) [OF vm_stepD(2) [OF assms(1)]]
    by (intro kframe_trans [OF vm_stepD(2) [OF assms(1)] vm_stepD(2) [OF assms(2)]]) auto
  moreover have "\<exists>qs. ps = qs @ ps''" using vm_stepD(4) [OF assms(1)] vm_stepD(4) [OF assms(2)] by auto
  ultimately show ?thesis
    using assms * by (simp add: vm_step_def)
qed

lemma aspace_tabs_free: "aspace s d ps \<Longrightarrow> set ps \<inter> tabs (mem s) d = {}"
  using aspaceD(6) by (auto simp: tabs_def)

lemma aspace_update:
  assumes "aspace s d ps" "mem s' = mem s" "kpage s' = kpage s" "kpool s' ps'" "set ps' \<subseteq> set ps"
  shows "aspace s' d ps'"
proof (rule aspace_change(1) [OF assms(1), of "{}"])
  show "same_outside {} (mem s) (mem s')" by (simp add: assms(2))
  show "d \<notin> set ps'" "set ps' \<inter> tabs (mem s) d = {}"
    using aspaceD(3) [OF assms(1)] aspace_tabs_free [OF assms(1)] assms(5) by auto
qed (use assms(3,4) in simp_all)

lemma kalloc_aspace:
  assumes "aspace s d (p # ps)"
  obtains s' where "kalloc s = Ret (p, s')" "aspace s' d ps" "mem s' = mem s" "kframe {} s s'"
    "kpage s p" "p \<noteq> d" "p \<notin> set ps" "p \<notin> tabs (mem s) d" "p \<noteq> 0"
proof -
  let ?s' = "settle (use_lock (kmem s) \<noteq> 0) (s\<lparr>kmem := (kmem s)\<lparr>freelist := load32 (mem s) p\<rparr>\<rparr>)"
  note k = aspaceD(1) [OF assms]
  have a: "kalloc s = Ret (p, ?s')" using kalloc_pool [OF k] .
  then have "kpool ?s' ps" using base_pages.alloc_some [OF k] by auto
  then have "aspace ?s' d ps" using assms by (rule_tac aspace_update [of s]) auto
  moreover have "kframe {} s ?s'" by (simp add: kframe_def)
  moreover have "p \<notin> tabs (mem s) d" "p \<noteq> d"
    using aspaceD(3,6) [OF assms] by (auto simp: tabs_def)
  moreover have "kpage s p" "p \<notin> set ps" "p \<noteq> 0"
    using kpoolD(3,4) [OF k] kpage_nonzero by auto
  ultimately show ?thesis using a that [of ?s'] by simp
qed

lemma kalloc_aspace_empty:
  assumes "aspace s d []"
  obtains s' where "kalloc s = Ret (0, s')" "aspace s' d []" "mem s' = mem s" "kframe {} s s'"
proof -
  let ?s' = "settle (use_lock (kmem s) \<noteq> 0) s"
  note k = aspaceD(1) [OF assms]
  have "kpool ?s' []" using k by (simp add: kpool_def)
  then have "aspace ?s' d []" using assms by (rule_tac aspace_update [of s]) auto
  moreover have "kframe {} s ?s'" by (simp add: kframe_def)
  ultimately show ?thesis using kalloc_pool_empty [OF k] that [of ?s'] by simp
qed

text \<open>A page taken from the free list and cleared is an empty address space.\<close>

lemma empty_space:
  assumes "kpool s (d # ps)"
  obtains s' where "kalloc s = Ret (d, s')" "aspace (s'\<lparr>mem := memset (mem s') d 0 PGSIZE\<rparr>) d ps"
    "entry (memset (mem s') d 0 PGSIZE) d = (\<lambda>_. 0)" "tabs (memset (mem s') d 0 PGSIZE) d = {}"
    "\<And>i. unat i < 1024 \<Longrightarrow> \<not> huge (memset (mem s') d 0 PGSIZE) d i"
    "kframe {d} s (s'\<lparr>mem := memset (mem s') d 0 PGSIZE\<rparr>)" "d \<noteq> 0"
proof -
  obtain s' where s': "kalloc s = Ret (d, s')" "kpool s' ps" "mem s' = mem s" "kframe {} s s'"
    "kpage s' d" "kpage s d" "d \<notin> set ps" "d \<noteq> 0"
  proof -
    let ?s' = "settle (use_lock (kmem s) \<noteq> 0) (s\<lparr>kmem := (kmem s)\<lparr>freelist := load32 (mem s) d\<rparr>\<rparr>)"
    have "kpool ?s' ps" using base_pages.alloc_some [OF assms] kalloc_pool [OF assms] by auto
    moreover have "kframe {} s ?s'" by (simp add: kframe_def)
    ultimately show ?thesis
      using that [of ?s'] kalloc_pool [OF assms] kpoolD(3) [OF assms] kpoolD(4) [OF assms, of d]
        kpage_nonzero [of s d] by simp
  qed
  let ?m = "memset (mem s') d 0 PGSIZE"
  have 0: "load32 ?m (d + 4 * i) = 0" if "unat i < 1024" for i
    using that s'(5) slot_dvd_4 [OF s'(5) that] slot_offset(1) [OF that, of d]
    by (simp add: load32_memset fill32_simps)
  then have t: "tab ?m d i = None" and h: "\<not> huge ?m d i" if "unat i < 1024" for i
    using that by (simp_all add: tab_def huge_def)
  have "kpool (s'\<lparr>mem := ?m\<rparr>) ps"
    using s'(5,7) by (intro kpool_same_outside [OF s'(2) same_outside_memset]) auto
  then have "aspace (s'\<lparr>mem := ?m\<rparr>) d ps"
    using s'(5,7) by (intro aspaceI) (auto simp: t 0)
  moreover have "entry ?m d = (\<lambda>_. 0)" by (simp add: fun_eq_iff entry_def t h)
  moreover have "tabs ?m d = {}" by (auto simp: tabs_def t)
  moreover have "kframe {d} s (s'\<lparr>mem := ?m\<rparr>)"
    using s'(5,6) by (intro kframe_trans [OF s'(4) kframe_mem [OF same_outside_memset [of d]]]) auto
  ultimately show ?thesis using that s'(1,8) h by blast
qed

section \<open>walkpgdir\<close>

lemma walkpgdir_found:
  assumes "tab (mem s) d (PDX va) = Some t"
  shows "walkpgdir d va alloc s = Ret (t + 4 * PTX va, s)"
  using assms by (auto simp: walkpgdir_def tab_def Let_def split: if_splits)

lemma walkpgdir_none:
  assumes "tab (mem s) d (PDX va) = None" "\<not> huge (mem s) d (PDX va)"
  shows "walkpgdir d va False s = Ret (0, s)" "load32 (mem s) (d + 4 * PDX va) AND PTE_P = 0"
  using assms by (auto simp: walkpgdir_def tab_def huge_def Let_def split: if_splits)

lemma slot_nonzero: "kpage s t \<Longrightarrow> t + 4 * PTX va \<noteq> 0"
  using unat_slot [of s t "PTX va"] by (auto simp: kpage_iff)

lemma walkpgdir_alloc:
  assumes "aspace s d ps" "\<not> huge (mem s) d (PDX va)"
  obtains (full) s' where "walkpgdir d va True s = Ret (0, s')" "ps = []" "tab (mem s) d (PDX va) = None"
      "vm_step d s ps s' ps" "mem s' = mem s"
  | (found) t ps' s' where "walkpgdir d va True s = Ret (t + 4 * PTX va, s')" "t + 4 * PTX va \<noteq> 0"
      "tab (mem s') d (PDX va) = Some t" "vm_step d s ps s' ps'" "entry (mem s') d = entry (mem s) d"
proof (cases "tab (mem s) d (PDX va)")
  case (Some t)
  then show ?thesis
    using found [of t s ps] walkpgdir_found [OF Some] vm_step_refl [OF assms(1)]
      slot_nonzero [OF aspaceD(4) [OF assms(1) Some]] by simp
next
  case None
  note np = walkpgdir_none(2) [OF None assms(2)]
  show ?thesis
  proof (cases ps)
    case Nil
    with assms(1) obtain s' where s': "kalloc s = Ret (0, s')" "aspace s' d []" "mem s' = mem s" "kframe {} s s'"
      using kalloc_aspace_empty by metis
    have "kframe (insert d (set ps \<union> tabs (mem s) d)) s s'"
      using aspace_pages [OF assms(1)] by (intro kframe_mono [OF s'(4)]) auto
    then have "vm_step d s ps s' ps" using s' Nil by (simp add: vm_step_def)
    then show ?thesis
      using full [of s'] s' np None Nil by (simp add: walkpgdir_def)
  next
    case (Cons p qs)
    obtain s1 where s1: "kalloc s = Ret (p, s1)" "aspace s1 d qs" "mem s1 = mem s" "kframe {} s s1"
      "kpage s p" "p \<noteq> d" "p \<notin> set qs" "p \<notin> tabs (mem s) d" "p \<noteq> 0"
      using kalloc_aspace assms(1) Cons by metis
    define m' where "m' = store32 (memset (mem s1) p 0 PGSIZE) (d + 4 * PDX va)
      (V2P p OR PTE_P OR PTE_W OR PTE_U)"
    have kp: "kpage s1 = kpage s" using kframeD(8) [OF s1(4)] .
    note new = aspace_new_table [OF s1(2) _ _ _ s1(6,7) _ m'_def, unfolded s1(3) kp,
        OF np PDX_less s1(5,8)]
    have tabs: "tabs m' d = insert p (tabs (mem s) d)"
      using new(3) PDX_less None by (rule tabs_update)
    have "kframe {p, d} s1 (s1\<lparr>mem := m'\<rparr>)"
      using new(5) s1(5) aspaceD(2) [OF assms(1)] by (intro kframe_mem) (auto simp: s1(3) kp)
    then have "kframe (insert d (set ps \<union> tabs (mem s) d)) s (s1\<lparr>mem := m'\<rparr>)"
      using Cons aspace_pages [OF assms(1)] by (intro kframe_trans [OF s1(4)]) auto
    then have "vm_step d s ps (s1\<lparr>mem := m'\<rparr>) qs"
      using new(1,4) Cons tabs by (auto simp: vm_step_def)
    moreover have "walkpgdir d va True s = Ret (p + 4 * PTX va, s1\<lparr>mem := m'\<rparr>)"
      using np s1(1,9) by (simp add: walkpgdir_def m'_def Let_def)
    ultimately show ?thesis
      using found [of p "s1\<lparr>mem := m'\<rparr>" qs] new(2,3) slot_nonzero [OF s1(5)] by simp
  qed
qed

section \<open>mappages\<close>

definition set_entry :: "(u32 \<Rightarrow> u32) \<Rightarrow> u32 \<Rightarrow> u32 \<Rightarrow> u32 \<Rightarrow> u32" where
  "set_entry e va w = (\<lambda>x. if PGROUNDDOWN x = PGROUNDDOWN va then w else e x)"

text \<open>The abstract address space after mapping \<open>n\<close> consecutive pages.\<close>

primrec map_range :: "(u32 \<Rightarrow> u32) \<Rightarrow> u32 \<Rightarrow> u32 \<Rightarrow> u32 \<Rightarrow> nat \<Rightarrow> u32 \<Rightarrow> u32" where
  "map_range e a pa perm 0 = e"
| "map_range e a pa perm (Suc n) =
     map_range (set_entry e a (pa OR perm OR PTE_P)) (a + PGSIZE) (pa + PGSIZE) perm n"

lemma vm_step_store_pte:
  assumes "aspace s d ps" "tab (mem s) d (PDX va) = Some t"
  shows "vm_step d s ps (s\<lparr>mem := store32 (mem s) (t + 4 * PTX va) w\<rparr>) ps"
    "entry (store32 (mem s) (t + 4 * PTX va) w) d = set_entry (entry (mem s) d) va w"
proof -
  note st = aspace_store_pte [OF assms refl, where w = w]
  have "t \<in> tabs (mem s) d" using assms(2) PDX_less by (rule tabsI)
  then have "kframe (insert d (set ps \<union> tabs (mem s) d)) s (s\<lparr>mem := store32 (mem s) (t + 4 * PTX va) w\<rparr>)"
    using aspace_pages [OF assms(1)] st(5) by (intro kframe_mem same_outside_mono [OF st(5)]) auto
  moreover have "tabs (store32 (mem s) (t + 4 * PTX va) w) d = tabs (mem s) d"
    using st(3) by (auto simp: tabs_def)
  ultimately show "vm_step d s ps (s\<lparr>mem := store32 (mem s) (t + 4 * PTX va) w\<rparr>) ps"
    using st(1,4) by (simp add: vm_step_def)
  show "entry (store32 (mem s) (t + 4 * PTX va) w) d = set_entry (entry (mem s) d) va w"
    using st(2) by (simp add: fun_eq_iff set_entry_def)
qed

lemma map_base_step_cases:
  assumes "aspace s d ps" "\<not> huge (mem s) d (PDX a)" "entry (mem s) d a AND PTE_P = 0"
  obtains (full) s' where "map_base_step d perm last_a (a, pa, s) = Ret (Inr (- 1, s'))" "ps = []"
      "vm_step d s ps s' ps" "mem s' = mem s"
  | (mapped) s' ps' where "map_base_step d perm last_a (a, pa, s) =
        (if a = last_a then Ret (Inr (0, s')) else Ret (Inl (a + PGSIZE, pa + PGSIZE, s')))"
      "vm_step d s ps s' ps'" "entry (mem s') d = set_entry (entry (mem s) d) a (pa OR perm OR PTE_P)"
  using assms(1,2)
proof (cases rule: walkpgdir_alloc)
  case (full s')
  then show ?thesis using that(1) by (simp add: map_base_step_def)
next
  case (found t ps' s')
  note st = vm_step_store_pte [OF vm_stepD(1) [OF found(4)] found(3), of "pa OR perm OR PTE_P"]
  have "load32 (mem s') (t + 4 * PTX a) = entry (mem s) d a"
    using found(3,5) huge_table_excl [OF found(3)] by (metis entry_def option.simps(5))
  then show ?thesis
    using that(2) [OF _ vm_step_trans [OF found(4) st(1)]] found(1,2,5) st(2) assms(3)
    by (simp add: map_base_step_def Let_def)
qed

lemma unat_page_step:
  assumes "unat a + 4096 * (n + 1) \<le> 4294967296" "0 < n"
  shows "unat (a + PGSIZE) = unat a + 4096"
proof -
  have "unat a + 4096 < 4294967296" using assms by (cases n) auto
  then show ?thesis by (subst unat_add_no_wrap) auto
qed

lemma PGROUNDDOWN_page:
  assumes "4096 dvd unat a"
  shows "PGROUNDDOWN x = PGROUNDDOWN a \<longleftrightarrow> unat a \<le> unat x \<and> unat x < unat a + 4096"
proof -
  obtain k where k: "unat a = 4096 * k" using assms by (elim dvdE)
  have "PGROUNDDOWN x = PGROUNDDOWN a \<longleftrightarrow> unat x div 4096 = k"
    by (auto simp: word_unat_eq_iff unat_PGROUNDDOWN minus_mod_eq_div_mult k)
  also have "\<dots> \<longleftrightarrow> 4096 * k \<le> unat x \<and> unat x < 4096 * k + 4096"
    by (auto simp: div_nat_eqI)
  finally show ?thesis by (simp add: k)
qed

text \<open>Mapping consecutive pages, in one formula.\<close>

definition map_span :: "(u32 \<Rightarrow> u32) \<Rightarrow> u32 \<Rightarrow> u32 \<Rightarrow> u32 \<Rightarrow> nat \<Rightarrow> u32 \<Rightarrow> u32" where
  "map_span e a pa perm n = (\<lambda>x.
     if unat a \<le> unat x \<and> unat x < unat a + 4096 * n
     then (pa + (PGROUNDDOWN x - a)) OR perm OR PTE_P else e x)"

lemma map_range_span:
  assumes "4096 dvd unat a" "unat a + 4096 * n \<le> 4294967296"
  shows "map_range e a pa perm n = map_span e a pa perm n"
proof
  fix x
  show "map_range e a pa perm n x = map_span e a pa perm n x"
    unfolding map_span_def using assms
  proof (induction n arbitrary: e a pa)
    case 0
    then show ?case by auto
  next
    case (Suc n)
    have here: "PGROUNDDOWN x = PGROUNDDOWN a \<longleftrightarrow> unat a \<le> unat x \<and> unat x < unat a + 4096"
      using PGROUNDDOWN_page [OF Suc.prems(1)] .
    have "PGROUNDDOWN a = a"
      using Suc.prems(1) by (simp add: word_unat_eq_iff unat_PGROUNDDOWN)
    show ?case
    proof (cases "n = 0")
      case True
      then show ?thesis using here \<open>PGROUNDDOWN a = a\<close> by (auto simp: set_entry_def)
    next
      case False
      have u: "unat (a + PGSIZE) = unat a + 4096"
        using Suc.prems(2) False by (intro unat_page_step [of _ n]) auto
      have "map_range e a pa perm (Suc n) x =
        (if unat a + 4096 \<le> unat x \<and> unat x < unat a + 4096 * Suc n
         then (pa + PGSIZE + (PGROUNDDOWN x - (a + PGSIZE))) OR perm OR PTE_P
         else set_entry e a (pa OR perm OR PTE_P) x)"
        using Suc.IH [of "a + PGSIZE" "set_entry e a (pa OR perm OR PTE_P)" "pa + PGSIZE"] Suc.prems
        by (simp add: u add.assoc)
      also have "pa + PGSIZE + (PGROUNDDOWN x - (a + PGSIZE)) = pa + (PGROUNDDOWN x - a)" by simp
      finally show ?thesis
        using here \<open>PGROUNDDOWN a = a\<close> by (auto simp: set_entry_def)
    qed
  qed
qed

definition unmapped :: "memory \<Rightarrow> u32 \<Rightarrow> u32 \<Rightarrow> nat \<Rightarrow> bool" where
  "unmapped m d a n \<longleftrightarrow> (\<forall>x. unat a \<le> unat x \<longrightarrow> unat x < unat a + 4096 * n \<longrightarrow>
     \<not> huge m d (PDX x) \<and> entry m d x AND PTE_P = 0)"

lemma map_base_loop:
  assumes "aspace s d ps" "4096 dvd unat a" "unat a + 4096 * (n + 1) \<le> 4294967296" "n < k"
    and "unat last_a = unat a + 4096 * n" "unmapped (mem s) d a (n + 1)"
  shows "\<exists>r s' ps'. loop k (map_base_step d perm last_a) (a, pa, s) = Ret (r, s') \<and> vm_step d s ps s' ps' \<and>
    (r = 0 \<and> entry (mem s') d = map_range (entry (mem s) d) a pa perm (n + 1) \<or>
     r = - 1 \<and> ps' = [] \<and> (\<exists>j \<le> n. entry (mem s') d = map_range (entry (mem s) d) a pa perm j))"
  using assms
proof (induction n arbitrary: s ps a pa k)
  case (0 s ps a pa k)
  then have k: "k = Suc (k - 1)" and l: "last_a = a" by (auto simp: word_unat_eq_iff)
  have "\<not> huge (mem s) d (PDX a)" "entry (mem s) d a AND PTE_P = 0"
    using 0(6) by (auto simp: unmapped_def)
  with 0(1) show ?case
  proof (cases rule: map_base_step_cases [where perm = perm and last_a = last_a and pa = pa])
    case (full s')
    then show ?thesis by (subst k) (auto intro!: exI [of _ s'])
  next
    case (mapped s' ps')
    then show ?thesis using l by (subst k) (auto intro!: exI [of _ s'])
  qed
next
  case (Suc n s ps a pa k)
  obtain k' where k: "k = Suc k'" "n < k'" using Suc.prems(4) by (cases k) auto
  have u: "unat (a + PGSIZE) = unat a + 4096"
    using Suc.prems(3) by (intro unat_page_step [of _ "n + 1"]) auto
  have l: "a \<noteq> last_a" using Suc.prems(5) by auto
  have "\<not> huge (mem s) d (PDX a)" "entry (mem s) d a AND PTE_P = 0"
    using Suc.prems(6) by (auto simp: unmapped_def)
  with Suc.prems(1) show ?case
  proof (cases rule: map_base_step_cases [where perm = perm and last_a = last_a and pa = pa])
    case (full s')
    then show ?thesis by (auto simp: k intro!: exI [of _ s'] exI [of _ 0])
  next
    case (mapped s' ps')
    have "unmapped (mem s') d (a + PGSIZE) (n + 1)"
      using Suc.prems(2,6) vm_stepD(5) [OF mapped(2)] mapped(3) PGROUNDDOWN_page [OF Suc.prems(2)]
      by (auto simp: unmapped_def u set_entry_def)
    then have "\<exists>r s'' ps''. loop k' (map_base_step d perm last_a) (a + PGSIZE, pa + PGSIZE, s') = Ret (r, s'') \<and>
        vm_step d s' ps' s'' ps'' \<and>
        (r = 0 \<and> entry (mem s'') d = map_range (entry (mem s') d) (a + PGSIZE) (pa + PGSIZE) perm (n + 1) \<or>
         r = - 1 \<and> ps'' = [] \<and>
           (\<exists>j \<le> n. entry (mem s'') d = map_range (entry (mem s') d) (a + PGSIZE) (pa + PGSIZE) perm j))"
      using Suc.prems u k(2) by (intro Suc.IH vm_stepD(1) [OF mapped(2)]) auto
    then obtain r s'' ps'' where IH:
      "loop k' (map_base_step d perm last_a) (a + PGSIZE, pa + PGSIZE, s') = Ret (r, s'')"
      "vm_step d s' ps' s'' ps''"
      "r = 0 \<and> entry (mem s'') d = map_range (entry (mem s') d) (a + PGSIZE) (pa + PGSIZE) perm (n + 1) \<or>
         r = - 1 \<and> ps'' = [] \<and>
           (\<exists>j \<le> n. entry (mem s'') d = map_range (entry (mem s') d) (a + PGSIZE) (pa + PGSIZE) perm j)"
      by blast
    have "loop k (map_base_step d perm last_a) (a, pa, s) = Ret (r, s'')"
      using mapped(1) l IH(1) by (simp add: k)
    moreover note vm_step_trans [OF mapped(2) IH(2)]
    moreover have "r = 0 \<and> entry (mem s'') d = map_range (entry (mem s) d) a pa perm (Suc n + 1) \<or>
         r = - 1 \<and> ps'' = [] \<and> (\<exists>j \<le> Suc n. entry (mem s'') d = map_range (entry (mem s) d) a pa perm j)"
      using IH(3) mapped(3) by (auto intro: exI [of _ "Suc _"])
    ultimately show ?thesis by blast
  qed
qed

lemma mappages_base:
  assumes "aspace s d ps" "4096 dvd unat va" "unat sz = 4096 * n" "0 < n"
    and "unat va + 4096 * n \<le> 4294967296" "\<not> (HUGE_PAGE_START \<le> pa \<and> pa < HUGE_PAGE_END)"
    and "unmapped (mem s) d va n"
  shows "\<exists>r s' ps' k. mappages d va sz pa perm s = Ret (r, s') \<and> vm_step d s ps s' ps' \<and>
    (r = 0 \<and> k = n \<or> r = - 1 \<and> k < n \<and> ps' = []) \<and>
    entry (mem s') d = map_span (entry (mem s) d) va pa perm k"
proof -
  obtain k where n: "n = k + 1" using assms(4) by (cases n) auto
  have va: "PGROUNDDOWN va = va"
    using assms(2) by (simp add: word_unat_eq_iff unat_PGROUNDDOWN)
  have "unat (sz - 1) = 4096 * n - 1"
    using assms(3,4) by (subst unat_minus_1) auto
  then have "unat (va + (sz - 1)) = unat va + (4096 * n - 1)"
    using assms(4,5) by (subst unat_add_no_wrap) auto
  moreover have "va + (sz - 1) = va + sz - 1" by (rule add_diff_eq)
  ultimately have u: "unat (va + sz - 1) = unat va + 4096 * k + 4095" using n by simp
  obtain q where q: "unat va = 4096 * q" using assms(2) by (elim dvdE)
  have last_a: "unat (PGROUNDDOWN (va + sz - 1)) = unat va + 4096 * k"
    using mod_mult_self4 [of 4096 "q + k" "4095 :: nat"]
    unfolding unat_PGROUNDDOWN u q by (simp add: add_mult_distrib2)
  have "\<exists>r s' ps'. loop all_pages (map_base_step d perm (PGROUNDDOWN (va + sz - 1))) (va, pa, s) = Ret (r, s') \<and>
      vm_step d s ps s' ps' \<and>
      (r = 0 \<and> entry (mem s') d = map_range (entry (mem s) d) va pa perm (k + 1) \<or>
       r = - 1 \<and> ps' = [] \<and> (\<exists>j \<le> k. entry (mem s') d = map_range (entry (mem s) d) va pa perm j))"
    using assms(1,2,5,7) n last_a by (intro map_base_loop) auto
  moreover have "mappages d va sz pa perm s =
      loop all_pages (map_base_step d perm (PGROUNDDOWN (va + sz - 1))) (va, pa, s)"
    unfolding mappages_def va by (rule if_not_P [OF assms(6)])
  ultimately obtain r s' ps' where r: "mappages d va sz pa perm s = Ret (r, s')" "vm_step d s ps s' ps'"
    and cases: "r = 0 \<and> entry (mem s') d = map_range (entry (mem s) d) va pa perm (k + 1) \<or>
       r = - 1 \<and> ps' = [] \<and> (\<exists>j \<le> k. entry (mem s') d = map_range (entry (mem s) d) va pa perm j)"
    by auto
  have span: "map_range (entry (mem s) d) va pa perm j = map_span (entry (mem s) d) va pa perm j"
    if "j \<le> n" for j using that assms(2,5) by (intro map_range_span) auto
  from cases show ?thesis
  proof (elim disjE conjE exE)
    assume "r = 0" "entry (mem s') d = map_range (entry (mem s) d) va pa perm (k + 1)"
    with span [of n] n have "entry (mem s') d = map_span (entry (mem s) d) va pa perm n" by (simp only: order_refl)
    with r \<open>r = 0\<close> show ?thesis
      by (intro exI [of _ r] exI [of _ s'] exI [of _ ps'] exI [of _ n]) simp
  next
    fix j assume "r = - 1" "ps' = []" "j \<le> k" "entry (mem s') d = map_range (entry (mem s) d) va pa perm j"
    with r span [of j] n show ?thesis
      by (intro exI [of _ r] exI [of _ s'] exI [of _ ps'] exI [of _ j]) simp
  qed
qed

section \<open>Huge pages\<close>

lemma aspace_store_huge:
  assumes "aspace s d ps" "unat i < 1024" "e AND PTE_P \<noteq> 0" "e AND PTE_PS \<noteq> 0"
    and m'_def: "m' = store32 (mem s) (d + 4 * i) e"
  shows "aspace (s\<lparr>mem := m'\<rparr>) d ps"
    "entry m' d x = (if PDX x = i then e else entry (mem s) d x)"
    "unat j < 1024 \<Longrightarrow> tab m' d j = (if j = i then None else tab (mem s) d j)"
    "unat j < 1024 \<Longrightarrow> huge m' d j \<longleftrightarrow> j = i \<or> huge (mem s) d j"
    "kframe {d} s (s\<lparr>mem := m'\<rparr>)"
proof -
  have d: "kpage s d" "d \<notin> set ps" using aspaceD(2,3) [OF assms(1)] .
  have out: "same_outside {d} (mem s) m'"
    unfolding m'_def using assms(2) by (rule same_outside_store)
  then show "kframe {d} s (s\<lparr>mem := m'\<rparr>)" using d by (intro kframe_mem) auto
  have page: "load32 m' (q + 4 * j) = (if q = d \<and> j = i then e else load32 (mem s) (q + 4 * j))"
    if "kpage s q" "unat j < 1024" for q j
    unfolding m'_def using load32_slot_store [OF d(1) that(1) assms(2) that(2)] by auto
  show tab: "tab m' d j = (if j = i then None else tab (mem s) d j)" if "unat j < 1024" for j
    using page [OF d(1) that] assms(4) by (simp add: tab_def)
  show huge: "huge m' d j \<longleftrightarrow> j = i \<or> huge (mem s) d j" if "unat j < 1024" for j
    using page [OF d(1) that] assms(3,4) by (simp add: huge_def)
  have "kpool (s\<lparr>mem := m'\<rparr>) ps"
    using d by (intro kpool_same_outside [OF aspaceD(1) [OF assms(1)] out]) auto
  then show "aspace (s\<lparr>mem := m'\<rparr>) d ps"
  proof (rule aspaceI)
    fix j t assume "tab (mem (s\<lparr>mem := m'\<rparr>)) d j = Some t" "unat j < 1024"
    then show "kpage (s\<lparr>mem := m'\<rparr>) t \<and> t \<noteq> d \<and> t \<notin> set ps"
      using aspaceD(4-6) [OF assms(1), of j t] by (auto simp: tab split: if_splits)
  next
    fix j k t
    assume "tab (mem (s\<lparr>mem := m'\<rparr>)) d j = Some t" "tab (mem (s\<lparr>mem := m'\<rparr>)) d k = Some t"
      "unat j < 1024" "unat k < 1024"
    then show "j = k"
      using aspaceD(7) [OF assms(1), of j t k] by (auto simp: tab split: if_splits)
  next
    fix j
    assume "load32 (mem (s\<lparr>mem := m'\<rparr>)) (d + 4 * j) AND PTE_P = 0" "unat j < 1024"
    then show "load32 (mem (s\<lparr>mem := m'\<rparr>)) (d + 4 * j) = 0"
      using page [OF d(1), of j] aspaceD(8) [OF assms(1), of j] assms(3) by (cases "j = i") auto
  qed (use d in simp_all)
  show "entry m' d x = (if PDX x = i then e else entry (mem s) d x)"
  proof (cases "PDX x = i")
    case True
    then show ?thesis using page [OF d(1) assms(2)] huge [OF assms(2)] by (simp add: entry_def)
  next
    case False
    have "load32 m' (t + 4 * PTX x) = load32 (mem s) (t + 4 * PTX x)" if "tab (mem s) d (PDX x) = Some t" for t
      using page [of t "PTX x"] aspaceD(4,5) [OF assms(1) that] by simp
    moreover have "load32 m' (d + 4 * PDX x) = load32 (mem s) (d + 4 * PDX x)"
      using page [OF d(1), of "PDX x"] False by simp
    ultimately show ?thesis
      using False by (simp add: entry_def tab huge split: option.split)
  qed
qed

definition set_huge :: "(u32 \<Rightarrow> u32) \<Rightarrow> u32 \<Rightarrow> u32 \<Rightarrow> u32 \<Rightarrow> u32" where
  "set_huge e va w = (\<lambda>x. if PDX x = PDX va then w else e x)"

primrec map_huge_range :: "(u32 \<Rightarrow> u32) \<Rightarrow> u32 \<Rightarrow> u32 \<Rightarrow> u32 \<Rightarrow> nat \<Rightarrow> u32 \<Rightarrow> u32" where
  "map_huge_range e a pa perm 0 = e"
| "map_huge_range e a pa perm (Suc n) =
     map_huge_range (set_huge e a (pa OR perm OR PTE_P OR PTE_PS)) (a + HUGE_PAGE_SIZE)
       (pa + HUGE_PAGE_SIZE) perm n"

lemma unat_huge_step:
  assumes "unat a + 4194304 * (n + 1) \<le> 4294967296" "0 < n"
  shows "unat (a + HUGE_PAGE_SIZE) = unat a + 4194304"
proof -
  have "unat a + 4194304 < 4294967296" using assms by (cases n) auto
  then show ?thesis by (subst unat_add_no_wrap) auto
qed

lemma PDX_page:
  assumes "4194304 dvd unat a"
  shows "PDX x = PDX a \<longleftrightarrow> unat a \<le> unat x \<and> unat x < unat a + 4194304"
proof -
  obtain k where k: "unat a = 4194304 * k" using assms by (elim dvdE)
  have "PDX x = PDX a \<longleftrightarrow> unat x div 4194304 = k"
    by (auto simp: word_unat_eq_iff unat_PDX k)
  also have "\<dots> \<longleftrightarrow> 4194304 * k \<le> unat x \<and> unat x < 4194304 * k + 4194304"
    by (auto simp: div_nat_eqI)
  finally show ?thesis by (simp add: k)
qed

definition map_huge_span :: "(u32 \<Rightarrow> u32) \<Rightarrow> u32 \<Rightarrow> u32 \<Rightarrow> u32 \<Rightarrow> nat \<Rightarrow> u32 \<Rightarrow> u32" where
  "map_huge_span e a pa perm n = (\<lambda>x.
     if unat a \<le> unat x \<and> unat x < unat a + 4194304 * n
     then (pa + (HUGEPGROUNDDOWN x - a)) OR perm OR PTE_P OR PTE_PS else e x)"

lemma map_huge_range_span:
  assumes "4194304 dvd unat a" "unat a + 4194304 * n \<le> 4294967296"
  shows "map_huge_range e a pa perm n = map_huge_span e a pa perm n"
proof
  fix x
  show "map_huge_range e a pa perm n x = map_huge_span e a pa perm n x"
    unfolding map_huge_span_def using assms
  proof (induction n arbitrary: e a pa)
    case 0
    then show ?case by auto
  next
    case (Suc n)
    note here = PDX_page [OF Suc.prems(1), of x]
    have down: "HUGEPGROUNDDOWN x = a" if "PDX x = PDX a"
    proof -
      obtain k where k: "unat a = 4194304 * k" using Suc.prems(1) by (elim dvdE)
      have "unat x div 4194304 = k" using that by (simp add: word_unat_eq_iff unat_PDX k)
      then show ?thesis
        by (simp add: word_unat_eq_iff unat_HUGEPGROUNDDOWN minus_mod_eq_div_mult k)
    qed
    show ?case
    proof (cases "n = 0")
      case True
      then show ?thesis using here down by (auto simp: set_huge_def)
    next
      case False
      have u: "unat (a + HUGE_PAGE_SIZE) = unat a + 4194304"
        using Suc.prems(2) False by (intro unat_huge_step [of _ n]) auto
      have "map_huge_range e a pa perm (Suc n) x =
        (if unat a + 4194304 \<le> unat x \<and> unat x < unat a + 4194304 * Suc n
         then (pa + HUGE_PAGE_SIZE + (HUGEPGROUNDDOWN x - (a + HUGE_PAGE_SIZE))) OR perm OR PTE_P OR PTE_PS
         else set_huge e a (pa OR perm OR PTE_P OR PTE_PS) x)"
        using Suc.IH [of "a + HUGE_PAGE_SIZE" "set_huge e a (pa OR perm OR PTE_P OR PTE_PS)"
            "pa + HUGE_PAGE_SIZE"] Suc.prems
        by (simp add: u add.assoc)
      also have "pa + HUGE_PAGE_SIZE + (HUGEPGROUNDDOWN x - (a + HUGE_PAGE_SIZE)) = pa + (HUGEPGROUNDDOWN x - a)"
        by simp
      finally show ?thesis
        using here down by (auto simp: set_huge_def)
    qed
  qed
qed

lemma P_PS_flags: "(w OR PTE_P OR PTE_PS) AND PTE_P \<noteq> 0" "(w OR PTE_P OR PTE_PS) AND PTE_PS \<noteq> 0"
  using or_has_flag [of "PTE_P OR PTE_PS" PTE_P w] or_has_flag [of "PTE_P OR PTE_PS" PTE_PS w] by simp_all

definition no_table :: "memory \<Rightarrow> u32 \<Rightarrow> u32 \<Rightarrow> nat \<Rightarrow> bool" where
  "no_table m d a n \<longleftrightarrow> (\<forall>x. unat a \<le> unat x \<longrightarrow> unat x < unat a + 4194304 * n \<longrightarrow>
     tab m d (PDX x) = None)"

text \<open>
  Mapping 4 MB pages writes page directory entries only; it never fails. Where there was no page
  table, none is lost.
\<close>

definition huge_step :: "u32 \<Rightarrow> u32 list \<Rightarrow> machine \<Rightarrow> machine \<Rightarrow> bool" where
  "huge_step d ps s s' \<longleftrightarrow>
     aspace s' d ps \<and> kframe {d} s s' \<and> (\<forall>i. unat i < 1024 \<longrightarrow> tab (mem s') d i = tab (mem s) d i)"

lemma huge_step_trans: "huge_step d ps s s' \<Longrightarrow> huge_step d ps s' s'' \<Longrightarrow> huge_step d ps s s''"
  using kframe_trans [of "{d}" s s' "{d}" s'' "{d}"] kframeD(2) [of "{d}" s s']
  by (simp add: huge_step_def)

lemma map_huge_one:
  assumes "aspace s d ps" "tab (mem s) d (PDX a) = None"
    and s'_def: "s' = s\<lparr>mem := store32 (mem s) (d + 4 * PDX a) (w OR PTE_P OR PTE_PS)\<rparr>"
  shows "huge_step d ps s s'" "entry (mem s') d = set_huge (entry (mem s) d) a (w OR PTE_P OR PTE_PS)"
    "huge (mem s') d (PDX x) \<longleftrightarrow> PDX x = PDX a \<or> huge (mem s) d (PDX x)"
proof -
  note st = aspace_store_huge [OF assms(1) PDX_less [of a] P_PS_flags [of w] refl]
  show "huge_step d ps s s'"
    using st(1,3,5) assms(2) by (auto simp: huge_step_def s'_def)
  show "entry (mem s') d = set_huge (entry (mem s) d) a (w OR PTE_P OR PTE_PS)"
    using st(2) by (simp add: s'_def fun_eq_iff set_huge_def)
  show "huge (mem s') d (PDX x) \<longleftrightarrow> PDX x = PDX a \<or> huge (mem s) d (PDX x)"
    using st(4) by (simp add: s'_def)
qed

lemma map_huge_loop:
  assumes "aspace s d ps" "4194304 dvd unat a" "unat a + 4194304 * (n + 1) \<le> 4294967296" "n < k"
    and "unat last_a = unat a + 4194304 * n" "no_table (mem s) d a (n + 1)"
  shows "\<exists>s'. loop k (map_huge_step d perm last_a) (a, pa, s) = Ret (0, s') \<and> huge_step d ps s s' \<and>
    entry (mem s') d = map_huge_range (entry (mem s) d) a pa perm (n + 1) \<and>
    (\<forall>x. huge (mem s') d (PDX x) \<longleftrightarrow>
       huge (mem s) d (PDX x) \<or> unat a \<le> unat x \<and> unat x < unat a + 4194304 * (n + 1))"
  using assms
proof (induction n arbitrary: s a pa k)
  case (0 s a pa k)
  then have k: "k = Suc (k - 1)" and l: "last_a = a" by (auto simp: word_unat_eq_iff)
  have "tab (mem s) d (PDX a) = None" using 0(6) by (auto simp: no_table_def)
  note one = map_huge_one [OF 0(1) this refl, where w = "pa OR perm", unfolded or.assoc]
  show ?case
    using one PDX_page [OF 0(2)] l by (subst k) (auto simp: map_huge_step_def Let_def)
next
  case (Suc n s a pa k)
  obtain k' where k: "k = Suc k'" "n < k'" using Suc.prems(4) by (cases k) auto
  have u: "unat (a + HUGE_PAGE_SIZE) = unat a + 4194304"
    using Suc.prems(3) by (intro unat_huge_step [of _ "n + 1"]) auto
  have l: "a \<noteq> last_a" using Suc.prems(5) by auto
  have "tab (mem s) d (PDX a) = None" using Suc.prems(6) by (auto simp: no_table_def)
  note one = map_huge_one [OF Suc.prems(1) this refl, where w = "pa OR perm", unfolded or.assoc]
  define s1 where "s1 = s\<lparr>mem := store32 (mem s) (d + 4 * PDX a) (pa OR perm OR PTE_P OR PTE_PS)\<rparr>"
  note one = one [folded s1_def]
  have "no_table (mem s1) d (a + HUGE_PAGE_SIZE) (n + 1)"
    using Suc.prems(6) one(1) by (auto simp: no_table_def u huge_step_def)
  moreover have "aspace s1 d ps" using one(1) by (simp add: huge_step_def)
  ultimately have "\<exists>s'. loop k' (map_huge_step d perm last_a) (a + HUGE_PAGE_SIZE, pa + HUGE_PAGE_SIZE, s1) = Ret (0, s') \<and>
      huge_step d ps s1 s' \<and>
      entry (mem s') d = map_huge_range (entry (mem s1) d) (a + HUGE_PAGE_SIZE) (pa + HUGE_PAGE_SIZE) perm (n + 1) \<and>
      (\<forall>x. huge (mem s') d (PDX x) \<longleftrightarrow> huge (mem s1) d (PDX x) \<or>
         unat (a + HUGE_PAGE_SIZE) \<le> unat x \<and> unat x < unat (a + HUGE_PAGE_SIZE) + 4194304 * (n + 1))"
    using Suc.prems u k(2) by (intro Suc.IH) auto
  then obtain s' where s': "loop k' (map_huge_step d perm last_a) (a + HUGE_PAGE_SIZE, pa + HUGE_PAGE_SIZE, s1) = Ret (0, s')"
    "huge_step d ps s1 s'"
    "entry (mem s') d = map_huge_range (entry (mem s1) d) (a + HUGE_PAGE_SIZE) (pa + HUGE_PAGE_SIZE) perm (n + 1)"
    "\<And>x. huge (mem s') d (PDX x) \<longleftrightarrow> huge (mem s1) d (PDX x) \<or>
         unat a + 4194304 \<le> unat x \<and> unat x < unat a + 4194304 + 4194304 * (n + 1)"
    unfolding u by blast
  have "loop k (map_huge_step d perm last_a) (a, pa, s) = Ret (0, s')"
    using l s'(1) by (simp add: k map_huge_step_def s1_def)
  moreover have "entry (mem s') d = map_huge_range (entry (mem s) d) a pa perm (Suc n + 1)"
    using s'(3) one(2) by simp
  moreover have "huge (mem s') d (PDX x) \<longleftrightarrow>
      huge (mem s) d (PDX x) \<or> unat a \<le> unat x \<and> unat x < unat a + 4194304 * (Suc n + 1)" for x
    unfolding s'(4) one(3) PDX_page [OF Suc.prems(2)] by (cases "huge (mem s) d (PDX x)") (simp_all, linarith)
  ultimately show ?case using huge_step_trans [OF one(1) s'(2)] by blast
qed

lemma mappages_huge:
  assumes "aspace s d ps" "4194304 dvd unat va" "unat sz = 4194304 * n" "0 < n"
    and "unat va + 4194304 * n \<le> 4294967296" "HUGE_PAGE_START \<le> pa" "pa < HUGE_PAGE_END"
    and "no_table (mem s) d va n"
  shows "\<exists>s'. mappages d va sz pa perm s = Ret (0, s') \<and> huge_step d ps s s' \<and>
    entry (mem s') d = map_huge_span (entry (mem s) d) va pa perm n \<and>
    (\<forall>x. huge (mem s') d (PDX x) \<longleftrightarrow>
       huge (mem s) d (PDX x) \<or> unat va \<le> unat x \<and> unat x < unat va + 4194304 * n)"
proof -
  obtain k where n: "n = k + 1" using assms(4) by (cases n) auto
  have va: "HUGEPGROUNDDOWN va = va"
    using assms(2) by (simp add: word_unat_eq_iff unat_HUGEPGROUNDDOWN)
  have "unat (sz - 1) = 4194304 * n - 1"
    using assms(3,4) by (subst unat_minus_1) auto
  then have "unat (va + (sz - 1)) = unat va + (4194304 * n - 1)"
    using assms(4,5) by (subst unat_add_no_wrap) auto
  moreover have "va + (sz - 1) = va + sz - 1" by (rule add_diff_eq)
  ultimately have u: "unat (va + sz - 1) = unat va + 4194304 * k + 4194303" using n by simp
  obtain q where q: "unat va = 4194304 * q" using assms(2) by (elim dvdE)
  have last_a: "unat (HUGEPGROUNDDOWN (va + sz - 1)) = unat va + 4194304 * k"
    using mod_mult_self4 [of 4194304 "q + k" "4194303 :: nat"]
    unfolding unat_HUGEPGROUNDDOWN u q by (simp add: add_mult_distrib2)
  have "n < 1048576" using assms(5) by simp
  then have "\<exists>s'. loop all_pages (map_huge_step d perm (HUGEPGROUNDDOWN (va + sz - 1))) (va, pa, s) = Ret (0, s') \<and>
      huge_step d ps s s' \<and> entry (mem s') d = map_huge_range (entry (mem s) d) va pa perm (k + 1) \<and>
      (\<forall>x. huge (mem s') d (PDX x) \<longleftrightarrow>
         huge (mem s) d (PDX x) \<or> unat va \<le> unat x \<and> unat x < unat va + 4194304 * (k + 1))"
    using assms(5,8) n last_a by (intro map_huge_loop [OF assms(1,2)]) simp_all
  moreover have "mappages d va sz pa perm s =
      loop all_pages (map_huge_step d perm (HUGEPGROUNDDOWN (va + sz - 1))) (va, pa, s)"
    unfolding mappages_def va using assms(6,7) by simp
  ultimately show ?thesis using map_huge_range_span [OF assms(2,5)] by (simp only: n)
qed

text \<open>What the hardware makes of the abstract address space.\<close>

lemma xlate_entry:
  "xlate m d va =
     (if entry m d va AND PTE_P = 0 then None
      else if huge m d (PDX va) then Some (HUGEPGROUNDDOWN (entry m d va) OR (va AND 0x3FFFFF))
      else Some (PTE_ADDR (entry m d va) OR (va AND 0xFFF)))"
  by (auto simp: xlate_def entry_def huge_def tab_def Let_def)

lemma huge_iff:
  assumes "aspace s d ps" "unat i < 1024"
  shows "huge (mem s) d i \<longleftrightarrow> load32 (mem s) (d + 4 * i) AND PTE_PS \<noteq> 0"
  using aspaceD(8) [OF assms(1) _ assms(2)] by (auto simp: huge_def)

section \<open>Properties\<close>

text \<open>
  Claim C12. \<open>mappages\<close> on 4 KB pages, for a page-aligned range that is not mapped yet: it returns, and
  either returns 0 and every page of the range maps to the corresponding physical page with the
  permissions asked for, or it ran out of pages for page tables, returns -1 and has mapped a
  prefix of the range. All other pages keep their entries; the page directory stays well-formed, and
  pages leave the free list only to become its page tables.
\<close>

theorem mappages_maps_range:
  assumes "aspace s d ps" "4096 dvd unat va" "unat sz = 4096 * n" "0 < n"
    and "unat va + 4096 * n \<le> 4294967296" "\<not> (HUGE_PAGE_START \<le> pa \<and> pa < HUGE_PAGE_END)"
    and "unmapped (mem s) d va n"
  shows "\<exists>r s' ps' k. mappages d va sz pa perm s = Ret (r, s') \<and> vm_step d s ps s' ps' \<and>
    (r = 0 \<and> k = n \<or> r = - 1 \<and> k < n \<and> ps' = []) \<and>
    entry (mem s') d = map_span (entry (mem s) d) va pa perm k"
  using assms by (rule mappages_base)

theorem mappages_maps_range_witness:
  "\<exists>s d r s' k. aspace s d [] \<and> mappages d 0 PGSIZE 0x400000 (PTE_W OR PTE_U) s = Ret (r, s') \<and>
     entry (mem s') d = map_span (\<lambda>_. 0) 0 0x400000 (PTE_W OR PTE_U) k"
proof -
  have "kpage machine0 0x80200000" by (simp add: kpage_iff)
  then obtain s where "kpool s [0x80200000]"
    using base_pages.free_valid [of machine0 "[]"] by (auto simp: kpool_def)
  then obtain s1 where s1: "aspace s1 0x80200000 []" "entry (mem s1) 0x80200000 = (\<lambda>_. 0)"
    "unmapped (mem s1) 0x80200000 0 1"
    by (elim empty_space) (auto simp: unmapped_def)
  then show ?thesis
    using mappages_maps_range [OF s1(1) _ _ _ _ _ s1(3), of PGSIZE "0x400000" "PTE_W OR PTE_U"]
    by (simp add: word_less_nat_alt word_le_nat_alt) blast
qed

end
