(* ===== verification/Vm_Grow.thy ===== *)
theory Vm_Grow
  imports Vm_Space
begin

text \<open>
  Growing, shrinking and freeing a user address space made of 4 KB pages: \<open>allocuvm\<close>,
  \<open>deallocuvm\<close> and \<open>freevm\<close>. The invariant \<open>uspace\<close> adds to the page table's own well-formedness that
  every present user page has a frame of its own, which is a kernel page in no other use. Under it the
  operations neither lose nor share a page.
\<close>

section \<open>Frames\<close>

abbreviation (input) frame_of :: "u32 \<Rightarrow> u32" where "frame_of e \<equiv> P2V (PTE_ADDR e)"

definition present :: "memory \<Rightarrow> u32 \<Rightarrow> u32 \<Rightarrow> bool" where
  "present m d x \<longleftrightarrow> unat x < 0x80000000 \<and> \<not> huge m d (PDX x) \<and> entry m d x AND PTE_P \<noteq> 0"

definition frames :: "memory \<Rightarrow> u32 \<Rightarrow> u32 set" where
  "frames m d = {frame_of (entry m d x) | x. present m d x}"

definition uspace :: "machine \<Rightarrow> u32 \<Rightarrow> u32 list \<Rightarrow> bool" where
  "uspace s d ps \<longleftrightarrow> aspace s d ps \<and> KERNBASE < kend s \<and>
     (\<forall>f \<in> frames (mem s) d. kpage s f \<and> f \<notin> set ps \<and> f \<noteq> d \<and> f \<notin> tabs (mem s) d) \<and>
     (\<forall>x y. present (mem s) d x \<longrightarrow> present (mem s) d y \<longrightarrow>
        PTE_ADDR (entry (mem s) d x) = PTE_ADDR (entry (mem s) d y) \<longrightarrow> PGROUNDDOWN x = PGROUNDDOWN y) \<and>
     (\<forall>x. unat x < 0x80000000 \<longrightarrow> entry (mem s) d x AND PTE_P = 0 \<longrightarrow> entry (mem s) d x = 0)"

lemma uspaceD:
  assumes "uspace s d ps"
  shows "aspace s d ps" "KERNBASE < kend s" "f \<in> frames (mem s) d \<Longrightarrow> kpage s f"
    "f \<in> frames (mem s) d \<Longrightarrow> f \<notin> set ps" "f \<in> frames (mem s) d \<Longrightarrow> f \<noteq> d"
    "f \<in> frames (mem s) d \<Longrightarrow> f \<notin> tabs (mem s) d"
    "present (mem s) d x \<Longrightarrow> present (mem s) d y \<Longrightarrow>
       PTE_ADDR (entry (mem s) d x) = PTE_ADDR (entry (mem s) d y) \<Longrightarrow> PGROUNDDOWN x = PGROUNDDOWN y"
    "entry (mem s) d x AND PTE_P = 0 \<Longrightarrow> unat x < 0x80000000 \<Longrightarrow> entry (mem s) d x = 0"
  using assms unfolding uspace_def by blast+

lemma framesI: "present m d x \<Longrightarrow> frame_of (entry m d x) \<in> frames m d"
  by (auto simp: frames_def)

text \<open>All the pages of an address space: what is free, the tables, the frames, the directory.\<close>

definition pages :: "machine \<Rightarrow> u32 \<Rightarrow> u32 list \<Rightarrow> u32 set" where
  "pages s d ps = insert d (set ps \<union> tabs (mem s) d \<union> frames (mem s) d)"

lemma pages_kpage: "uspace s d ps \<Longrightarrow> p \<in> pages s d ps \<Longrightarrow> kpage s p"
  using aspace_pages [of s d ps p] uspaceD(1,3) by (auto simp: pages_def)

lemma kpage_pa_nonzero: "kpage s (P2V a) \<Longrightarrow> KERNBASE < kend s \<Longrightarrow> a \<noteq> 0"
  by (auto simp: kpage_def P2V_def)

section \<open>Freeing one page\<close>

lemma kfree_change:
  assumes "kpool s ps" "kpage s f" "f \<notin> set ps"
  obtains s' where "kfree f s = Ret s'" "kpool s' (f # ps)" "kframe {f} s s'"
proof -
  obtain s' where s': "kfree f s = Ret s'" "kpool s' (f # ps)" using kfree_pool [OF assms] by blast
  have "same_outside {f} (mem s) (store32 (memset (mem s) f 1 PGSIZE) (f + 4 * 0) w)" for w
    by (rule same_outside_trans [OF same_outside_memset same_outside_store]) auto
  then have "kframe {f} s s'"
    using s'(1) kfree_eq [OF kpoolD(1) [OF assms(1)] assms(2)] assms(2) by (auto simp: kframe_def)
  with s' that show ?thesis by blast
qed

lemma free_page:
  assumes "uspace s d ps" "present (mem s) d a" "tab (mem s) d (PDX a) = Some t"
  obtains s' where "kfree (frame_of (entry (mem s) d a)) s = Ret s'"
    "uspace (s'\<lparr>mem := store32 (mem s') (t + 4 * PTX a) 0\<rparr>) d (frame_of (entry (mem s) d a) # ps)"
    "entry (store32 (mem s') (t + 4 * PTX a) 0) d = set_entry (entry (mem s) d) a 0"
    "kframe {frame_of (entry (mem s) d a), t} s (s'\<lparr>mem := store32 (mem s') (t + 4 * PTX a) 0\<rparr>)"
    "tabs (store32 (mem s') (t + 4 * PTX a) 0) d = tabs (mem s) d"
    "\<And>i. unat i < 1024 \<Longrightarrow> huge (store32 (mem s') (t + 4 * PTX a) 0) d i = huge (mem s) d i"
proof -
  let ?f = "frame_of (entry (mem s) d a)"
  have f: "kpage s ?f" "?f \<notin> set ps" "?f \<noteq> d" "?f \<notin> tabs (mem s) d"
    using uspaceD(3-6) [OF assms(1) framesI [OF assms(2)]] .
  note A = uspaceD(1) [OF assms(1)]
  obtain s1 where s1: "kfree ?f s = Ret s1" "kpool s1 (?f # ps)" "kframe {?f} s s1"
    using kfree_change [OF aspaceD(1) [OF A] f(1,2)] .
  have kp: "kpage s1 = kpage s" using kframeD(8) [OF s1(3)] .
  have side: "\<forall>p \<in> {?f}. kpage s p" "d \<notin> {?f}" "{?f} \<inter> tabs (mem s) d = {}" "d \<notin> set (?f # ps)"
    "set (?f # ps) \<inter> tabs (mem s) d = {}"
    using f aspaceD(3) [OF A] aspace_tabs_free [OF A] by auto
  note ch = aspace_change [OF A kframeD(1) [OF s1(3)] side(1) kp side(2,3) s1(2) side(4,5)]
  define m2 where "m2 = store32 (mem s1) (t + 4 * PTX a) 0"
  have t: "tab (mem s1) d (PDX a) = Some t" using ch(4) assms(3) by simp
  note st = vm_step_store_pte [OF ch(1) t, of 0, folded m2_def]
  have en: "entry m2 d = set_entry (entry (mem s) d) a 0" using st(2) ch(2) by simp
  have hu: "huge m2 d i = huge (mem s) d i" if "unat i < 1024" for i
    using vm_stepD(5) [OF st(1) that] ch(5) [OF that] by simp
  have fr: "kframe {?f, t} s (s1\<lparr>mem := m2\<rparr>)"
    using same_outside_store [OF PTX_less, of t "mem s1" a 0] f(1) aspaceD(4) [OF A assms(3)] kp
    by (intro kframe_trans [OF s1(3) kframe_mem [of "{t}"]]) (auto simp: m2_def)
  have pr: "present m2 d x \<longleftrightarrow> present (mem s) d x \<and> PGROUNDDOWN x \<noteq> PGROUNDDOWN a" for x
    by (auto simp: present_def hu en set_entry_def)
  have frames: "frames m2 d \<subseteq> frames (mem s) d - {?f}"
  proof
    fix g assume "g \<in> frames m2 d"
    then obtain x where x: "g = frame_of (entry m2 d x)" "present (mem s) d x" "PGROUNDDOWN x \<noteq> PGROUNDDOWN a"
      by (auto simp: frames_def pr)
    then have "entry m2 d x = entry (mem s) d x" by (simp add: en set_entry_def)
    then show "g \<in> frames (mem s) d - {?f}"
      using x framesI [OF x(2)] uspaceD(7) [OF assms(1) x(2) assms(2)] by (auto simp: P2V_inject)
  qed
  have tabs: "tabs m2 d = tabs (mem s) d"
    using aspace_store_pte(3) [OF ch(1) t m2_def] ch(4) by (auto simp: tabs_def)
  have "uspace (s1\<lparr>mem := m2\<rparr>) d (?f # ps)"
    unfolding uspace_def
  proof (intro conjI ballI allI impI)
    show "aspace (s1\<lparr>mem := m2\<rparr>) d (?f # ps)" using vm_stepD(1) [OF st(1)] .
    show "KERNBASE < kend (s1\<lparr>mem := m2\<rparr>)" using uspaceD(2) [OF assms(1)] kframeD(4) [OF s1(3)] by simp
  next
    fix g assume "g \<in> frames (mem (s1\<lparr>mem := m2\<rparr>)) d"
    then have g: "g \<in> frames (mem s) d" "g \<noteq> ?f" using frames by auto
    show "kpage (s1\<lparr>mem := m2\<rparr>) g" "g \<notin> set (?f # ps)" "g \<noteq> d" "g \<notin> tabs (mem (s1\<lparr>mem := m2\<rparr>)) d"
      using uspaceD(3-6) [OF assms(1) g(1)] g(2) kp tabs by auto
  next
    fix x y assume "present (mem (s1\<lparr>mem := m2\<rparr>)) d x" "present (mem (s1\<lparr>mem := m2\<rparr>)) d y"
      "PTE_ADDR (entry (mem (s1\<lparr>mem := m2\<rparr>)) d x) = PTE_ADDR (entry (mem (s1\<lparr>mem := m2\<rparr>)) d y)"
    then show "PGROUNDDOWN x = PGROUNDDOWN y"
      using uspaceD(7) [OF assms(1), of x y] by (simp add: pr en set_entry_def)
  next
    fix x :: u32 assume "unat x < 0x80000000" "entry (mem (s1\<lparr>mem := m2\<rparr>)) d x AND PTE_P = 0"
    then show "entry (mem (s1\<lparr>mem := m2\<rparr>)) d x = 0"
      using uspaceD(8) [OF assms(1), of x] by (simp add: en set_entry_def split: if_splits)
  qed
  then show ?thesis using that [of s1] s1(1) en fr tabs hu unfolding m2_def by blast
qed

section \<open>deallocuvm\<close>

text \<open>Unmapping the present pages from \<open>lo\<close> (a page boundary) up to the page that holds \<open>hi - 1\<close>.\<close>

definition in_span :: "nat \<Rightarrow> nat \<Rightarrow> u32 \<Rightarrow> bool" where
  "in_span lo hi x \<longleftrightarrow> lo \<le> unat x \<and> unat (PGROUNDDOWN x) < hi"

definition unmap :: "(u32 \<Rightarrow> u32) \<Rightarrow> nat \<Rightarrow> nat \<Rightarrow> u32 \<Rightarrow> u32" where
  "unmap e lo hi = (\<lambda>x. if in_span lo hi x \<and> e x AND PTE_P \<noteq> 0 then 0 else e x)"

definition freed :: "(u32 \<Rightarrow> u32) \<Rightarrow> nat \<Rightarrow> nat \<Rightarrow> u32 set" where
  "freed e lo hi = {frame_of (e x) | x. in_span lo hi x \<and> e x AND PTE_P \<noteq> 0}"

lemma entry_page: "PGROUNDDOWN x = PGROUNDDOWN y \<Longrightarrow> entry m d x = entry m d y"
  by (auto simp: entry_def page_eq_iff split: option.split)

lemma span_end:
  assumes "4096 dvd unat a" "\<not> unat a < hi"
  shows "unmap e (unat a) hi = e" "freed e (unat a) hi = {}"
proof -
  have "\<not> in_span (unat a) hi x" for x
  proof -
    have "unat a \<le> unat x \<Longrightarrow> unat a \<le> unat (PGROUNDDOWN x)"
      using assms(1) by (auto simp: unat_PGROUNDDOWN minus_mod_eq_div_mult elim!: dvdE)
    then show ?thesis using assms(2) by (auto simp: in_span_def)
  qed
  then show "unmap e (unat a) hi = e" "freed e (unat a) hi = {}"
    by (simp_all add: unmap_def freed_def)
qed

lemma span_skip:
  assumes "\<And>x. lo \<le> unat x \<Longrightarrow> unat x < lo' \<Longrightarrow> e x AND PTE_P = 0" "lo \<le> lo'"
  shows "unmap e lo hi = unmap e lo' hi" "freed e lo hi = freed e lo' hi"
proof -
  have "in_span lo hi x \<and> e x AND PTE_P \<noteq> 0 \<longleftrightarrow> in_span lo' hi x \<and> e x AND PTE_P \<noteq> 0" for x
    using assms by (auto simp: in_span_def not_less [symmetric])
  then show "unmap e lo hi = unmap e lo' hi" "freed e lo hi = freed e lo' hi"
    by (simp_all add: unmap_def freed_def)
qed

lemma span_here:
  assumes "4096 dvd unat a" "unat a < hi" "e a AND PTE_P \<noteq> 0"
    and "\<And>x. PGROUNDDOWN x = PGROUNDDOWN a \<Longrightarrow> e x = e a"
  shows "unmap (set_entry e a 0) (unat a + 4096) hi = unmap e (unat a) hi"
    "freed e (unat a) hi = insert (frame_of (e a)) (freed (set_entry e a 0) (unat a + 4096) hi)"
proof -
  note page = PGROUNDDOWN_page [OF assms(1)]
  have a: "PGROUNDDOWN a = a" using assms(1) by (simp add: word_unat_eq_iff unat_PGROUNDDOWN)
  have here: "in_span (unat a) hi x \<longleftrightarrow> PGROUNDDOWN x = PGROUNDDOWN a \<or> in_span (unat a + 4096) hi x" for x
    using page [of x] a assms(2) by (auto simp: in_span_def)
  have not: "\<not> in_span (unat a + 4096) hi x" if "PGROUNDDOWN x = PGROUNDDOWN a" for x
    using that page [of x] by (auto simp: in_span_def)
  show "unmap (set_entry e a 0) (unat a + 4096) hi = unmap e (unat a) hi"
  proof
    fix x
    show "unmap (set_entry e a 0) (unat a + 4096) hi x = unmap e (unat a) hi x"
      using assms(3) assms(4) [of x] not [of x]
      by (cases "PGROUNDDOWN x = PGROUNDDOWN a") (simp_all add: unmap_def set_entry_def here)
  qed
  show "freed e (unat a) hi = insert (frame_of (e a)) (freed (set_entry e a 0) (unat a + 4096) hi)"
  proof (intro set_eqI iffI)
    fix f assume "f \<in> freed e (unat a) hi"
    then obtain x where x: "f = frame_of (e x)" "in_span (unat a) hi x" "e x AND PTE_P \<noteq> 0"
      by (auto simp: freed_def)
    then show "f \<in> insert (frame_of (e a)) (freed (set_entry e a 0) (unat a + 4096) hi)"
      using assms(4) [of x]
      by (cases "PGROUNDDOWN x = PGROUNDDOWN a") (auto simp: freed_def set_entry_def here)
  next
    fix f assume "f \<in> insert (frame_of (e a)) (freed (set_entry e a 0) (unat a + 4096) hi)"
    then consider "f = frame_of (e a)"
      | x where "f = frame_of (set_entry e a 0 x)" "in_span (unat a + 4096) hi x" "set_entry e a 0 x AND PTE_P \<noteq> 0"
      by (auto simp: freed_def)
    then show "f \<in> freed e (unat a) hi"
    proof cases
      case 1
      then show ?thesis using assms(3) by (auto simp: freed_def here)
    next
      case (2 x)
      then have "PGROUNDDOWN x \<noteq> PGROUNDDOWN a" using not [of x] by blast
      with 2 show ?thesis by (auto simp: freed_def here set_entry_def)
    qed
  qed
qed

text \<open>Where there is no page table the loop steps to the next 4 MB.\<close>

lemma next_table:
  assumes "unat a < 0x80000000"
  shows "unat (PGADDR (PDX a + 1) 0 0) = unat a div 4194304 * 4194304 + 4194304"
    "unat a + 4096 \<le> unat (PGADDR (PDX a + 1) 0 0) \<or> \<not> 4096 dvd unat a"
    "unat (PGADDR (PDX a + 1) 0 0) \<le> 0x80000000" "4096 dvd unat (PGADDR (PDX a + 1) 0 0)"
    "unat a \<le> unat x \<Longrightarrow> unat x < unat (PGADDR (PDX a + 1) 0 0) \<Longrightarrow> PDX x = PDX a"
proof -
  have d: "unat a div 4194304 < 512" using assms by (simp add: less_mult_imp_div_less)
  then have "unat (PDX a + 1) = unat a div 4194304 + 1"
    by (subst unat_add_no_wrap) (simp_all add: unat_PDX)
  then show u: "unat (PGADDR (PDX a + 1) 0 0) = unat a div 4194304 * 4194304 + 4194304"
    using d by (subst unat_PGADDR) auto
  show "unat (PGADDR (PDX a + 1) 0 0) \<le> 0x80000000" unfolding u using d by simp
  show dvd: "4096 dvd unat (PGADDR (PDX a + 1) 0 0)" unfolding u by simp
  have lt: "unat a < unat (PGADDR (PDX a + 1) 0 0)" unfolding u
    using div_mult_mod_eq [of "unat a" 4194304] mod_less_divisor [of 4194304 "unat a"] by linarith
  then show "unat a + 4096 \<le> unat (PGADDR (PDX a + 1) 0 0) \<or> \<not> 4096 dvd unat a"
    using dvd by (auto intro: dvd_less_room)
  show "PDX x = PDX a" if "unat a \<le> unat x" "unat x < unat (PGADDR (PDX a + 1) 0 0)"
  proof -
    have "unat x div 4194304 = unat a div 4194304"
    proof (rule antisym)
      show "unat a div 4194304 \<le> unat x div 4194304" using that(1) by (rule div_le_mono)
      have "unat x < Suc (unat a div 4194304) * 4194304" using that(2) unfolding u by simp
      then show "unat x div 4194304 \<le> unat a div 4194304"
        by (metis less_Suc_eq_le less_mult_imp_div_less)
    qed
    then show ?thesis by (simp add: word_unat_eq_iff unat_PDX)
  qed
qed

lemma dealloc_base_step:
  assumes "uspace s d ps" "a < oldsz" "unat oldsz \<le> 0x80000000" "\<not> huge (mem s) d (PDX a)"
  obtains (skip) "dealloc_step d oldsz newsz (a, s) = Ret (Inl (PGADDR (PDX a + 1) 0 0, s))"
      "tab (mem s) d (PDX a) = None"
  | (absent) "dealloc_step d oldsz newsz (a, s) = Ret (Inl (a + PGSIZE, s))" "entry (mem s) d a AND PTE_P = 0"
  | (freed) s' where "dealloc_step d oldsz newsz (a, s) = Ret (Inl (a + PGSIZE, s'))"
      "entry (mem s) d a AND PTE_P \<noteq> 0" "present (mem s) d a"
      "uspace s' d (frame_of (entry (mem s) d a) # ps)"
      "entry (mem s') d = set_entry (entry (mem s) d) a 0"
      "kframe (insert (frame_of (entry (mem s) d a)) (tabs (mem s) d)) s s'" "tabs (mem s') d = tabs (mem s) d"
      "\<And>i. unat i < 1024 \<Longrightarrow> huge (mem s') d i = huge (mem s) d i"
proof -
  note A = uspaceD(1) [OF assms(1)]
  have ps: "load32 (mem s) (d + 4 * PDX a) AND PTE_PS = 0"
    using assms(4) huge_iff [OF A PDX_less [of a]] by blast
  show ?thesis
  proof (cases "tab (mem s) d (PDX a)")
    case None
    then have "dealloc_step d oldsz newsz (a, s) = Ret (Inl (PGADDR (PDX a + 1) 0 0, s))"
      using walkpgdir_none(1) [OF None assms(4)] assms(2) ps by (simp add: dealloc_step_def)
    with None skip show ?thesis by blast
  next
    case (Some t)
    note w = walkpgdir_found [OF Some, of False]
    have e: "load32 (mem s) (t + 4 * PTX a) = entry (mem s) d a" using Some assms(4) by (simp add: entry_def)
    have nz: "t + 4 * PTX a \<noteq> 0" using slot_nonzero [OF aspaceD(4) [OF A Some PDX_less]] .
    show ?thesis
    proof (cases "entry (mem s) d a AND PTE_P = 0")
      case True
      with absent w nz assms(2) ps e show ?thesis by (simp add: dealloc_step_def)
    next
      case False
      then have pr: "present (mem s) d a"
        using assms(2-4) by (simp add: present_def word_less_nat_alt)
      obtain s1 where s1: "kfree (frame_of (entry (mem s) d a)) s = Ret s1"
        "uspace (s1\<lparr>mem := store32 (mem s1) (t + 4 * PTX a) 0\<rparr>) d (frame_of (entry (mem s) d a) # ps)"
        "entry (store32 (mem s1) (t + 4 * PTX a) 0) d = set_entry (entry (mem s) d) a 0"
        "kframe {frame_of (entry (mem s) d a), t} s (s1\<lparr>mem := store32 (mem s1) (t + 4 * PTX a) 0\<rparr>)"
        "tabs (store32 (mem s1) (t + 4 * PTX a) 0) d = tabs (mem s) d"
        "\<And>i. unat i < 1024 \<Longrightarrow> huge (store32 (mem s1) (t + 4 * PTX a) 0) d i = huge (mem s) d i"
        using free_page [OF assms(1) pr Some] by blast
      have "PTE_ADDR (entry (mem s) d a) \<noteq> 0"
        using kpage_pa_nonzero [OF uspaceD(3) [OF assms(1) framesI [OF pr]] uspaceD(2) [OF assms(1)]] .
      then have "dealloc_step d oldsz newsz (a, s) =
          Ret (Inl (a + PGSIZE, s1\<lparr>mem := store32 (mem s1) (t + 4 * PTX a) 0\<rparr>))"
        using w nz assms(2) ps e False s1(1) by (simp add: dealloc_step_def Let_def)
      moreover have "kframe (insert (frame_of (entry (mem s) d a)) (tabs (mem s) d)) s
          (s1\<lparr>mem := store32 (mem s1) (t + 4 * PTX a) 0\<rparr>)"
        using framesI [OF pr] tabsI [OF Some PDX_less] pages_kpage [OF assms(1)]
        by (intro kframe_mono [OF s1(4)]) (auto simp: pages_def)
      ultimately show ?thesis using freed False pr s1(2,3,5,6) by simp
    qed
  qed
qed

definition shrunk :: "u32 \<Rightarrow> machine \<Rightarrow> u32 list \<Rightarrow> machine \<Rightarrow> u32 list \<Rightarrow> nat \<Rightarrow> nat \<Rightarrow> bool" where
  "shrunk d s ps s' ps' lo hi \<longleftrightarrow> uspace s' d ps' \<and>
     entry (mem s') d = unmap (entry (mem s) d) lo hi \<and>
     set ps' = set ps \<union> freed (entry (mem s) d) lo hi \<and>
     tabs (mem s') d = tabs (mem s) d \<and>
     (\<forall>i. unat i < 1024 \<longrightarrow> huge (mem s') d i = huge (mem s) d i) \<and>
     kframe (freed (entry (mem s) d) lo hi \<union> tabs (mem s) d) s s'"

lemma shrunk_refl:
  assumes "uspace s d ps" "4096 dvd unat a" "\<not> unat a < hi"
  shows "shrunk d s ps s ps (unat a) hi"
  using assms pages_kpage [OF assms(1)]
  by (auto simp: shrunk_def span_end pages_def intro: kframe_mono [OF kframe_refl])

lemma shrunk_skip:
  assumes "shrunk d s ps s' ps' lo' hi" "lo \<le> lo'"
    and "\<And>x. lo \<le> unat x \<Longrightarrow> unat x < lo' \<Longrightarrow> entry (mem s) d x AND PTE_P = 0"
  shows "shrunk d s ps s' ps' lo hi"
  using assms(1) span_skip [OF assms(3,2)] by (simp add: shrunk_def)

lemma shrunk_here:
  assumes "shrunk d s1 (frame_of (entry (mem s) d a) # ps) s' ps' (unat a + 4096) hi"
    and "4096 dvd unat a" "unat a < hi" "entry (mem s) d a AND PTE_P \<noteq> 0"
    and "entry (mem s1) d = set_entry (entry (mem s) d) a 0"
    and "kframe (insert (frame_of (entry (mem s) d a)) (tabs (mem s) d)) s s1" "tabs (mem s1) d = tabs (mem s) d"
    and hu: "\<And>i. unat i < 1024 \<Longrightarrow> huge (mem s1) d i = huge (mem s) d i"
  shows "shrunk d s ps s' ps' (unat a) hi"
proof -
  note here = span_here [where e = "entry (mem s) d", OF assms(2-4) entry_page [of _ a]]
  have k: "kframe (freed (entry (mem s1) d) (unat a + 4096) hi \<union> tabs (mem s1) d) s1 s'"
    using assms(1) by (simp add: shrunk_def)
  have "kframe (freed (entry (mem s) d) (unat a) hi \<union> tabs (mem s) d) s s'"
    using kframeD(2) [OF k] kframeD(2,8) [OF assms(6)] here(2) assms(5,7)
    by (intro kframe_trans [OF assms(6) k]) auto
  then show ?thesis
    using assms(1,5,7) hu here by (auto simp: shrunk_def)
qed

lemma dealloc_loop:
  assumes "uspace s d ps" "4096 dvd unat a" "unat oldsz \<le> 0x80000000"
    and "unat a \<le> 0x80000000" "(unat oldsz + 4095 - unat a) div 4096 < k"
    and "\<And>x. in_span (unat a) (unat oldsz) x \<Longrightarrow> \<not> huge (mem s) d (PDX x)"
  shows "\<exists>s' ps'. loop k (dealloc_step d oldsz newsz) (a, s) = Ret (newsz, s') \<and>
    shrunk d s ps s' ps' (unat a) (unat oldsz)"
  using assms
proof (induction k arbitrary: s ps a)
  case 0
  then show ?case by simp
next
  case (Suc k)
  show ?case
  proof (cases "a < oldsz")
    case False
    then have "loop (Suc k) (dealloc_step d oldsz newsz) (a, s) = Ret (newsz, s)"
      by (simp add: dealloc_step_def)
    with shrunk_refl [OF Suc.prems(1,2)] False show ?thesis by (auto simp: word_less_nat_alt)
  next
    case True
    then have lt: "unat a < unat oldsz" by (simp add: word_less_nat_alt)
    have "PGROUNDDOWN a = a" using Suc.prems(2) by (simp add: word_unat_eq_iff unat_PGROUNDDOWN)
    then have "\<not> huge (mem s) d (PDX a)" using Suc.prems(6) [of a] lt by (simp add: in_span_def)
    have u: "unat (a + PGSIZE) = unat a + 4096"
      using lt Suc.prems(3) by (subst unat_add_no_wrap) auto
    have up: "4096 dvd unat (a + PGSIZE)" "unat (a + PGSIZE) \<le> 0x80000000"
      unfolding u using Suc.prems(2,3) lt dvd_less_room [of 4096 "unat a" "0x80000000"] by auto
    have fuel: "(unat oldsz + 4095 - b) div 4096 < k" if "unat a + 4096 \<le> b" for b
    proof -
      have "Suc ((unat oldsz + 4095 - b) div 4096) \<le> Suc ((unat oldsz + 4095 - unat a - 4096) div 4096)"
        using that by (intro Suc_le_mono [THEN iffD2] div_le_mono) simp
      also have "\<dots> = (unat oldsz + 4095 - unat a) div 4096"
        using lt by (intro le_div_geq [symmetric]) auto
      finally show ?thesis using Suc.prems(5) by simp
    qed
    from Suc.prems(1) True Suc.prems(3) \<open>\<not> huge (mem s) d (PDX a)\<close> show ?thesis
    proof (cases rule: dealloc_base_step [where newsz = newsz])
      case skip
      let ?b = "PGADDR (PDX a + 1) 0 0"
      have nt: "unat a + 4096 \<le> unat ?b" "unat ?b \<le> 0x80000000" "4096 dvd unat ?b"
        "\<And>x. unat a \<le> unat x \<Longrightarrow> unat x < unat ?b \<Longrightarrow> PDX x = PDX a"
        using next_table(2-5) [of a] Suc.prems(2) less_le_trans [OF lt Suc.prems(3)] by blast+
      have "\<exists>s' ps'. loop k (dealloc_step d oldsz newsz) (?b, s) = Ret (newsz, s') \<and>
          shrunk d s ps s' ps' (unat ?b) (unat oldsz)"
        using Suc.prems(6) nt(1) by (intro Suc.IH Suc.prems(1,3) nt(2,3) fuel) (simp_all add: in_span_def)
      moreover have "entry (mem s) d x AND PTE_P = 0" if "unat a \<le> unat x" "unat x < unat ?b" for x
        using nt(4) [OF that] skip(2) \<open>\<not> huge (mem s) d (PDX a)\<close> by (simp add: entry_def)
      ultimately show ?thesis
        using shrunk_skip [of d s ps _ _ "unat ?b" "unat oldsz" "unat a"] nt(1) skip(1) by fastforce
    next
      case absent
      have "\<exists>s' ps'. loop k (dealloc_step d oldsz newsz) (a + PGSIZE, s) = Ret (newsz, s') \<and>
          shrunk d s ps s' ps' (unat (a + PGSIZE)) (unat oldsz)"
        using Suc.prems(6) u by (intro Suc.IH Suc.prems(1,3) up fuel) (simp_all add: in_span_def)
      moreover have "entry (mem s) d x AND PTE_P = 0" if "unat a \<le> unat x" "unat x < unat (a + PGSIZE)" for x
        using entry_page [of x a "mem s" d] PGROUNDDOWN_page [OF Suc.prems(2), of x] that u absent(2) by simp
      ultimately show ?thesis
        using shrunk_skip [of d s ps _ _ "unat (a + PGSIZE)" "unat oldsz" "unat a"] u absent(1) by fastforce
    next
      case (freed s1)
      have "\<exists>s' ps'. loop k (dealloc_step d oldsz newsz) (a + PGSIZE, s1) = Ret (newsz, s') \<and>
          shrunk d s1 (frame_of (entry (mem s) d a) # ps) s' ps' (unat (a + PGSIZE)) (unat oldsz)"
        using Suc.prems(6) freed(8) u
        by (intro Suc.IH Suc.prems(3) freed(4) up fuel) (simp_all add: in_span_def)
      then show ?thesis
        using shrunk_here [OF _ Suc.prems(2) lt freed(2) freed(5-8)] freed(1) u by fastforce
    qed
  qed
qed

lemma PDX_PGROUNDDOWN [simp]: "PDX (PGROUNDDOWN x) = PDX x"
proof -
  have "PGROUNDDOWN (PGROUNDDOWN x) = PGROUNDDOWN x"
    by (simp add: word_unat_eq_iff unat_PGROUNDDOWN minus_mod_eq_div_mult)
  then show ?thesis by (simp add: page_eq_iff)
qed

lemma deallocuvm_base:
  assumes "uspace s d ps" "newsz < oldsz" "unat oldsz \<le> 0x80000000"
    and "\<And>x. newsz \<le> x \<Longrightarrow> x < oldsz \<Longrightarrow> \<not> huge (mem s) d (PDX x)"
  shows "\<exists>s' ps'. deallocuvm d oldsz newsz s = Ret (newsz, s') \<and>
    shrunk d s ps s' ps' (unat (PGROUNDUP newsz)) (unat oldsz)"
proof -
  have lt: "unat newsz < unat oldsz" using assms(2) by (simp add: word_less_nat_alt)
  have up: "4096 dvd unat (PGROUNDUP newsz)" "unat newsz \<le> unat (PGROUNDUP newsz)"
    "unat (PGROUNDUP newsz) < unat newsz + 4096"
    using lt assms(3) by (auto intro!: PGROUNDUP_props)
  have nh: "\<not> huge (mem s) d (PDX x)" if "in_span (unat (PGROUNDUP newsz)) (unat oldsz) x" for x
  proof -
    have "unat (PGROUNDUP newsz) \<le> unat (PGROUNDDOWN x)"
      using that up(1) by (auto simp: in_span_def unat_PGROUNDDOWN minus_mod_eq_div_mult elim!: dvdE)
    then show ?thesis
      using assms(4) [of "PGROUNDDOWN x"] that up(2)
      by (simp add: in_span_def word_le_nat_alt word_less_nat_alt)
  qed
  have le: "unat (PGROUNDUP newsz) \<le> 0x80000000"
    using dvd_less_room [OF up(1), of "0x80000000 + 4096"] up(3) lt assms(3)
    by (auto intro: ccontr)
  have fuel: "(unat oldsz + 4095 - unat (PGROUNDUP newsz)) div 4096 < all_pages"
    using assms(3) by (intro less_mult_imp_div_less) simp
  have "load32 (mem s) (d + 4 * PDX newsz) AND PTE_PS = 0"
    using assms(2) assms(4) [of newsz] huge_iff [OF uspaceD(1) [OF assms(1)] PDX_less [of newsz]] by auto
  then have "deallocuvm d oldsz newsz s = loop all_pages (dealloc_step d oldsz newsz) (PGROUNDUP newsz, s)"
    using assms(2) by (simp add: deallocuvm_def not_le [symmetric])
  then show ?thesis
    using dealloc_loop [OF assms(1) up(1) assms(3) le fuel nh] by simp
qed

section \<open>freevm\<close>

lemma freevm_tables_frees:
  assumes "kpool s ps" "kpage s d" "d \<notin> set ps" "distinct is" "\<And>i. i \<in> set is \<Longrightarrow> unat i < 1024"
    and "\<And>i t. i \<in> set is \<Longrightarrow> tab (mem s) d i = Some t \<Longrightarrow> kpage s t \<and> t \<noteq> d \<and> t \<notin> set ps"
    and "\<And>i j t. i \<in> set is \<Longrightarrow> j \<in> set is \<Longrightarrow> tab (mem s) d i = Some t \<Longrightarrow> tab (mem s) d j = Some t \<Longrightarrow> i = j"
  shows "\<exists>s' ps'. freevm_tables d is s = Ret s' \<and> kpool s' ps' \<and>
    set ps' = set ps \<union> {t. \<exists>i \<in> set is. tab (mem s) d i = Some t} \<and>
    kframe {t. \<exists>i \<in> set is. tab (mem s) d i = Some t} s s'"
  using assms
proof (induction "is" arbitrary: s ps)
  case Nil
  then show ?case by auto
next
  case (Cons i "is")
  let ?T = "\<lambda>s js. {t. \<exists>j \<in> set js. tab (mem s) d j = Some t}"
  show ?case
  proof (cases "tab (mem s) d i")
    case None
    have "\<exists>s' ps'. freevm_tables d is s = Ret s' \<and> kpool s' ps' \<and> set ps' = set ps \<union> ?T s is \<and>
        kframe (?T s is) s s'"
      using Cons.prems by (intro Cons.IH) auto
    moreover have "freevm_tables d (i # is) s = freevm_tables d is s"
      using None by (auto simp: tab_def Let_def split: if_splits)
    moreover have "?T s (i # is) = ?T s is" using None by auto
    ultimately show ?thesis by simp
  next
    case (Some t)
    then have t: "kpage s t" "t \<noteq> d" "t \<notin> set ps" using Cons.prems(6) by auto
    obtain s1 where s1: "kfree t s = Ret s1" "kpool s1 (t # ps)" "kframe {t} s s1"
      using kfree_change [OF Cons.prems(1) t(1,3)] .
    have kp: "kpage s1 = kpage s" using kframeD(8) [OF s1(3)] .
    have tab: "tab (mem s1) d j = tab (mem s) d j" if "unat j < 1024" for j
      using load32_same_outside [OF kframeD(1,2) [OF s1(3)] Cons.prems(2) _ that] t(2)
      by (simp add: tab_def)
    have T: "?T s1 is = ?T s is" using tab Cons.prems(5) by auto
    have "\<exists>s' ps'. freevm_tables d is s1 = Ret s' \<and> kpool s' ps' \<and> set ps' = set (t # ps) \<union> ?T s1 is \<and>
        kframe (?T s1 is) s1 s'"
    proof (rule Cons.IH [OF s1(2)])
      show "kpage s1 d" "d \<notin> set (t # ps)" "distinct is" using kp t Cons.prems(2-4) by auto
      fix j assume j: "j \<in> set is"
      then show "unat j < 1024" using Cons.prems(5) by auto
      fix u assume u: "tab (mem s1) d j = Some u"
      then have u': "tab (mem s) d j = Some u" using tab Cons.prems(5) j by auto
      then have "u \<noteq> t" using Cons.prems(4) Cons.prems(7) [of i j t] Some j by auto
      with Cons.prems(6) [of j u] u' j kp show "kpage s1 u \<and> u \<noteq> d \<and> u \<notin> set (t # ps)" by auto
      fix k assume "k \<in> set is" "tab (mem s1) d k = Some u"
      then show "j = k" using Cons.prems(7) [of j k u] u' tab Cons.prems(5) [of k] j by simp
    qed
    then obtain s' ps' where s': "freevm_tables d is s1 = Ret s'" "kpool s' ps'"
      "set ps' = set (t # ps) \<union> ?T s is" "kframe (?T s is) s1 s'"
      unfolding T by blast
    have "freevm_tables d (i # is) s = Ret s'"
      using Some s1(1) s'(1) by (auto simp: tab_def Let_def split: if_splits)
    moreover have T': "?T s (i # is) = insert t (?T s is)" using Some by auto
    moreover have "kframe (?T s (i # is)) s s'"
      using Cons.prems(6) t(1) unfolding T' by (intro kframe_trans [OF s1(3) s'(4)]) auto
    ultimately show ?thesis using s'(2,3) by auto
  qed
qed

lemma dir_not_tab: "aspace s d ps \<Longrightarrow> d \<notin> tabs (mem s) d"
  by (auto elim!: tabsE dest: aspaceD(5))

lemma freed_all:
  assumes "\<And>x. unat x < 0x80000000 \<Longrightarrow> \<not> huge m d (PDX x)"
  shows "freed (entry m d) 0 0x80000000 = frames m d"
proof -
  have "unat (PGROUNDDOWN x) < 0x80000000 \<longleftrightarrow> unat x < 0x80000000" for x
    using dvd_less_room [of 4096 "unat (PGROUNDDOWN x)" "0x80000000"]
    by (auto simp: unat_PGROUNDDOWN minus_mod_eq_div_mult intro: le_less_trans)
  then show ?thesis using assms by (auto simp: freed_def frames_def present_def in_span_def)
qed

lemma index_list:
  "set (map of_nat [0..<NPDENTRIES]) = {i :: u32. unat i < 1024}" "distinct (map of_nat [0..<NPDENTRIES] :: u32 list)"
proof -
  have *: "unat (of_nat k :: u32) = k" if "k < 1024" for k using that by (intro add_word_of_nat) simp
  show "set (map of_nat [0..<NPDENTRIES]) = {i :: u32. unat i < 1024}"
  proof (intro set_eqI iffI)
    fix i :: u32 assume "i \<in> {i. unat i < 1024}"
    then have "unat i \<in> set [0..<NPDENTRIES]" "of_nat (unat i) = i" by auto
    then show "i \<in> set (map of_nat [0..<NPDENTRIES])" unfolding set_map by (metis image_eqI)
  qed (auto simp: *)
  have "inj_on (of_nat :: nat \<Rightarrow> u32) {0..<1024}"
    by (rule inj_on_inverseI [where g = unat]) (simp add: *)
  then show "distinct (map of_nat [0..<NPDENTRIES] :: u32 list)" by (simp add: distinct_map)
qed

lemma freevm_base:
  assumes "uspace s d ps" "\<And>x. unat x < 0x80000000 \<Longrightarrow> \<not> huge (mem s) d (PDX x)"
  shows "\<exists>s' ps'. freevm d s = Ret s' \<and> kpool s' ps' \<and> set ps' = pages s d ps \<and>
    kframe (insert d (frames (mem s) d \<union> tabs (mem s) d)) s s'"
proof -
  have "d \<noteq> 0" using kpage_nonzero [OF aspaceD(2) [OF uspaceD(1) [OF assms(1)]]] .
  have "\<exists>s' ps'. deallocuvm d KERNBASE 0 s = Ret (0, s') \<and>
      shrunk d s ps s' ps' (unat (PGROUNDUP 0)) (unat KERNBASE)"
    using assms by (intro deallocuvm_base) (auto simp: word_less_nat_alt)
  then obtain s1 ps1 where s1: "deallocuvm d KERNBASE 0 s = Ret (0, s1)" "shrunk d s ps s1 ps1 0 0x80000000"
    by (auto simp: unat_PGROUNDUP)
  then have u1: "uspace s1 d ps1" "set ps1 = set ps \<union> frames (mem s) d" "tabs (mem s1) d = tabs (mem s) d"
    "kframe (frames (mem s) d \<union> tabs (mem s) d) s s1"
    using freed_all [OF assms(2)] by (auto simp: shrunk_def)
  note A = uspaceD(1) [OF u1(1)]
  let ?is = "map of_nat [0..<NPDENTRIES] :: u32 list"
  have T: "{t. \<exists>i \<in> set ?is. tab (mem s1) d i = Some t} = tabs (mem s) d"
    using u1(3) unfolding index_list(1) by (simp add: tabs_def)
  have "\<exists>s' ps'. freevm_tables d ?is s1 = Ret s' \<and> kpool s' ps' \<and>
      set ps' = set ps1 \<union> {t. \<exists>i \<in> set ?is. tab (mem s1) d i = Some t} \<and>
      kframe {t. \<exists>i \<in> set ?is. tab (mem s1) d i = Some t} s1 s'"
  proof (rule freevm_tables_frees [OF aspaceD(1-3) [OF A] index_list(2)])
    fix i assume i: "i \<in> set ?is"
    then show "unat i < 1024" unfolding index_list(1) by simp
    fix t assume t: "tab (mem s1) d i = Some t"
    then show "kpage s1 t \<and> t \<noteq> d \<and> t \<notin> set ps1"
      using aspaceD(4-6) [OF A t \<open>unat i < 1024\<close>] by blast
    fix j assume "j \<in> set ?is" "tab (mem s1) d j = Some t"
    then show "i = j"
      using aspaceD(7) [OF A t, of j] \<open>unat i < 1024\<close> unfolding index_list(1) by simp
  qed
  then obtain s2 ps2 where s2: "freevm_tables d ?is s1 = Ret s2" "kpool s2 ps2"
    "set ps2 = set ps \<union> frames (mem s) d \<union> tabs (mem s) d" "kframe (tabs (mem s) d) s1 s2"
    unfolding T u1(2) by blast
  have d: "kpage s2 d" "d \<notin> set ps2"
    using aspaceD(2,3) [OF A] kframeD(8) [OF s2(4)] dir_not_tab [OF A] s2(3) u1(2,3) by auto
  obtain s3 where s3: "kfree d s2 = Ret s3" "kpool s3 (d # ps2)" "kframe {d} s2 s3"
    using kfree_change [OF s2(2) d] .
  have k: "kpage s p" if "p \<in> insert d (frames (mem s) d \<union> tabs (mem s) d)" for p
    using that pages_kpage [OF assms(1)] by (auto simp: pages_def)
  have "kframe (insert d (frames (mem s) d \<union> tabs (mem s) d)) s s2"
    using k by (intro kframe_trans [OF u1(4) s2(4)]) auto
  then have "kframe (insert d (frames (mem s) d \<union> tabs (mem s) d)) s s3"
    using k by (intro kframe_trans [OF _ s3(3)]) auto
  moreover have "freevm d s = Ret s3" using \<open>d \<noteq> 0\<close> s1(1) s2(1) s3(1) by (simp add: freevm_def)
  ultimately show ?thesis
    using s3(2) s2(3) by (intro exI [of _ s3] exI [of _ "d # ps2"]) (auto simp: pages_def)
qed

section \<open>allocuvm\<close>

lemma uspace_change:
  assumes "uspace s d ps" "same_outside U (mem s) (mem s')" "\<forall>p \<in> U. kpage s p"
    and "kpage s' = kpage s" "kend s' = kend s" "U \<inter> insert d (tabs (mem s) d) = {}"
    and "kpool s' ps'" "set ps' \<inter> insert d (tabs (mem s) d \<union> frames (mem s) d) = {}"
  shows "uspace s' d ps'" "entry (mem s') d = entry (mem s) d" "tabs (mem s') d = tabs (mem s) d"
    "unat i < 1024 \<Longrightarrow> huge (mem s') d i = huge (mem s) d i" "frames (mem s') d = frames (mem s) d"
proof -
  have side: "d \<notin> U" "U \<inter> tabs (mem s) d = {}" "d \<notin> set ps'" "set ps' \<inter> tabs (mem s) d = {}"
    using assms(6,8) by auto
  note ch = aspace_change [OF uspaceD(1) [OF assms(1)] assms(2-4) side(1,2) assms(7) side(3,4)]
  show "entry (mem s') d = entry (mem s) d" "tabs (mem s') d = tabs (mem s) d"
    "unat i < 1024 \<Longrightarrow> huge (mem s') d i = huge (mem s) d i"
    using ch(2,3,5) by blast+
  have pr: "present (mem s') d x = present (mem s) d x" for x
    by (simp add: present_def ch(2,5))
  then show fr: "frames (mem s') d = frames (mem s) d" by (simp add: frames_def ch(2))
  show "uspace s' d ps'"
    unfolding uspace_def ch(2,3) fr pr assms(4,5)
    using ch(1) uspaceD(2,3,5,6,7,8) [OF assms(1)] assms(8) by blast
qed

lemma uspace_update:
  assumes "uspace s d ps" "mem s' = mem s" "kframe {} s s'" "kpool s' ps'" "set ps' \<subseteq> set ps"
  shows "uspace s' d ps'"
proof (rule uspace_change(1) [OF assms(1), of "{}"])
  show "same_outside {} (mem s) (mem s')" by (simp add: assms(2))
  show "set ps' \<inter> insert d (tabs (mem s) d \<union> frames (mem s) d) = {}"
    using aspaceD(3) [OF uspaceD(1) [OF assms(1)]] aspace_tabs_free [OF uspaceD(1) [OF assms(1)]]
      uspaceD(4) [OF assms(1)] assms(5) by auto
qed (use assms(4) kframeD(4,8) [OF assms(3)] in simp_all)

lemma map_span_one:
  assumes "4096 dvd unat a"
  shows "map_span e a pa perm 0 = e" "map_span e a pa perm 1 = set_entry e a (pa OR perm OR PTE_P)"
proof -
  have "unat a + 4096 \<le> 4294967296" using assms aligned_room [of 12 a] by simp
  then show "map_span e a pa perm 1 = set_entry e a (pa OR perm OR PTE_P)"
    using map_range_span [of a 1 e pa perm] assms by simp
  show "map_span e a pa perm 0 = e"
    by (auto simp: map_span_def fun_eq_iff)
qed

definition zero_page :: "memory \<Rightarrow> u32 \<Rightarrow> bool" where
  "zero_page m p \<longleftrightarrow> (\<forall>x. unat (x - p) < 4096 \<longrightarrow> m x = 0)"

lemma zero_page_kframe:
  assumes "zero_page (mem s) p" "kframe U s s'" "kpage s p" "p \<notin> U"
  shows "zero_page (mem s') p"
  unfolding zero_page_def
proof (intro allI impI)
  fix x assume x: "unat (x - p) < 4096"
  have "4096 \<le> unat (x - q)" if "q \<in> U" for q
    using that assms(4) by (intro kpage_apart [OF assms(3) kframeD(2) [OF assms(2) that] _ x]) auto
  then show "mem s' x = 0"
    using kframeD(1) [OF assms(2)] assms(1) x by (simp add: same_outside_def zero_page_def)
qed

lemma kpage_V2P:
  assumes "kpage s p"
  shows "4096 dvd unat (V2P p)" "unat (V2P p) < 0xE000000"
    "\<not> (HUGE_PAGE_START \<le> V2P p \<and> V2P p < HUGE_PAGE_END)"
proof -
  have "unat (V2P p) = unat p - 0x80000000"
    using assms by (simp add: V2P_def kpage_iff unat_sub word_le_nat_alt)
  then show "4096 dvd unat (V2P p)" and lt: "unat (V2P p) < 0xE000000"
    using assms by (auto simp: kpage_iff dvd_diff_nat)
  then show "\<not> (HUGE_PAGE_START \<le> V2P p \<and> V2P p < HUGE_PAGE_END)"
    by (simp add: word_le_nat_alt)
qed

lemma uspace_map:
  assumes "uspace s d qs" "vm_step d s qs s' ps'" "kpage s p" "p \<notin> set qs" "p \<noteq> d" "p \<notin> tabs (mem s) d"
    and "p \<notin> frames (mem s) d" "entry (mem s') d = set_entry (entry (mem s) d) a (V2P p OR f)"
    and "f AND PTE_P \<noteq> 0" "unat f < 4096"
  shows "uspace s' d ps'" "frames (mem s') d \<subseteq> insert p (frames (mem s) d)"
proof -
  let ?e = "V2P p OR f"
  have dvd: "4096 dvd unat (V2P p)" using kpage_V2P(1) [OF assms(3)] .
  have e: "PTE_ADDR ?e = V2P p" "?e AND PTE_P \<noteq> 0"
    using PTE_ADDR_or [OF dvd assms(10)] flag_tests(1) [OF dvd assms(10)] assms(9) by simp_all
  note v = vm_stepD [OF assms(2)]
  have en: "entry (mem s') d x = (if PGROUNDDOWN x = PGROUNDDOWN a then ?e else entry (mem s) d x)" for x
    using assms(8) by (simp add: set_entry_def)
  have pr: "present (mem s') d x \<Longrightarrow> PGROUNDDOWN x = PGROUNDDOWN a \<or> present (mem s) d x" for x
    by (auto simp: present_def v(5) en split: if_splits)
  show fr: "frames (mem s') d \<subseteq> insert p (frames (mem s) d)"
    using pr framesI e(1) by (fastforce simp: frames_def en P2V_V2P)
  have old: "f' \<notin> set ps' \<and> f' \<noteq> d \<and> f' \<notin> tabs (mem s') d \<and> kpage s' f'"
    if "f' \<in> insert p (frames (mem s) d)" for f'
    using that v(3) assms(3-6) uspaceD(3-6) [OF assms(1), of f'] v(6) by auto
  show "uspace s' d ps'"
    unfolding uspace_def
  proof (intro conjI ballI allI impI)
    show "aspace s' d ps'" using v(1) .
    show "KERNBASE < kend s'" using uspaceD(2) [OF assms(1)] kframeD(4) [OF v(2)] by simp
  next
    fix x y assume x: "present (mem s') d x" and y: "present (mem s') d y"
      and eq: "PTE_ADDR (entry (mem s') d x) = PTE_ADDR (entry (mem s') d y)"
    have new: "PTE_ADDR (entry (mem s) d z) \<noteq> V2P p" if "present (mem s) d z" for z
      using framesI [OF that] assms(7) by (metis P2V_V2P)
    show "PGROUNDDOWN x = PGROUNDDOWN y"
      using pr [OF x] pr [OF y] eq new [of x] new [of y] uspaceD(7) [OF assms(1), of x y] e(1)
      by (auto simp: en split: if_splits)
  next
    fix x :: u32 assume "unat x < 0x80000000" "entry (mem s') d x AND PTE_P = 0"
    then show "entry (mem s') d x = 0"
      using uspaceD(8) [OF assms(1), of x] e(2) by (simp add: en split: if_splits)
  qed (use fr old in blast)+
qed

lemma uspace_vm_step:
  assumes "uspace s d qs" "vm_step d s qs s' ps'" "entry (mem s') d = entry (mem s) d"
  shows "uspace s' d ps'" "frames (mem s') d = frames (mem s) d"
proof -
  note v = vm_stepD [OF assms(2)]
  have pr: "present (mem s') d x = present (mem s) d x" for x
    by (simp add: present_def v(5) assms(3))
  then show fr: "frames (mem s') d = frames (mem s) d" by (simp add: frames_def assms(3))
  have "f \<notin> set ps' \<and> f \<notin> tabs (mem s') d" if "f \<in> frames (mem s) d" for f
    using uspaceD(4,6) [OF assms(1) that] v(3) by blast
  then show "uspace s' d ps'"
    unfolding uspace_def fr pr assms(3) v(6) kframeD(4) [OF v(2)]
    using v(1) uspaceD(2,3,5,7,8) [OF assms(1)] by blast
qed

text \<open>A page is taken from the free list and cleared: the address space does not change.\<close>

lemma take_page:
  assumes "uspace s d (p # qs)"
  obtains s1 where "kalloc s = Ret (p, s1)" "p \<noteq> 0" "kpage s p" "p \<notin> set qs" "p \<noteq> d"
    "p \<notin> tabs (mem s) d" "p \<notin> frames (mem s) d"
    "uspace (s1\<lparr>mem := memset (mem s1) p 0 PGSIZE\<rparr>) d qs"
    "entry (memset (mem s1) p 0 PGSIZE) d = entry (mem s) d"
    "tabs (memset (mem s1) p 0 PGSIZE) d = tabs (mem s) d"
    "frames (memset (mem s1) p 0 PGSIZE) d = frames (mem s) d"
    "\<And>i. unat i < 1024 \<Longrightarrow> huge (memset (mem s1) p 0 PGSIZE) d i = huge (mem s) d i"
    "kframe {p} s (s1\<lparr>mem := memset (mem s1) p 0 PGSIZE\<rparr>)"
    "zero_page (memset (mem s1) p 0 PGSIZE) p"
proof -
  note A = uspaceD(1) [OF assms]
  obtain s1 where s1: "kalloc s = Ret (p, s1)" "aspace s1 d qs" "mem s1 = mem s" "kframe {} s s1"
    "kpage s p" "p \<noteq> d" "p \<notin> set qs" "p \<notin> tabs (mem s) d" "p \<noteq> 0"
    using kalloc_aspace [OF A] by metis
  have f: "p \<notin> frames (mem s) d" using uspaceD(4) [OF assms] by auto
  let ?s2 = "s1\<lparr>mem := memset (mem s1) p 0 PGSIZE\<rparr>"
  have kp: "kpage s1 = kpage s" using kframeD(8) [OF s1(4)] .
  have so: "same_outside {p} (mem s) (mem ?s2)" using same_outside_memset [of p "mem s" 0] s1(3) by simp
  have "kpool (s1\<lparr>mem := memset (mem s1) p 0 PGSIZE\<rparr>) qs"
    using s1(5,7) kp by (intro kpool_same_outside [OF aspaceD(1) [OF s1(2)] same_outside_memset]) auto
  moreover have "set qs \<inter> insert d (tabs (mem s) d \<union> frames (mem s) d) = {}"
    using aspaceD(3) [OF A] aspace_tabs_free [OF A] uspaceD(4) [OF assms] by auto
  ultimately have ch: "uspace ?s2 d qs" "entry (mem ?s2) d = entry (mem s) d" "tabs (mem ?s2) d = tabs (mem s) d"
    "frames (mem ?s2) d = frames (mem s) d" "\<And>i. unat i < 1024 \<Longrightarrow> huge (mem ?s2) d i = huge (mem s) d i"
    using uspace_change [OF assms so, of qs] s1(5,6,8) kp kframeD(4) [OF s1(4)] by simp_all
  have "kframe {p} s ?s2"
    using s1(5) kp by (intro kframe_trans [OF s1(4) kframe_mem [OF same_outside_memset [of p]]]) auto
  moreover have "zero_page (memset (mem s1) p 0 PGSIZE) p" by (simp add: zero_page_def memset_eq)
  ultimately show ?thesis using that [of s1] s1 f ch by simp
qed

lemma alloc_page:
  assumes "uspace s d (p # qs)" "4096 dvd unat a" "unmapped (mem s) d a 1"
  obtains (full) s1 s2 where "kalloc s = Ret (p, s1)" "p \<noteq> 0"
      "mappages d a PGSIZE (V2P p) (PTE_W OR PTE_U) (s1\<lparr>mem := memset (mem s1) p 0 PGSIZE\<rparr>) = Ret (- 1, s2)"
      "uspace s2 d []" "entry (mem s2) d = entry (mem s) d" "kpage s p" "p \<noteq> d" "p \<notin> frames (mem s) d"
      "insert p (tabs (mem s2) d) = set (p # qs) \<union> tabs (mem s) d" "p \<notin> tabs (mem s2) d"
      "kframe (insert d (set (p # qs) \<union> tabs (mem s) d)) s s2"
      "\<And>i. unat i < 1024 \<Longrightarrow> huge (mem s2) d i = huge (mem s) d i"
  | (mapped) s1 s2 ps' where "kalloc s = Ret (p, s1)" "p \<noteq> 0"
      "mappages d a PGSIZE (V2P p) (PTE_W OR PTE_U) (s1\<lparr>mem := memset (mem s1) p 0 PGSIZE\<rparr>) = Ret (0, s2)"
      "uspace s2 d ps'" "entry (mem s2) d = set_entry (entry (mem s) d) a (V2P p OR 7)" "kpage s p"
      "insert p (set ps' \<union> tabs (mem s2) d) = set (p # qs) \<union> tabs (mem s) d" "p \<notin> set ps' \<union> tabs (mem s2) d"
      "kframe (insert d (set (p # qs) \<union> tabs (mem s) d)) s s2" "zero_page (mem s2) p" "p \<notin> frames (mem s) d"
      "p \<noteq> d" "\<And>i. unat i < 1024 \<Longrightarrow> huge (mem s2) d i = huge (mem s) d i"
proof -
  obtain s1 where s1: "kalloc s = Ret (p, s1)" "p \<noteq> 0" "kpage s p" "p \<notin> set qs" "p \<noteq> d"
    "p \<notin> tabs (mem s) d" "p \<notin> frames (mem s) d"
    and u: "uspace (s1\<lparr>mem := memset (mem s1) p 0 PGSIZE\<rparr>) d qs"
    and same: "entry (memset (mem s1) p 0 PGSIZE) d = entry (mem s) d"
      "tabs (memset (mem s1) p 0 PGSIZE) d = tabs (mem s) d"
      "frames (memset (mem s1) p 0 PGSIZE) d = frames (mem s) d"
      "\<And>i. unat i < 1024 \<Longrightarrow> huge (memset (mem s1) p 0 PGSIZE) d i = huge (mem s) d i"
    and k: "kframe {p} s (s1\<lparr>mem := memset (mem s1) p 0 PGSIZE\<rparr>)"
    and z: "zero_page (memset (mem s1) p 0 PGSIZE) p"
    using take_page [OF assms(1)] by metis
  define t where "t = s1\<lparr>mem := memset (mem s1) p 0 PGSIZE\<rparr>"
  have un: "unmapped (mem t) d a 1" using assms(3) by (simp add: unmapped_def t_def same)
  have room: "unat a + 4096 * 1 \<le> 4294967296" using assms(2) aligned_room [of 12 a] by simp
  obtain r s2 ps' j where m: "mappages d a PGSIZE (V2P p) (PTE_W OR PTE_U) t = Ret (r, s2)"
    "vm_step d t qs s2 ps'" "r = 0 \<and> j = 1 \<or> r = - 1 \<and> j < 1 \<and> ps' = []"
    "entry (mem s2) d = map_span (entry (mem t) d) a (V2P p) (PTE_W OR PTE_U) j"
    using mappages_base [OF uspaceD(1) [OF u, folded t_def] assms(2) _ _ room kpage_V2P(3) [OF s1(3)] un,
        of PGSIZE "PTE_W OR PTE_U"] by auto
  note v = vm_stepD [OF m(2)]
  have cons: "insert p (set ps' \<union> tabs (mem s2) d) = set (p # qs) \<union> tabs (mem s) d"
    "p \<notin> set ps' \<union> tabs (mem s2) d"
    using v(3) s1(4,6) by (auto simp: t_def same)
  have "kframe (insert d (set qs \<union> tabs (mem s) d)) t s2" using v(2) by (simp add: t_def same)
  then have fr: "kframe (insert d (set (p # qs) \<union> tabs (mem s) d)) s s2"
    using aspace_pages [OF uspaceD(1) [OF assms(1)]]
    by (intro kframe_trans [OF k [folded t_def]]) auto
  have hu: "huge (mem s2) d i = huge (mem s) d i" if "unat i < 1024" for i
    using v(5) [OF that] same(4) [OF that] by (simp add: t_def)
  from m(3) show ?thesis
  proof (elim disjE conjE)
    assume r: "r = - 1" "j < 1" "ps' = []"
    then have en: "entry (mem s2) d = entry (mem t) d" using m(4) map_span_one(1) [OF assms(2)] by simp
    then show ?thesis
      using full [OF s1(1,2)] m(1) uspace_vm_step(1) [OF u [folded t_def] m(2) en] r s1(3,5,7) cons fr hu
      by (simp add: t_def same)
  next
    assume r: "r = 0" "j = 1"
    then have en: "entry (mem s2) d = set_entry (entry (mem t) d) a (V2P p OR 7)"
      using m(4) map_span_one(2) [OF assms(2)] by simp
    have "uspace s2 d ps'"
      using s1(3-7) kframeD(8) [OF k]
      by (intro uspace_map(1) [OF u [folded t_def] m(2) _ _ _ _ _ en]) (simp_all add: t_def same)
    moreover have "zero_page (mem s2) p"
      using z s1(3-6) kframeD(8) [OF k]
      by (intro zero_page_kframe [OF _ v(2)]) (simp_all add: t_def same)
    ultimately show ?thesis
      using mapped [OF s1(1,2)] m(1) r s1(3,5,7) cons fr hu en by (simp add: t_def same)
  qed
qed

definition grown :: "u32 \<Rightarrow> machine \<Rightarrow> u32 list \<Rightarrow> machine \<Rightarrow> u32 list \<Rightarrow> nat \<Rightarrow> nat \<Rightarrow> bool" where
  "grown d s ps s' ps' lo hi \<longleftrightarrow> uspace s' d ps' \<and>
     (\<forall>x. \<not> in_span lo hi x \<longrightarrow> entry (mem s') d x = entry (mem s) d x) \<and>
     (\<forall>x. in_span lo hi x \<longrightarrow> (\<exists>p. entry (mem s') d x = V2P p OR 7 \<and> kpage s p \<and> zero_page (mem s') p)) \<and>
     set ps' \<union> tabs (mem s') d \<union> freed (entry (mem s') d) lo hi = set ps \<union> tabs (mem s) d \<and>
     (\<forall>i. unat i < 1024 \<longrightarrow> huge (mem s') d i = huge (mem s) d i) \<and>
     kframe (insert d (set ps \<union> tabs (mem s) d)) s s'"

definition restored :: "u32 \<Rightarrow> machine \<Rightarrow> u32 list \<Rightarrow> machine \<Rightarrow> u32 list \<Rightarrow> bool" where
  "restored d s ps s' ps' \<longleftrightarrow> uspace s' d ps' \<and> entry (mem s') d = entry (mem s) d \<and>
     set ps' \<union> tabs (mem s') d = set ps \<union> tabs (mem s) d \<and>
     (\<forall>i. unat i < 1024 \<longrightarrow> huge (mem s') d i = huge (mem s) d i) \<and>
     kframe (insert d (set ps \<union> tabs (mem s) d)) s s'"

lemma in_span_next:
  assumes "4096 dvd unat a" "lo \<le> unat a"
  shows "in_span lo (unat a + 4096) x \<longleftrightarrow> in_span lo (unat a) x \<or> PGROUNDDOWN x = PGROUNDDOWN a"
    "in_span lo (unat a) x \<Longrightarrow> PGROUNDDOWN x \<noteq> PGROUNDDOWN a"
    "in_span lo (unat a) x \<longleftrightarrow> lo \<le> unat x \<and> unat x < unat a"
proof -
  obtain k where k: "unat a = 4096 * k" using assms(1) by (elim dvdE)
  have x: "unat (PGROUNDDOWN x) = 4096 * (unat x div 4096)"
    by (simp add: unat_PGROUNDDOWN minus_mod_eq_mult_div)
  have a: "PGROUNDDOWN x = PGROUNDDOWN a \<longleftrightarrow> unat x div 4096 = k"
    by (auto simp: word_unat_eq_iff unat_PGROUNDDOWN minus_mod_eq_div_mult k)
  have lt: "unat x div 4096 < k \<longleftrightarrow> unat x < unat a" unfolding k by (simp add: div_less_iff_less_mult mult.commute)
  show "in_span lo (unat a) x \<longleftrightarrow> lo \<le> unat x \<and> unat x < unat a"
    using lt by (simp add: in_span_def x k)
  show "in_span lo (unat a) x \<Longrightarrow> PGROUNDDOWN x \<noteq> PGROUNDDOWN a"
    by (simp add: in_span_def x k a)
  have "lo \<le> unat x" if "unat x div 4096 = k"
    using that lt assms(2) by simp
  then show "in_span lo (unat a + 4096) x \<longleftrightarrow> in_span lo (unat a) x \<or> PGROUNDDOWN x = PGROUNDDOWN a"
    by (auto simp: in_span_def x k a)
qed

lemma freed_next:
  assumes "4096 dvd unat a" "lo \<le> unat a" "w AND PTE_P \<noteq> 0"
  shows "freed (set_entry e a w) lo (unat a + 4096) = insert (frame_of w) (freed e lo (unat a))"
proof (intro set_eqI iffI)
  note next_a = in_span_next [OF assms(1,2)]
  fix f
  show "f \<in> insert (frame_of w) (freed e lo (unat a))" if "f \<in> freed (set_entry e a w) lo (unat a + 4096)"
    using that next_a(1) by (auto simp: freed_def set_entry_def split: if_splits)
  show "f \<in> freed (set_entry e a w) lo (unat a + 4096)" if "f \<in> insert (frame_of w) (freed e lo (unat a))"
    using that
  proof
    assume "f = frame_of w"
    then show ?thesis
      unfolding freed_def using assms(3) next_a(1) [of a]
      by (intro CollectI exI [of _ a]) (simp add: set_entry_def)
  next
    assume "f \<in> freed e lo (unat a)"
    then obtain x where "f = frame_of (e x)" "in_span lo (unat a) x" "e x AND PTE_P \<noteq> 0" by (auto simp: freed_def)
    then show ?thesis
      unfolding freed_def using next_a(1,2) [of x]
      by (intro CollectI exI [of _ x]) (simp add: set_entry_def)
  qed
qed

lemma grown_refl:
  assumes "uspace s d ps" "4096 dvd unat (a :: u32)"
  shows "grown d s ps s ps (unat a) (unat a)"
proof -
  have "\<not> in_span (unat a) (unat a) x" for x using in_span_next(3) [OF assms(2), of "unat a"] by simp
  moreover have "kframe (insert d (set ps \<union> tabs (mem s) d)) s s"
    using aspace_pages [OF uspaceD(1) [OF assms(1)]] by (intro kframe_mono [OF kframe_refl]) auto
  ultimately show ?thesis using assms(1) by (simp add: grown_def freed_def)
qed

lemma grown_step:
  assumes g: "grown d s0 ps0 s ps lo (unat a)" and a: "4096 dvd unat a" "lo \<le> unat a" "unat a < 0x80000000"
    and nh: "\<And>x. in_span lo (unat a) x \<Longrightarrow> \<not> huge (mem s0) d (PDX x)"
    and s2: "uspace s2 d ps'" "entry (mem s2) d = set_entry (entry (mem s) d) a (V2P p OR 7)" "kpage s p"
      "insert p (set ps' \<union> tabs (mem s2) d) = set ps \<union> tabs (mem s) d"
      "kframe (insert d (set ps \<union> tabs (mem s) d)) s s2" "zero_page (mem s2) p"
      "\<And>i. unat i < 1024 \<Longrightarrow> huge (mem s2) d i = huge (mem s) d i"
  shows "grown d s0 ps0 s2 ps' lo (unat a + 4096)"
proof -
  note next_a = in_span_next [OF a(1,2)]
  have us: "uspace s d ps" and out: "\<And>x. \<not> in_span lo (unat a) x \<Longrightarrow> entry (mem s) d x = entry (mem s0) d x"
    and inn: "\<And>x. in_span lo (unat a) x \<Longrightarrow> \<exists>p. entry (mem s) d x = V2P p OR 7 \<and> kpage s0 p \<and> zero_page (mem s) p"
    and cons: "set ps \<union> tabs (mem s) d \<union> freed (entry (mem s) d) lo (unat a) = set ps0 \<union> tabs (mem s0) d"
    and hu: "\<And>i. unat i < 1024 \<Longrightarrow> huge (mem s) d i = huge (mem s0) d i"
    and fr: "kframe (insert d (set ps0 \<union> tabs (mem s0) d)) s0 s"
    using g by (auto simp: grown_def)
  have kp: "kpage s = kpage s0" using kframeD(8) [OF fr] .
  have e7: "PTE_ADDR (V2P q OR 7) = V2P q" "(V2P q OR 7) AND PTE_P \<noteq> 0" if "kpage s0 q" for q
    using PTE_ADDR_or [OF kpage_V2P(1) [OF that], of 7] flag_tests(1) [OF kpage_V2P(1) [OF that], of 7] by simp_all
  have "zero_page (mem s2) q" if "in_span lo (unat a) x" "entry (mem s) d x = V2P q OR 7" "kpage s0 q" "zero_page (mem s) q" for q x
  proof -
    have "present (mem s) d x"
      using that nh [OF that(1)] next_a(3) [of x] a(3) e7(2) [OF that(3)] hu by (simp add: present_def)
    then have "q \<in> frames (mem s) d"
      using framesI [of "mem s" d x] that(2) e7(1) [OF that(3)] by (simp add: P2V_V2P)
    then have "q \<notin> insert d (set ps \<union> tabs (mem s) d)" using uspaceD(4-6) [OF us] by auto
    then show ?thesis using zero_page_kframe [OF that(4) s2(5)] that(3) kp by simp
  qed
  then have "\<exists>p. entry (mem s2) d x = V2P p OR 7 \<and> kpage s0 p \<and> zero_page (mem s2) p"
    if "in_span lo (unat a + 4096) x" for x
    using that inn [of x] s2(2,3,6) kp next_a(1,2) [of x] by (auto simp: set_entry_def)
  moreover have "freed (entry (mem s2) d) lo (unat a + 4096) = insert p (freed (entry (mem s) d) lo (unat a))"
    unfolding s2(2) using freed_next [OF a(1,2)] e7 s2(3) kp by (simp add: P2V_V2P)
  moreover have "kframe (insert d (set ps0 \<union> tabs (mem s0) d)) s0 s2"
    using cons kframeD(2) [OF fr] by (intro kframe_trans [OF fr s2(5)]) auto
  ultimately show ?thesis
    unfolding grown_def using s2 out hu cons next_a(1) by (auto simp: set_entry_def)
qed

text \<open>The failure path: what was mapped is unmapped and the pages are given back.\<close>

lemma in_span_mono: "in_span lo hi x \<Longrightarrow> hi \<le> hi' \<Longrightarrow> in_span lo hi' x"
  by (simp add: in_span_def)

lemma rollback:
  assumes g: "grown d s0 ps0 s ps (unat (PGROUNDUP oldsz)) (unat a)" and us0: "uspace s0 d ps0"
    and a: "4096 dvd unat (a :: u32)" "unat (PGROUNDUP oldsz) \<le> unat a" "unat a < unat newsz"
      "unat newsz < 0x80000000" "oldsz < newsz"
    and un: "\<And>x. in_span (unat (PGROUNDUP oldsz)) (unat newsz) x \<Longrightarrow> entry (mem s0) d x AND PTE_P = 0"
    and nh: "\<And>x. oldsz \<le> x \<Longrightarrow> x < newsz \<Longrightarrow> \<not> huge (mem s0) d (PDX x)"
    and s': "uspace s' d qs" "entry (mem s') d = entry (mem s) d"
      "set qs \<union> tabs (mem s') d \<union> X = set ps \<union> tabs (mem s) d"
      "\<And>i. unat i < 1024 \<Longrightarrow> huge (mem s') d i = huge (mem s) d i"
      "kframe (insert d (set ps \<union> tabs (mem s) d)) s s'"
  shows "\<exists>s'' qs'. deallocuvm d newsz oldsz s' = Ret (oldsz, s'') \<and> uspace s'' d qs' \<and>
    entry (mem s'') d = entry (mem s0) d \<and> set qs' \<union> tabs (mem s'') d \<union> X = set ps0 \<union> tabs (mem s0) d \<and>
    set qs' \<union> tabs (mem s'') d \<subseteq> set qs \<union> tabs (mem s') d \<union> freed (entry (mem s) d) (unat (PGROUNDUP oldsz)) (unat a) \<and>
    (\<forall>i. unat i < 1024 \<longrightarrow> huge (mem s'') d i = huge (mem s0) d i) \<and>
    kframe (insert d (set ps0 \<union> tabs (mem s0) d)) s0 s''"
proof -
  let ?lo = "unat (PGROUNDUP oldsz)" and ?W = "insert d (set ps0 \<union> tabs (mem s0) d)"
  have out: "\<And>x. \<not> in_span ?lo (unat a) x \<Longrightarrow> entry (mem s) d x = entry (mem s0) d x"
    and inn: "\<And>x. in_span ?lo (unat a) x \<Longrightarrow> \<exists>p. entry (mem s) d x = V2P p OR 7 \<and> kpage s0 p"
    and cons: "set ps \<union> tabs (mem s) d \<union> freed (entry (mem s) d) ?lo (unat a) = set ps0 \<union> tabs (mem s0) d"
    and hu: "\<And>i. unat i < 1024 \<Longrightarrow> huge (mem s) d i = huge (mem s0) d i"
    and fr: "kframe ?W s0 s"
    using g by (auto simp: grown_def)
  have lt: "unat a \<le> unat newsz" using a(3) by simp
  have beyond: "entry (mem s) d x AND PTE_P = 0"
    if "in_span ?lo (unat newsz) x" "\<not> in_span ?lo (unat a) x" for x
    using un [OF that(1)] out [OF that(2)] by simp
  have P: "entry (mem s) d x AND PTE_P \<noteq> 0" if x: "in_span ?lo (unat a) x" for x
  proof -
    obtain p where "entry (mem s) d x = V2P p OR 7" "kpage s0 p" using inn [OF x] by blast
    then show ?thesis using flag_tests(1) [OF kpage_V2P(1), of s0 p 7] by simp
  qed
  have fr_eq: "freed (entry (mem s) d) ?lo (unat newsz) = freed (entry (mem s) d) ?lo (unat a)"
    using beyond in_span_mono [OF _ lt] by (auto simp: freed_def)
  have un_eq: "unmap (entry (mem s) d) ?lo (unat newsz) = entry (mem s0) d"
  proof
    fix x
    show "unmap (entry (mem s) d) ?lo (unat newsz) x = entry (mem s0) d x"
    proof (cases "in_span ?lo (unat a) x")
      case True
      then have i: "in_span ?lo (unat newsz) x" using in_span_mono lt by blast
      have "unat x < 0x80000000"
        using in_span_next(3) [OF a(1,2), of x] True a(3,4) by simp
      then have "entry (mem s0) d x = 0" using uspaceD(8) [OF us0 un [OF i]] by simp
      with P [OF True] i show ?thesis by (simp add: unmap_def)
    next
      case False
      then show ?thesis using beyond [of x] out [of x] by (auto simp: unmap_def)
    qed
  qed
  have nh': "\<And>x. oldsz \<le> x \<Longrightarrow> x < newsz \<Longrightarrow> \<not> huge (mem s') d (PDX x)"
    using nh hu s'(4) by simp
  obtain s'' qs' where d: "deallocuvm d newsz oldsz s' = Ret (oldsz, s'')"
    "shrunk d s' qs s'' qs' ?lo (unat newsz)"
    using deallocuvm_base [OF s'(1) a(5) _ nh'] a(4) by auto
  then have s'': "uspace s'' d qs'" "entry (mem s'') d = entry (mem s0) d"
    "set qs' = set qs \<union> freed (entry (mem s) d) ?lo (unat a)" "tabs (mem s'') d = tabs (mem s') d"
    "\<And>i. unat i < 1024 \<Longrightarrow> huge (mem s'') d i = huge (mem s') d i"
    "kframe (freed (entry (mem s) d) ?lo (unat a) \<union> tabs (mem s') d) s' s''"
    by (simp_all add: shrunk_def s'(2) un_eq fr_eq)
  have W: "kpage s0 p" if "p \<in> ?W" for p using kframeD(2) [OF fr that] .
  have "kframe ?W s0 s'" using cons W by (intro kframe_trans [OF fr s'(5)]) auto
  then have "kframe ?W s0 s''" using cons W s'(3) by (intro kframe_trans [OF _ s''(6)]) auto
  moreover have "set qs' \<union> tabs (mem s'') d \<union> X = set ps0 \<union> tabs (mem s0) d"
    using s''(3,4) s'(3) cons by auto
  ultimately show ?thesis
    using d(1) s'' s'(4) hu by (intro exI [of _ s''] exI [of _ qs']) auto
qed

lemma uspace_cprintf [simp]: "uspace (cprintf msg s) d ps = uspace s d ps" "mem (cprintf msg s) = mem s"
  by (simp_all add: cprintf_def uspace_def aspace_def kpool_def)

lemma free_spare:
  assumes "uspace s d ps" "kpage s p" "p \<notin> set ps" "p \<noteq> d" "p \<notin> tabs (mem s) d" "p \<notin> frames (mem s) d"
  obtains s' where "kfree p s = Ret s'" "uspace s' d (p # ps)" "entry (mem s') d = entry (mem s) d"
    "tabs (mem s') d = tabs (mem s) d" "\<And>i. unat i < 1024 \<Longrightarrow> huge (mem s') d i = huge (mem s) d i"
    "kframe {p} s s'"
proof -
  note A = uspaceD(1) [OF assms(1)]
  obtain s' where s': "kfree p s = Ret s'" "kpool s' (p # ps)" "kframe {p} s s'"
    using kfree_change [OF aspaceD(1) [OF A] assms(2,3)] .
  have side: "\<forall>q \<in> {p}. kpage s q" "{p} \<inter> insert d (tabs (mem s) d) = {}"
    "set (p # ps) \<inter> insert d (tabs (mem s) d \<union> frames (mem s) d) = {}"
    using assms(2-6) aspaceD(3) [OF A] aspace_tabs_free [OF A] uspaceD(4) [OF assms(1)] by auto
  note ch = uspace_change [OF assms(1) kframeD(1) [OF s'(3)] side(1) kframeD(8,4) [OF s'(3)] side(2) s'(2) side(3)]
  show ?thesis using that [OF s'(1) ch(1-4) s'(3)] by blast
qed

lemma freed_frames:
  assumes "\<And>x. in_span lo hi x \<Longrightarrow> unat x < 0x80000000 \<and> \<not> huge m d (PDX x)"
  shows "freed (entry m d) lo hi \<subseteq> frames m d"
  using assms by (auto simp: freed_def frames_def present_def)

lemma same_frames:
  assumes "entry m' d = entry m d" "\<And>i. unat i < 1024 \<Longrightarrow> huge m' d i = huge m d i"
  shows "frames m' d = frames m d"
  using assms by (simp add: frames_def present_def)

text \<open>The range to be added is not mapped and no 4 MB page covers it.\<close>

definition can_grow :: "machine \<Rightarrow> u32 \<Rightarrow> u32 \<Rightarrow> u32 \<Rightarrow> bool" where
  "can_grow s d oldsz newsz \<longleftrightarrow> unat newsz < 0x80000000 \<and> oldsz \<le> newsz \<and>
     (\<forall>x. in_span (unat (PGROUNDUP oldsz)) (unat newsz) x \<longrightarrow> entry (mem s) d x AND PTE_P = 0) \<and>
     (\<forall>x. oldsz \<le> x \<longrightarrow> x < newsz \<longrightarrow> \<not> huge (mem s) d (PDX x))"

lemma can_growD:
  assumes "can_grow s d oldsz newsz"
  shows "unat newsz < 0x80000000" "oldsz \<le> newsz"
    "in_span (unat (PGROUNDUP oldsz)) (unat newsz) x \<Longrightarrow> entry (mem s) d x AND PTE_P = 0"
    "oldsz \<le> x \<Longrightarrow> x < newsz \<Longrightarrow> \<not> huge (mem s) d (PDX x)"
    "unat oldsz \<le> unat (PGROUNDUP oldsz)" "4096 dvd unat (PGROUNDUP oldsz)"
proof -
  show *: "unat newsz < 0x80000000" "oldsz \<le> newsz"
    "in_span (unat (PGROUNDUP oldsz)) (unat newsz) x \<Longrightarrow> entry (mem s) d x AND PTE_P = 0"
    "oldsz \<le> x \<Longrightarrow> x < newsz \<Longrightarrow> \<not> huge (mem s) d (PDX x)"
    using assms by (auto simp: can_grow_def)
  then have "unat oldsz \<le> 0xFFFFF000" by (simp add: word_le_nat_alt)
  then show "unat oldsz \<le> unat (PGROUNDUP oldsz)" "4096 dvd unat (PGROUNDUP oldsz)"
    by (auto intro: PGROUNDUP_props)
qed

lemma alloc_step_cases:
  assumes us0: "uspace s0 d ps0" and cg: "can_grow s0 d oldsz newsz"
    and g: "grown d s0 ps0 s ps (unat (PGROUNDUP oldsz)) (unat a)"
    and a: "4096 dvd unat a" "unat (PGROUNDUP oldsz) \<le> unat a" "a < newsz"
  obtains (failed) s' ps' where "alloc_step d oldsz newsz (a, s) = Ret (Inr (0, s'))" "restored d s0 ps0 s' ps'"
  | (more) s' ps' where "alloc_step d oldsz newsz (a, s) = Ret (Inl (a + PGSIZE, s'))"
      "grown d s0 ps0 s' ps' (unat (PGROUNDUP oldsz)) (unat a + 4096)"
proof -
  let ?lo = "unat (PGROUNDUP oldsz)"
  note c = can_growD [OF cg]
  have lt: "unat a < unat newsz" "oldsz < newsz"
    using a(2,3) c(5) by (simp_all add: word_less_nat_alt)
  have us: "uspace s d ps" and hu: "\<And>i. unat i < 1024 \<Longrightarrow> huge (mem s) d i = huge (mem s0) d i"
    and fr: "kframe (insert d (set ps0 \<union> tabs (mem s0) d)) s0 s"
    and out: "\<And>x. \<not> in_span ?lo (unat a) x \<Longrightarrow> entry (mem s) d x = entry (mem s0) d x"
    and cons: "set ps \<union> tabs (mem s) d \<union> freed (entry (mem s) d) ?lo (unat a) = set ps0 \<union> tabs (mem s0) d"
    using g by (auto simp: grown_def)
  have nh: "\<not> huge (mem s0) d (PDX x)" if "in_span ?lo (unat newsz) x" for x
  proof -
    have "?lo \<le> unat (PGROUNDDOWN x)"
      using that c(6) by (auto simp: in_span_def unat_PGROUNDDOWN minus_mod_eq_div_mult elim!: dvdE)
    then show ?thesis using c(4) [of "PGROUNDDOWN x"] c(5) that
      by (simp add: in_span_def word_le_nat_alt word_less_nat_alt)
  qed
  have span_a: "in_span ?lo (unat newsz) x \<and> unat x < 0x80000000" if "in_span ?lo (unat a) x" for x
    using that in_span_mono [of ?lo "unat a" x "unat newsz"] in_span_next(3) [OF a(1,2), of x] lt(1) c(1) by simp
  show ?thesis
  proof (cases ps)
    case Nil
    then obtain s1 where s1: "kalloc s = Ret (0, s1)" "aspace s1 d []" "mem s1 = mem s" "kframe {} s s1"
      using kalloc_aspace_empty [of s d] uspaceD(1) [OF us] by metis
    let ?s1 = "cprintf (''allocuvm out of memory'' @ [CHR 0x0A]) s1"
    have "uspace s1 d []"
      using us s1(3,4) aspaceD(1) [OF s1(2)] by (rule uspace_update) simp
    moreover have "kframe (insert d (set ps \<union> tabs (mem s) d)) s ?s1"
      using aspace_pages [OF uspaceD(1) [OF us]] by (intro kframe_trans [OF s1(4) kframe_cprintf]) auto
    ultimately obtain s'' qs' where r: "deallocuvm d newsz oldsz ?s1 = Ret (oldsz, s'')" "uspace s'' d qs'"
      "entry (mem s'') d = entry (mem s0) d" "set qs' \<union> tabs (mem s'') d \<union> {} = set ps0 \<union> tabs (mem s0) d"
      "\<forall>i. unat i < 1024 \<longrightarrow> huge (mem s'') d i = huge (mem s0) d i"
      "kframe (insert d (set ps0 \<union> tabs (mem s0) d)) s0 s''"
      using rollback [OF g us0 a(1,2) lt(1) c(1) lt(2) c(3,4), of ?s1 "[]" "{}"] s1(3) Nil by auto
    then have "restored d s0 ps0 s'' qs'" by (simp add: restored_def)
    moreover have "alloc_step d oldsz newsz (a, s) = Ret (Inr (0, s''))"
      using a(3) s1(1) r(1) by (simp add: alloc_step_def Let_def)
    ultimately show ?thesis using failed by blast
  next
    case (Cons p qs)
    have "in_span ?lo (unat newsz) x \<and> \<not> in_span ?lo (unat a) x" if "unat a \<le> unat x" "unat x < unat a + 4096" for x
      using that PGROUNDDOWN_page [OF a(1), of x] in_span_next(2) [OF a(1,2), of x] a(2) lt(1)
        unat_PGROUNDDOWN [of a] by (auto simp: in_span_def)
    then have "unmapped (mem s) d a 1"
      using c(3) out nh hu by (simp add: unmapped_def)
    from us [unfolded Cons] a(1) this show ?thesis
    proof (cases rule: alloc_page)
      case (full s1 s2)
      let ?s2 = "cprintf (''allocuvm out of memory (2)'' @ [CHR 0x0A]) s2"
      have "kframe (insert d (set ps \<union> tabs (mem s) d)) s ?s2"
        using full(11) Cons kframeD(2) [OF full(11)] by (intro kframe_trans [OF full(11) kframe_cprintf]) auto
      then obtain s'' qs' where r: "deallocuvm d newsz oldsz ?s2 = Ret (oldsz, s'')" "uspace s'' d qs'"
        "entry (mem s'') d = entry (mem s0) d" "set qs' \<union> tabs (mem s'') d \<union> {p} = set ps0 \<union> tabs (mem s0) d"
        "set qs' \<union> tabs (mem s'') d \<subseteq> tabs (mem s2) d \<union> freed (entry (mem s) d) ?lo (unat a)"
        "\<forall>i. unat i < 1024 \<longrightarrow> huge (mem s'') d i = huge (mem s0) d i"
        "kframe (insert d (set ps0 \<union> tabs (mem s0) d)) s0 s''"
        using rollback [OF g us0 a(1,2) lt(1) c(1) lt(2) c(3,4), of ?s2 "[]" "{p}"] full(4,5,9,12) Cons by auto
      have "p \<notin> freed (entry (mem s) d) ?lo (unat a)"
        using freed_frames [of ?lo "unat a" "mem s" d] full(8) span_a nh hu by auto
      then have "p \<notin> set qs'" "p \<notin> tabs (mem s'') d" using r(5) full(10) by auto
      moreover have "p \<notin> frames (mem s'') d"
        using same_frames [OF r(3)] r(4,6) uspaceD(4,6) [OF us0] by blast
      moreover have "kpage s'' p" using full(6) kframeD(8) [OF fr] kframeD(8) [OF r(7)] by simp
      ultimately obtain s3 where s3: "kfree p s'' = Ret s3" "uspace s3 d (p # qs')"
        "entry (mem s3) d = entry (mem s'') d" "tabs (mem s3) d = tabs (mem s'') d"
        "\<And>i. unat i < 1024 \<Longrightarrow> huge (mem s3) d i = huge (mem s'') d i" "kframe {p} s'' s3"
        using free_spare [OF r(2)] full(7) by metis
      have "kframe (insert d (set ps0 \<union> tabs (mem s0) d)) s0 s3"
        using r(4) kframeD(2) [OF r(7)] by (intro kframe_trans [OF r(7) s3(6)]) auto
      then have "restored d s0 ps0 s3 (p # qs')"
        using s3(2-5) r(3,4,6) by (auto simp: restored_def)
      moreover have "alloc_step d oldsz newsz (a, s) = Ret (Inr (0, s3))"
        using a(3) full(1-3) r(1) s3(1) by (simp add: alloc_step_def Let_def)
      ultimately show ?thesis using failed by blast
    next
      case (mapped s1 s2 ps')
      have "grown d s0 ps0 s2 ps' ?lo (unat a + 4096)"
        using nh span_a lt(1) c(1) mapped Cons
        by (intro grown_step [OF g a(1,2) _ _ mapped(4-6)]) auto
      moreover have "alloc_step d oldsz newsz (a, s) = Ret (Inl (a + PGSIZE, s2))"
        using a(3) mapped(1-3) by (simp add: alloc_step_def Let_def)
      ultimately show ?thesis using more by blast
    qed
  qed
qed

lemma alloc_loop:
  assumes us0: "uspace s0 d ps0" and cg: "can_grow s0 d oldsz newsz"
    and g: "grown d s0 ps0 s ps (unat (PGROUNDUP oldsz)) (unat a)"
    and a: "4096 dvd unat a" "unat (PGROUNDUP oldsz) \<le> unat a" "unat a \<le> unat (PGROUNDUP newsz)"
    and k: "(unat (PGROUNDUP newsz) - unat a) div 4096 < k"
  shows "\<exists>r s' ps'. loop k (alloc_step d oldsz newsz) (a, s) = Ret (r, s') \<and>
    (r = newsz \<and> grown d s0 ps0 s' ps' (unat (PGROUNDUP oldsz)) (unat (PGROUNDUP newsz)) \<or>
     r = 0 \<and> restored d s0 ps0 s' ps')"
  using g a k
proof (induction k arbitrary: s ps a)
  case 0
  then show ?case by simp
next
  case (Suc k)
  have new: "unat newsz \<le> 0xFFFFF000" using can_growD(1) [OF cg] by simp
  note up = PGROUNDUP_props [OF new]
  show ?case
  proof (cases "a < newsz")
    case False
    then have "PGROUNDUP newsz \<le> a"
      using PGROUNDUP_le_iff [OF new Suc.prems(2)] by simp
    then have "unat a = unat (PGROUNDUP newsz)" using Suc.prems(4) by (simp add: word_le_nat_alt)
    with Suc.prems(1) have "grown d s0 ps0 s ps (unat (PGROUNDUP oldsz)) (unat (PGROUNDUP newsz))" by simp
    moreover have "loop (Suc k) (alloc_step d oldsz newsz) (a, s) = Ret (newsz, s)"
      using False by (simp add: alloc_step_def)
    ultimately show ?thesis by blast
  next
    case True
    have lt: "unat a < unat newsz" using True by (simp add: word_less_nat_alt)
    have room: "unat a + 4096 \<le> unat (PGROUNDUP newsz)"
      using lt up(2) by (intro dvd_less_room [OF Suc.prems(2) up(1)]) simp
    have u: "unat (a + PGSIZE) = unat a + 4096"
      using lt can_growD(1) [OF cg] by (subst unat_add_no_wrap) auto
    from us0 cg Suc.prems(1-3) True show ?thesis
    proof (cases rule: alloc_step_cases)
      case (failed s' ps')
      then show ?thesis by auto
    next
      case (more s' ps')
      have "(unat (PGROUNDUP newsz) - unat a) div 4096 = Suc ((unat (PGROUNDUP newsz) - unat a - 4096) div 4096)"
        using room by (intro le_div_geq) auto
      then have "(unat (PGROUNDUP newsz) - unat (a + PGSIZE)) div 4096 < k"
        using Suc.prems(5) by (simp add: u)
      then have "\<exists>r s'' ps''. loop k (alloc_step d oldsz newsz) (a + PGSIZE, s') = Ret (r, s'') \<and>
          (r = newsz \<and> grown d s0 ps0 s'' ps'' (unat (PGROUNDUP oldsz)) (unat (PGROUNDUP newsz)) \<or>
           r = 0 \<and> restored d s0 ps0 s'' ps'')"
        using more(2) Suc.prems(2,3) room by (intro Suc.IH) (simp_all add: u)
      then show ?thesis using more(1) by simp
    qed
  qed
qed

lemma allocuvm_base:
  assumes "uspace s d ps" "can_grow s d oldsz newsz"
  shows "\<exists>r s' ps'. allocuvm d oldsz newsz s = Ret (r, s') \<and>
    (r = newsz \<and> grown d s ps s' ps' (unat (PGROUNDUP oldsz)) (unat (PGROUNDUP newsz)) \<or>
     r = 0 \<and> restored d s ps s' ps')"
proof -
  note c = can_growD [OF assms(2)]
  have le: "unat oldsz \<le> 0xFFFFF000" "unat newsz \<le> 0xFFFFF000"
    using c(1,2) by (simp_all add: word_le_nat_alt)
  have mono: "unat (PGROUNDUP oldsz) \<le> unat (PGROUNDUP newsz)"
    unfolding unat_PGROUNDUP [OF le(1)] unat_PGROUNDUP [OF le(2)]
    using c(2) by (intro mult_le_mono1 div_le_mono) (simp add: word_le_nat_alt)
  have fuel: "(unat (PGROUNDUP newsz) - unat (PGROUNDUP oldsz)) div 4096 < all_pages"
    using PGROUNDUP_props(3) [OF le(2)] c(1) by (intro less_mult_imp_div_less) simp
  have "allocuvm d oldsz newsz s = loop all_pages (alloc_step d oldsz newsz) (PGROUNDUP oldsz, s)"
    using c(1,2) by (simp add: allocuvm_def word_le_nat_alt word_less_nat_alt)
  then show ?thesis
    using alloc_loop [OF assms grown_refl [OF assms(1) c(6)] c(6) order_refl mono fuel] by simp
qed

section \<open>Properties\<close>

text \<open>An empty address space over a machine with two free pages left, for concrete instances.\<close>

lemma example_space:
  obtains s where "uspace s 0x80200000 [0x80201000, 0x80202000]" "entry (mem s) 0x80200000 = (\<lambda>_. 0)"
    "\<And>i. unat i < 1024 \<Longrightarrow> \<not> huge (mem s) 0x80200000 i" "tabs (mem s) 0x80200000 = {}"
proof -
  have "kpool machine0 []" by (simp add: kpool_def)
  moreover have "kpage machine0 0x80202000" "kpage machine0 0x80201000" "kpage machine0 0x80200000"
    by (simp_all add: kpage_iff)
  ultimately obtain s0 where s0: "kpool s0 [0x80200000, 0x80201000, 0x80202000]" "kpage s0 = kpage machine0"
    using base_pages.free_all_valid [of machine0 "[]" "[0x80202000, 0x80201000, 0x80200000]"] by auto
  obtain s' where s': "aspace (s'\<lparr>mem := memset (mem s') 0x80200000 0 PGSIZE\<rparr>) 0x80200000 [0x80201000, 0x80202000]"
    "entry (memset (mem s') 0x80200000 0 PGSIZE) 0x80200000 = (\<lambda>_. 0)"
    "tabs (memset (mem s') 0x80200000 0 PGSIZE) 0x80200000 = {}"
    "\<And>i. unat i < 1024 \<Longrightarrow> \<not> huge (memset (mem s') 0x80200000 0 PGSIZE) 0x80200000 i"
    "kframe {0x80200000} s0 (s'\<lparr>mem := memset (mem s') 0x80200000 0 PGSIZE\<rparr>)"
    using empty_space [OF s0(1)] by metis
  let ?s = "s'\<lparr>mem := memset (mem s') 0x80200000 0 PGSIZE\<rparr>"
  have "\<not> kpage machine0 0x80000000" by (simp add: kpage_iff word_le_nat_alt)
  then have "\<not> kpage ?s 0x80000000" using s0(2) kframeD(8) [OF s'(5)] by simp
  then have "KERNBASE < kend ?s" by (simp add: kpage_iff)
  then have "uspace ?s 0x80200000 [0x80201000, 0x80202000]"
    using s' by (auto simp: uspace_def frames_def present_def)
  then show ?thesis using that [of ?s] s' by simp
qed

text \<open>
  Claim C3. \<open>allocuvm\<close> grows an address space completely or not at all. It returns; either it returns the new
  size and every page of the added range is mapped writable for the user to a zeroed frame of
  its own taken from the free list, or it returns 0, every page has the entry it had before and
  every page it took is free again or a page table. In both cases all other entries, the frames
  already in use and the well-formedness of the address space are preserved.
\<close>

theorem allocuvm_grows_or_restores:
  assumes "uspace s d ps" "can_grow s d oldsz newsz"
  shows "\<exists>r s' ps'. allocuvm d oldsz newsz s = Ret (r, s') \<and>
    (r = newsz \<and> grown d s ps s' ps' (unat (PGROUNDUP oldsz)) (unat (PGROUNDUP newsz)) \<or>
     r = 0 \<and> restored d s ps s' ps')"
  using assms by (rule allocuvm_base)

theorem allocuvm_grows_or_restores_witness:
  "\<exists>s d ps r s' ps'. uspace s d ps \<and> allocuvm d 0 4096 s = Ret (r, s') \<and>
     (r = 4096 \<and> grown d s ps s' ps' 0 4096 \<or> r = 0 \<and> restored d s ps s' ps')"
proof (rule example_space)
  fix s assume s: "uspace s 0x80200000 [0x80201000, 0x80202000]" "entry (mem s) 0x80200000 = (\<lambda>_. 0)"
    "\<And>i. unat i < 1024 \<Longrightarrow> \<not> huge (mem s) 0x80200000 i"
  then have "can_grow s 0x80200000 0 4096" by (simp add: can_grow_def)
  from allocuvm_grows_or_restores [OF s(1) this] s(1) show ?thesis
    by (simp add: unat_PGROUNDUP) blast
qed

text \<open>
  Claim C14. \<open>deallocuvm\<close> on a range without 4 MB pages returns the new size, clears exactly the present
  entries of the range, puts exactly their frames on the free list, and leaves every other
  entry and every frame that stays mapped alone.
\<close>

theorem deallocuvm_unmaps_range:
  assumes "uspace s d ps" "newsz < oldsz" "unat oldsz \<le> 0x80000000"
    and "\<forall>x. newsz \<le> x \<longrightarrow> x < oldsz \<longrightarrow> \<not> huge (mem s) d (PDX x)"
  shows "\<exists>s' ps'. deallocuvm d oldsz newsz s = Ret (newsz, s') \<and>
    shrunk d s ps s' ps' (unat (PGROUNDUP newsz)) (unat oldsz)"
  using assms by (intro deallocuvm_base) auto

theorem deallocuvm_unmaps_range_witness:
  "\<exists>s d ps s' ps'. uspace s d ps \<and> deallocuvm d 8192 0 s = Ret (0, s') \<and> shrunk d s ps s' ps' 0 8192"
proof (rule example_space)
  fix s assume s: "uspace s 0x80200000 [0x80201000, 0x80202000]"
    "\<And>i. unat i < 1024 \<Longrightarrow> \<not> huge (mem s) 0x80200000 i"
  from deallocuvm_unmaps_range [OF s(1), of 0 8192] s show ?thesis
    by (simp add: unat_PGROUNDUP) blast
qed

text \<open>
  Claim C13. \<open>freevm\<close> gives back everything: for an address space without 4 MB pages below \<^verbatim>\<open>KERNBASE\<close> it
  returns with every user frame, every page table and the page directory on the free list, once
  each, and changes memory nowhere else.
\<close>

theorem freevm_returns_all_pages:
  assumes "uspace s d ps" "\<forall>x. unat x < 0x80000000 \<longrightarrow> \<not> huge (mem s) d (PDX x)"
  shows "\<exists>s' ps'. freevm d s = Ret s' \<and> kpool s' ps' \<and> set ps' = pages s d ps \<and>
    kframe (insert d (frames (mem s) d \<union> tabs (mem s) d)) s s'"
  using assms by (intro freevm_base) auto

theorem freevm_returns_all_pages_witness:
  "\<exists>s d ps s' ps'. uspace s d ps \<and> freevm d s = Ret s' \<and> kpool s' ps' \<and> 0x80200000 \<in> set ps'"
proof (rule example_space)
  fix s assume s: "uspace s 0x80200000 [0x80201000, 0x80202000]"
    "\<And>i. unat i < 1024 \<Longrightarrow> \<not> huge (mem s) 0x80200000 i"
  from freevm_returns_all_pages [OF s(1)] s show ?thesis
    unfolding pages_def by fastforce
qed

end
