(* ===== verification/Vm_Huge.thy ===== *)
theory Vm_Huge
  imports Vm_Grow
begin

text \<open>
  The 4 MB part of an address space: \<open>allochugeuvm\<close>, and what \<open>deallocuvm\<close> and \<open>deallochugeuvm\<close> do when they
  meet a 4 MB page. They look up a page table entry for it; as a 4 MB page has no page table, what
  they read is the first word of the page itself, which belongs to the user.
\<close>

section \<open>Huge frames\<close>

lemma hpage_V2P:
  assumes "hpage h"
  shows "4194304 dvd unat (V2P h)" "4096 dvd unat (V2P h)" "HUGE_PAGE_START \<le> V2P h" "V2P h < HUGE_PAGE_END"
proof -
  have u: "unat (V2P h) = unat h - 0x80000000"
    using assms by (simp add: V2P_def hpage_iff unat_sub word_le_nat_alt)
  show d: "4194304 dvd unat (V2P h)" using assms by (simp add: u hpage_iff dvd_diff_nat)
  have "(4096 :: nat) dvd 4194304" by simp
  then show "4096 dvd unat (V2P h)" using d by (rule dvd_trans)
  show "HUGE_PAGE_START \<le> V2P h" "V2P h < HUGE_PAGE_END"
    using assms by (auto simp: hpage_def)
qed

text \<open>Memory that agrees on all kernel pages.\<close>

lemma aspace_cong:
  assumes "aspace s d ps" "kpool s' ps" "kpage s' = kpage s"
    and w: "\<And>q j. kpage s q \<Longrightarrow> unat j < 1024 \<Longrightarrow> load32 (mem s') (q + 4 * j) = load32 (mem s) (q + 4 * j)"
  shows "aspace s' d ps" "entry (mem s') d = entry (mem s) d"
    "unat i < 1024 \<Longrightarrow> tab (mem s') d i = tab (mem s) d i"
    "unat i < 1024 \<Longrightarrow> huge (mem s') d i = huge (mem s) d i"
proof -
  have dir: "load32 (mem s') (d + 4 * i) = load32 (mem s) (d + 4 * i)" if "unat i < 1024" for i
    using w [OF aspaceD(2) [OF assms(1)] that] .
  then have tab: "tab (mem s') d i = tab (mem s) d i" and huge: "huge (mem s') d i = huge (mem s) d i"
    if "unat i < 1024" for i using that by (simp_all add: tab_def huge_def)
  then show "unat i < 1024 \<Longrightarrow> tab (mem s') d i = tab (mem s) d i"
    "unat i < 1024 \<Longrightarrow> huge (mem s') d i = huge (mem s) d i" by blast+
  have "load32 (mem s') (t + 4 * j) = load32 (mem s) (t + 4 * j)"
    if "tab (mem s) d i = Some t" "unat i < 1024" "unat j < 1024" for i j t
    using w [OF aspaceD(4) [OF assms(1) that(1,2)] that(3)] .
  then show "entry (mem s') d = entry (mem s) d"
    by (auto simp: fun_eq_iff entry_def tab huge dir split: option.split)
  show "aspace s' d ps"
  proof (rule aspaceI [OF assms(2)])
    show "kpage s' d" "d \<notin> set ps" using aspaceD(2,3) [OF assms(1)] assms(3) by simp_all
    fix i t assume i: "tab (mem s') d i = Some t" "unat i < 1024"
    then have t: "tab (mem s) d i = Some t" using tab by simp
    show "kpage s' t \<and> t \<noteq> d \<and> t \<notin> set ps"
      using aspaceD(4-6) [OF assms(1) t i(2)] assms(3) by simp
  next
    fix i j t assume "tab (mem s') d i = Some t" "tab (mem s') d j = Some t" "unat i < 1024" "unat j < 1024"
    then show "i = j" using aspaceD(7) [OF assms(1), of i t j] by (simp add: tab)
  next
    fix i assume "load32 (mem s') (d + 4 * i) AND PTE_P = 0" "unat i < 1024"
    then show "load32 (mem s') (d + 4 * i) = 0" using aspaceD(8) [OF assms(1), of i] by (simp add: dir)
  qed
qed

lemma load32_memset_huge:
  assumes "hpage h" "kpage s q" "unat j < 1024"
  shows "load32 (memset m h c HUGE_PAGE_SIZE) (q + 4 * j) = load32 m (q + 4 * j)"
proof -
  have "unat (q + 4 * j - q) < 4096" using slot_offset(1) [OF assms(3), of q] assms(3) by simp
  then have "4194304 \<le> unat (q + 4 * j - h)" by (rule kpage_hpage_apart(1) [OF assms(2,1)])
  then show ?thesis
    using slot_dvd_4 [OF assms(2,3)] hpage_dvd_4 [OF assms(1)] by (subst load32_memset) auto
qed

definition zero_huge :: "memory \<Rightarrow> u32 \<Rightarrow> bool" where
  "zero_huge m h \<longleftrightarrow> (\<forall>x. unat (x - h) < 4194304 \<longrightarrow> m x = 0)"

lemma zero_huge_load32: "zero_huge m h \<Longrightarrow> load32 m h = 0"
  by (simp add: zero_huge_def load32_def)

section \<open>Taking a huge page\<close>

lemma take_huge:
  assumes "aspace s d ps" "hpool s (h # hs)"
  obtains s1 where "khugealloc s = Ret (h, s1)" "h \<noteq> 0" "hpage h" "h \<notin> set hs"
    "aspace (s1\<lparr>mem := memset (mem s1) h 0 HUGE_PAGE_SIZE\<rparr>) d ps"
    "hpool (s1\<lparr>mem := memset (mem s1) h 0 HUGE_PAGE_SIZE\<rparr>) hs"
    "entry (memset (mem s1) h 0 HUGE_PAGE_SIZE) d = entry (mem s) d"
    "\<And>i. unat i < 1024 \<Longrightarrow> tab (memset (mem s1) h 0 HUGE_PAGE_SIZE) d i = tab (mem s) d i"
    "\<And>i. unat i < 1024 \<Longrightarrow> huge (memset (mem s1) h 0 HUGE_PAGE_SIZE) d i = huge (mem s) d i"
    "zero_huge (memset (mem s1) h 0 HUGE_PAGE_SIZE) h" "mem s1 = mem s"
proof -
  let ?s1 = "settle (huse_lock (khugemem s) \<noteq> 0)
    (s\<lparr>khugemem := (khugemem s)\<lparr>freehugelist := load32 (mem s) h\<rparr>\<rparr>)"
  let ?s2 = "?s1\<lparr>mem := memset (mem ?s1) h 0 HUGE_PAGE_SIZE\<rparr>"
  have a: "khugealloc s = Ret (h, ?s1)" using khugealloc_pool [OF assms(2)] .
  have h: "hpage h" "h \<notin> set hs" "h \<noteq> 0"
    using hpoolD(3,4) [OF assms(2)] hpage_nonzero by auto
  have "kpool ?s1 ps" using khugealloc_kpool [OF aspaceD(1) [OF assms(1)] a] .
  moreover have "run_list (memset (mem s) h 0 HUGE_PAGE_SIZE) q ps = run_list (mem s) q ps" for q
    using load32_memset_huge [OF h(1), of s _ 0] kpoolD(4) [OF aspaceD(1) [OF assms(1)]]
    by (intro run_list_cong) simp
  ultimately have "kpool ?s2 ps" by (simp add: kpool_def)
  moreover have "hpool ?s1 hs" using huge_pages.alloc_some [OF assms(2)] a by auto
  then have "hpool ?s2 hs"
  proof -
    have "load32 (memset (mem s) h 0 HUGE_PAGE_SIZE) x = load32 (mem s) x" if "x \<in> set hs" for x
    proof -
      have x: "x \<noteq> h" "hpage x" using h(2) that hpoolD(4) [OF assms(2), of x] by auto
      then have "4194304 \<le> unat (x - h)" using hpage_apart [of x h x] h(1) by simp
      then show ?thesis using h(1) x(2) by (subst load32_memset) auto
    qed
    then show ?thesis using \<open>hpool ?s1 hs\<close> run_list_cong [of hs "mem ?s2" "mem ?s1"] by (simp add: hpool_def)
  qed
  ultimately show ?thesis
    using that [of ?s1] a h aspace_cong [OF assms(1), of ?s2] load32_memset_huge [OF h(1), of s]
    by (simp add: zero_huge_def memset_eq)
qed

section \<open>deallocuvm over 4 MB pages\<close>

text \<open>
  A 4 MB page (or hole) at \<open>b\<close> over which \<open>deallocuvm\<close> passes without doing anything: there is neither a
  page table nor a mapping, or there is a 4 MB page whose first word has the lowest bit clear.
\<close>

definition inert :: "memory \<Rightarrow> u32 \<Rightarrow> u32 \<Rightarrow> bool" where
  "inert m d b \<longleftrightarrow>
     (if huge m d (PDX b)
      then frame_of (entry m d b) \<noteq> 0 \<and> load32 m (frame_of (entry m d b)) AND PTE_P = 0
      else tab m d (PDX b) = None)"

lemma huge_aligned:
  assumes "4194304 dvd unat b"
  shows "PTX b = 0" "HUGEPGROUNDUP b = b" "PGROUNDUP b = b" "4096 dvd unat b"
proof -
  obtain k where k: "unat b = 4194304 * k" using assms by (elim dvdE)
  have room: "unat b + 4194304 \<le> 4294967296" using aligned_room [of 22 b] assms by simp
  have "unat (PTX b) = 0" unfolding unat_PTX k by simp
  then show "PTX b = 0" by (simp add: unsigned_eq_0_iff)
  have "unat (HUGEPGROUNDUP b) = unat b" using room by (subst unat_HUGEPGROUNDUP) (simp_all add: k)
  then show "HUGEPGROUNDUP b = b" by (simp add: word_unat_eq_iff)
  have "unat (PGROUNDUP b) = unat b" using room by (subst unat_PGROUNDUP) (simp_all add: k)
  then show "PGROUNDUP b = b" by (simp add: word_unat_eq_iff)
  have "(4096 :: nat) dvd 4194304" by simp
  then show "4096 dvd unat b" using assms by (rule dvd_trans)
qed

lemma next_table_aligned:
  assumes "4194304 dvd unat b" "unat b < 0x80000000"
  shows "PGADDR (PDX b + 1) 0 0 = b + HUGE_PAGE_SIZE" "unat (b + HUGE_PAGE_SIZE) = unat b + 4194304"
    "unat b + 4194304 \<le> 0x80000000"
proof -
  show u: "unat (b + HUGE_PAGE_SIZE) = unat b + 4194304"
    using assms(2) by (subst unat_add_no_wrap) auto
  have "unat b div 4194304 * 4194304 = unat b" using assms(1) by simp
  then have "unat (PGADDR (PDX b + 1) 0 0) = unat (b + HUGE_PAGE_SIZE)"
    unfolding u next_table(1) [OF assms(2)] by simp
  then show "PGADDR (PDX b + 1) 0 0 = b + HUGE_PAGE_SIZE" by (simp add: word_unat_eq_iff)
  show "unat b + 4194304 \<le> 0x80000000" using assms by (intro dvd_less_room) simp_all
qed

lemma walk_huge:
  assumes "huge m d (PDX b)" "mem s = m"
  shows "walkpgdir d b False s = Ret (frame_of (entry m d b) + 4 * PTX b, s)"
  using assms by (simp add: walkpgdir_def huge_def entry_def Let_def)

lemma dealloc_step_inert:
  assumes "aspace s d ps" "4194304 dvd unat b" "b < oldsz" "unat oldsz \<le> 0x80000000" "inert (mem s) d b"
  shows "dealloc_step d oldsz newsz (b, s) = Ret (Inl (b + HUGE_PAGE_SIZE, s))"
proof -
  have b: "unat b < 0x80000000" using assms(3,4) by (simp add: word_less_nat_alt)
  note nt = next_table_aligned [OF assms(2) b]
  have ps: "huge (mem s) d (PDX b) \<longleftrightarrow> load32 (mem s) (d + 4 * PDX b) AND PTE_PS \<noteq> 0"
    using huge_iff [OF assms(1) PDX_less] .
  show ?thesis
  proof (cases "huge (mem s) d (PDX b)")
    case True
    then show ?thesis
      using assms(3,5) ps walk_huge [OF True refl] huge_aligned(1) [OF assms(2)]
      by (simp add: dealloc_step_def inert_def)
  next
    case False
    then show ?thesis
      using assms(3,5) ps walkpgdir_none(1) [of s d b] nt(1)
      by (simp add: dealloc_step_def inert_def)
  qed
qed

lemma dealloc_loop_inert:
  assumes "aspace s d ps" "4194304 dvd unat a" "unat oldsz \<le> 0x80000000" "(0x80000000 - unat a) div 4194304 < k"
    and "\<And>b. 4194304 dvd unat b \<Longrightarrow> a \<le> b \<Longrightarrow> b < oldsz \<Longrightarrow> inert (mem s) d b"
  shows "loop k (dealloc_step d oldsz newsz) (a, s) = Ret (newsz, s)"
  using assms
proof (induction k arbitrary: a)
  case 0
  then show ?case by simp
next
  case (Suc k)
  show ?case
  proof (cases "a < oldsz")
    case False
    then show ?thesis by (simp add: dealloc_step_def)
  next
    case True
    then have lt: "unat a < 0x80000000" using Suc.prems(3) by (simp add: word_less_nat_alt)
    note nt = next_table_aligned [OF Suc.prems(2) lt]
    have "(0x80000000 - unat a) div 4194304 = Suc ((0x80000000 - unat a - 4194304) div 4194304)"
      using nt(3) by (intro le_div_geq) auto
    then have "(0x80000000 - unat (a + HUGE_PAGE_SIZE)) div 4194304 < k"
      using Suc.prems(4) by (simp add: nt(2))
    moreover have "4194304 dvd unat (a + HUGE_PAGE_SIZE)" unfolding nt(2) using Suc.prems(2) by simp
    moreover have "inert (mem s) d b" if "4194304 dvd unat b" "a + HUGE_PAGE_SIZE \<le> b" "b < oldsz" for b
      using that Suc.prems(5) nt(2) by (simp add: word_le_nat_alt)
    ultimately have "loop k (dealloc_step d oldsz newsz) (a + HUGE_PAGE_SIZE, s) = Ret (newsz, s)"
      using Suc.prems(1,3) by (intro Suc.IH)
    then show ?thesis
      using dealloc_step_inert [OF Suc.prems(1,2) True Suc.prems(3)] Suc.prems(2,5) True by simp
  qed
qed

lemma deallocuvm_inert:
  assumes "aspace s d ps" "4194304 dvd unat newsz" "newsz < oldsz" "unat oldsz \<le> 0x80000000"
    and "\<And>b. 4194304 dvd unat b \<Longrightarrow> newsz \<le> b \<Longrightarrow> b < oldsz \<Longrightarrow> inert (mem s) d b"
  shows "deallocuvm d oldsz newsz s = Ret (newsz, s)"
proof -
  have "deallocuvm d oldsz newsz s = loop all_pages (dealloc_step d oldsz newsz) (newsz, s)"
    using assms(3) huge_aligned(2,3) [OF assms(2)] by (simp add: deallocuvm_def not_le [symmetric])
  moreover have "(0x80000000 - unat newsz) div 4194304 < all_pages"
    by (intro less_mult_imp_div_less) simp
  ultimately show ?thesis using dealloc_loop_inert [OF assms(1,2,4)] assms(5) by simp
qed

section \<open>allochugeuvm\<close>

text \<open>The entries after mapping the pages \<open>hs\<close> one after the other from \<open>a\<close> on.\<close>

primrec map_huges :: "(u32 \<Rightarrow> u32) \<Rightarrow> u32 \<Rightarrow> u32 list \<Rightarrow> u32 \<Rightarrow> u32" where
  "map_huges e a [] = e"
| "map_huges e a (h # hs) = map_huges (set_huge e a (V2P h OR 0x87)) (a + HUGE_PAGE_SIZE) hs"

lemma zero_huge_other:
  assumes "zero_huge m h'" "hpage h'" "hpage h" "h' \<noteq> h"
  shows "zero_huge (memset m h c HUGE_PAGE_SIZE) h'"
  using assms(1) leD [OF hpage_apart [OF assms(2,3,4)]] by (simp add: zero_huge_def memset_eq)

lemma zero_huge_kframe:
  assumes "zero_huge (mem s) h" "hpage h" "kframe U s s'"
  shows "zero_huge (mem s') h"
  using assms hpage_same_outside [OF kframeD(1,2) [OF assms(3)] assms(2)] by (simp add: zero_huge_def)

lemma map_huge_span_one:
  assumes "4194304 dvd unat a"
  shows "map_huge_span e a pa perm 1 = set_huge e a (pa OR perm OR PTE_P OR PTE_PS)"
proof -
  have "unat a + 4194304 * 1 \<le> 4294967296" using assms aligned_room [of 22 a] by simp
  then show ?thesis using map_huge_range_span [OF assms, of 1 e pa perm] by simp
qed

lemma alloc_huge_one:
  assumes "aspace s d ps" "hpool s (h # hs)" "4194304 dvd unat a" "tab (mem s) d (PDX a) = None"
  obtains s1 s3 where "khugealloc s = Ret (h, s1)" "h \<noteq> 0" "hpage h" "h \<notin> set hs"
    "mappages d a HUGE_PAGE_SIZE (V2P h) (PTE_PS OR PTE_W OR PTE_U)
       (s1\<lparr>mem := memset (mem s1) h 0 HUGE_PAGE_SIZE\<rparr>) = Ret (0, s3)"
    "aspace s3 d ps" "hpool s3 hs" "entry (mem s3) d = set_huge (entry (mem s) d) a (V2P h OR 0x87)"
    "\<And>i. unat i < 1024 \<Longrightarrow> tab (mem s3) d i = tab (mem s) d i"
    "\<And>x. huge (mem s3) d (PDX x) \<longleftrightarrow> PDX x = PDX a \<or> huge (mem s) d (PDX x)" "zero_huge (mem s3) h"
    "\<And>h'. zero_huge (mem s) h' \<Longrightarrow> hpage h' \<Longrightarrow> h' \<noteq> h \<Longrightarrow> zero_huge (mem s3) h'"
proof -
  obtain s1 where s1: "khugealloc s = Ret (h, s1)" "h \<noteq> 0" "hpage h" "h \<notin> set hs"
    and s2: "aspace (s1\<lparr>mem := memset (mem s1) h 0 HUGE_PAGE_SIZE\<rparr>) d ps"
      "hpool (s1\<lparr>mem := memset (mem s1) h 0 HUGE_PAGE_SIZE\<rparr>) hs"
      "entry (memset (mem s1) h 0 HUGE_PAGE_SIZE) d = entry (mem s) d"
      "\<And>i. unat i < 1024 \<Longrightarrow> tab (memset (mem s1) h 0 HUGE_PAGE_SIZE) d i = tab (mem s) d i"
      "\<And>i. unat i < 1024 \<Longrightarrow> huge (memset (mem s1) h 0 HUGE_PAGE_SIZE) d i = huge (mem s) d i"
      "zero_huge (memset (mem s1) h 0 HUGE_PAGE_SIZE) h" "mem s1 = mem s"
    using take_huge [OF assms(1,2)] by blast
  define t where "t = s1\<lparr>mem := memset (mem s1) h 0 HUGE_PAGE_SIZE\<rparr>"
  note page = PDX_page [OF assms(3)]
  have nt: "no_table (mem t) d a 1"
    unfolding no_table_def
  proof (intro allI impI)
    fix x :: u32 assume "unat a \<le> unat x" "unat x < unat a + 4194304 * 1"
    then have "PDX x = PDX a" using page [of x] by linarith
    then show "tab (mem t) d (PDX x) = None" using assms(4) s2(4) [OF PDX_less, of a] by (simp add: t_def)
  qed
  have room: "unat a + 4194304 * 1 \<le> 4294967296" using assms(3) aligned_room [of 22 a] by simp
  have sz: "unat HUGE_PAGE_SIZE = 4194304 * 1" by simp
  obtain s3 where s3: "mappages d a HUGE_PAGE_SIZE (V2P h) (PTE_PS OR PTE_W OR PTE_U) t = Ret (0, s3)"
    "huge_step d ps t s3" "entry (mem s3) d = map_huge_span (entry (mem t) d) a (V2P h) (PTE_PS OR PTE_W OR PTE_U) 1"
    "\<And>x. huge (mem s3) d (PDX x) \<longleftrightarrow> huge (mem t) d (PDX x) \<or> unat a \<le> unat x \<and> unat x < unat a + 4194304 * 1"
    using mappages_huge [OF s2(1) [folded t_def] assms(3) sz zero_less_one room hpage_V2P(3,4) [OF s1(3)] nt,
        of "PTE_PS OR PTE_W OR PTE_U"] by blast
  have k: "kframe {d} t s3" "aspace s3 d ps" "\<And>i. unat i < 1024 \<Longrightarrow> tab (mem s3) d i = tab (mem t) d i"
    using s3(2) by (auto simp: huge_step_def)
  have "hpool s3 hs"
    using hpool_kframe [OF s2(2) [folded t_def] k(1)] kpoolD(1) [OF aspaceD(1) [OF k(2)]] by blast
  moreover have "zero_huge (mem s3) h"
    using zero_huge_kframe [OF _ s1(3) k(1)] s2(6) by (simp add: t_def)
  moreover have "zero_huge (mem s3) h'" if "zero_huge (mem s) h'" "hpage h'" "h' \<noteq> h" for h'
    using zero_huge_kframe [OF _ that(2) k(1)] zero_huge_other [OF that(1,2) s1(3) that(3)] s2(7) by (simp add: t_def)
  moreover have "entry (mem s3) d = set_huge (entry (mem s) d) a (V2P h OR 0x87)"
    using s3(3) map_huge_span_one [OF assms(3)] s2(3) by (simp add: t_def)
  moreover have "huge (mem s3) d (PDX x) \<longleftrightarrow> PDX x = PDX a \<or> huge (mem s) d (PDX x)" for x
    unfolding s3(4) page t_def using s2(5) by auto
  moreover have "tab (mem s3) d i = tab (mem s) d i" if "unat i < 1024" for i
    using k(3) [OF that] s2(4) [OF that] by (simp add: t_def)
  ultimately show ?thesis using that [OF s1] s3(1) k(2) unfolding t_def by blast
qed

text \<open>Outside the pages mapped the directory is the same.\<close>

definition same_slots :: "u32 \<Rightarrow> machine \<Rightarrow> machine \<Rightarrow> nat \<Rightarrow> bool" where
  "same_slots d s s' hi \<longleftrightarrow> (\<forall>x. hi \<le> unat x \<longrightarrow>
     tab (mem s') d (PDX x) = tab (mem s) d (PDX x) \<and> huge (mem s') d (PDX x) = huge (mem s) d (PDX x))"

definition took :: "machine \<Rightarrow> u32 \<Rightarrow> u32 list \<Rightarrow> u32 \<Rightarrow> bool" where
  "took s d hs b \<longleftrightarrow> huge (mem s) d (PDX b) \<and>
     (\<exists>h. entry (mem s) d b = V2P h OR 0x87 \<and> hpage h \<and> h \<notin> set hs \<and> zero_huge (mem s) h)"

lemma took_inert: "took s d hs b \<Longrightarrow> inert (mem s) d b"
proof -
  assume "took s d hs b"
  then obtain h where h: "huge (mem s) d (PDX b)" "entry (mem s) d b = V2P h OR 0x87" "hpage h" "zero_huge (mem s) h"
    by (auto simp: took_def)
  then have "frame_of (entry (mem s) d b) = h"
    using PTE_ADDR_or [OF hpage_V2P(2) [OF h(3)], of 135] by (simp add: P2V_V2P)
  then show ?thesis using h hpage_nonzero [OF h(3)] by (simp add: inert_def zero_huge_load32)
qed

lemma alloc_huge_loop:
  assumes "aspace s d ps" "hpool s hs" "4194304 dvd unat a" "unat newsz \<le> 0x80000000"
    and "4194304 dvd unat oldsz" "oldsz \<le> a" "(0x80000000 - unat a) div 4194304 < k"
    and "\<And>b. 4194304 dvd unat b \<Longrightarrow> oldsz \<le> b \<Longrightarrow> b < a \<Longrightarrow> took s d hs b"
    and "\<And>b. 4194304 dvd unat b \<Longrightarrow> a \<le> b \<Longrightarrow> b < newsz \<Longrightarrow> tab (mem s) d (PDX b) = None \<and> \<not> huge (mem s) d (PDX b)"
    and "n = (unat newsz + 4194303 - unat a) div 4194304"
  shows "\<exists>s'. loop k (alloc_huge_step d oldsz newsz) (a, s) = Ret (if n \<le> length hs then newsz else 0, s') \<and>
    aspace s' d ps \<and> hpool s' (drop n hs) \<and> entry (mem s') d = map_huges (entry (mem s) d) a (take n hs) \<and>
    same_slots d s s' (unat a + 4194304 * n)"
  using assms
proof (induction k arbitrary: a s hs n)
  case 0
  then show ?case by simp
next
  case (Suc k)
  show ?case
  proof (cases "a < newsz")
    case False
    then have "n = 0" using Suc.prems(10) by (simp add: word_less_nat_alt not_less)
    then show ?thesis using False Suc.prems(1,2) by (simp add: alloc_huge_step_def same_slots_def)
  next
    case True
    then have lt: "unat a < unat newsz" "unat a < 0x80000000"
      using Suc.prems(4) by (simp_all add: word_less_nat_alt)
    note nt = next_table_aligned [OF Suc.prems(3) lt(2)]
    have n: "n = Suc ((unat newsz + 4194303 - unat a - 4194304) div 4194304)"
      unfolding Suc.prems(10) using lt(1) by (intro le_div_geq) auto
    show ?thesis
    proof (cases hs)
      case Nil
      obtain s1 where s1: "khugealloc s = Ret (0, s1)" "s1 = settle (huse_lock (khugemem s) \<noteq> 0) s"
        using khugealloc_pool_empty Suc.prems(2) Nil by blast
      let ?s1 = "cprintf (''allochugeuvm out of memory'' @ [CHR 0x0A]) s1"
      have same: "aspace ?s1 d ps = aspace s d ps" "mem ?s1 = mem s" "hpool ?s1 = hpool s"
        by (simp_all add: s1(2) aspace_def kpool_def cprintf_def hpool_def fun_eq_iff)
      have "inert (mem s) d b" if "4194304 dvd unat b" "oldsz \<le> b" "b < newsz" for b
        using that Suc.prems(8) [of b] Suc.prems(9) [of b] took_inert [of s d hs b]
        by (cases "b < a") (auto simp: inert_def)
      then have "deallocuvm d newsz oldsz ?s1 = Ret (oldsz, ?s1)"
        using Suc.prems(1,4,5,6) True same by (intro deallocuvm_inert) auto
      then have "alloc_huge_step d oldsz newsz (a, s) = Ret (Inr (0, ?s1))"
        using True s1(1) by (simp add: alloc_huge_step_def Let_def)
      then show ?thesis using Suc.prems(1,2) same n Nil by (simp add: same_slots_def)
    next
      case (Cons h hs')
      have "tab (mem s) d (PDX a) = None" using Suc.prems(9) [of a] Suc.prems(3) True by simp
      then obtain s1 s3 where s1: "khugealloc s = Ret (h, s1)" "h \<noteq> 0" "hpage h" "h \<notin> set hs'"
        and m: "mappages d a HUGE_PAGE_SIZE (V2P h) (PTE_PS OR PTE_W OR PTE_U)
          (s1\<lparr>mem := memset (mem s1) h 0 HUGE_PAGE_SIZE\<rparr>) = Ret (0, s3)"
        and s3: "aspace s3 d ps" "hpool s3 hs'" "entry (mem s3) d = set_huge (entry (mem s) d) a (V2P h OR 0x87)"
          "\<And>i. unat i < 1024 \<Longrightarrow> tab (mem s3) d i = tab (mem s) d i"
          "\<And>x. huge (mem s3) d (PDX x) \<longleftrightarrow> PDX x = PDX a \<or> huge (mem s) d (PDX x)" "zero_huge (mem s3) h"
          "\<And>h'. zero_huge (mem s) h' \<Longrightarrow> hpage h' \<Longrightarrow> h' \<noteq> h \<Longrightarrow> zero_huge (mem s3) h'"
        using alloc_huge_one [OF Suc.prems(1) _ Suc.prems(3)] Suc.prems(2) Cons by metis
      have step: "alloc_huge_step d oldsz newsz (a, s) = Ret (Inl (a + HUGE_PAGE_SIZE, s3))"
        using True s1(1,2) m by (simp add: alloc_huge_step_def Let_def)
      let ?n = "(unat newsz + 4194303 - unat (a + HUGE_PAGE_SIZE)) div 4194304"
      have "\<exists>s'. loop k (alloc_huge_step d oldsz newsz) (a + HUGE_PAGE_SIZE, s3)
            = Ret (if ?n \<le> length hs' then newsz else 0, s') \<and>
          aspace s' d ps \<and> hpool s' (drop ?n hs') \<and>
          entry (mem s') d = map_huges (entry (mem s3) d) (a + HUGE_PAGE_SIZE) (take ?n hs') \<and>
          same_slots d s3 s' (unat (a + HUGE_PAGE_SIZE) + 4194304 * ?n)"
      proof (rule Suc.IH [OF s3(1,2) _ Suc.prems(4,5)])
        show "4194304 dvd unat (a + HUGE_PAGE_SIZE)" unfolding nt(2) using Suc.prems(3) by simp
        show "oldsz \<le> a + HUGE_PAGE_SIZE" using Suc.prems(6) nt(2) by (simp add: word_le_nat_alt)
        have "(0x80000000 - unat a) div 4194304 = Suc ((0x80000000 - unat a - 4194304) div 4194304)"
          using nt(3) by (intro le_div_geq) auto
        then show "(0x80000000 - unat (a + HUGE_PAGE_SIZE)) div 4194304 < k"
          using Suc.prems(7) by (simp add: nt(2))
      next
        fix b assume b: "4194304 dvd unat b" "oldsz \<le> b" "b < a + HUGE_PAGE_SIZE"
        show "took s3 d hs' b"
        proof (cases "PDX b = PDX a")
          case True
          then show ?thesis using s3(3,5,6) s1(3,4) by (auto simp: took_def set_huge_def)
        next
          case False
          have "b < a"
            using b False PDX_page [OF Suc.prems(3), of b] nt(2) by (auto simp: word_less_nat_alt)
          then obtain h' where "huge (mem s) d (PDX b)" "entry (mem s) d b = V2P h' OR 0x87" "hpage h'"
            "h' \<notin> set hs" "zero_huge (mem s) h'" using Suc.prems(8) [OF b(1,2)] by (auto simp: took_def)
          then show ?thesis using s3(3,5,7) False Cons by (auto simp: took_def set_huge_def)
        qed
      next
        fix b assume b: "4194304 dvd unat b" "a + HUGE_PAGE_SIZE \<le> b" "b < newsz"
        have "PDX b \<noteq> PDX a" "a \<le> b"
          using b PDX_page [OF Suc.prems(3), of b] nt(2) by (auto simp: word_le_nat_alt)
        then show "tab (mem s3) d (PDX b) = None \<and> \<not> huge (mem s3) d (PDX b)"
          using Suc.prems(9) [OF b(1) _ b(3)] s3(4,5) by simp
      qed (rule refl)
      moreover have "n = Suc ?n" using n by (simp add: nt(2))
      moreover have "same_slots d s s3 (unat (a + HUGE_PAGE_SIZE))"
        unfolding same_slots_def using PDX_page [OF Suc.prems(3)] nt(2) s3(4,5) by (auto simp: PDX_less)
      ultimately show ?thesis using step s3(3) Cons nt(2) by (auto simp: same_slots_def)
    qed
  qed
qed

section \<open>Properties\<close>

text \<open>An empty address space over a machine with one 4 MB page left, for concrete instances.\<close>

lemma example_huge:
  obtains s where "aspace s 0x80200000 [0x80201000, 0x80202000]" "hpool s [0x9E000000]"
    "\<And>i. unat i < 1024 \<Longrightarrow> tab (mem s) 0x80200000 i = None"
    "\<And>i. unat i < 1024 \<Longrightarrow> \<not> huge (mem s) 0x80200000 i"
proof (rule example_space)
  fix s assume s: "uspace s 0x80200000 [0x80201000, 0x80202000]" "tabs (mem s) 0x80200000 = {}"
    "\<And>i. unat i < 1024 \<Longrightarrow> \<not> huge (mem s) 0x80200000 i"
  have as: "aspace s 0x80200000 [0x80201000, 0x80202000]" using s(1) by (simp add: uspace_def)
  have h: "hpage 0x9E000000" by (simp add: hpage_iff)
  let ?t = "s\<lparr>mem := memset (mem s) 0x9E000000 0 HUGE_PAGE_SIZE,
    khugemem := (khugemem s)\<lparr>freehugelist := 0x9E000000\<rparr>\<rparr>"
  note kp = kpoolD [OF aspaceD(1) [OF as]]
  have rl: "run_list (mem ?t) q [0x80201000, 0x80202000] = run_list (mem s) q [0x80201000, 0x80202000]" for q
    using load32_memset_huge [OF h, of s _ 0] kp(4) by (intro run_list_cong) simp
  have "kpool ?t [0x80201000, 0x80202000]"
    using aspaceD(1) [OF as] rl [of "freelist (kmem s)"] unfolding kpool_def by (simp add: locks_ok_def)
  note c = aspace_cong [OF as this]
  have w: "load32 (mem ?t) (q + 4 * j) = load32 (mem s) (q + 4 * j)" if "kpage s q" "unat j < 1024" for q j
    using load32_memset_huge [OF h that] by simp
  have "load32 (memset (mem s) 0x9E000000 0 HUGE_PAGE_SIZE) 0x9E000000 = 0"
    by (intro zero_huge_load32) (simp add: zero_huge_def memset_eq)
  then have "hpool ?t [0x9E000000]"
    using kp(1) h by (simp add: hpool_def locks_ok_def)
  moreover have "aspace ?t 0x80200000 [0x80201000, 0x80202000]"
    and "\<And>i. unat i < 1024 \<Longrightarrow> tab (mem ?t) 0x80200000 i = tab (mem s) 0x80200000 i"
    and "\<And>i. unat i < 1024 \<Longrightarrow> huge (mem ?t) 0x80200000 i = huge (mem s) 0x80200000 i"
    using c w by simp_all
  moreover have "tab (mem s) 0x80200000 i = None" if "unat i < 1024" for i
    using s(2) that by (cases "tab (mem s) 0x80200000 i") (auto simp: tabs_def)
  ultimately show ?thesis using that [of ?t] s(3) by simp
qed

lemma allochugeuvm_base:
  assumes "aspace s d ps" "hpool s hs" "4194304 dvd unat oldsz" "oldsz \<le> newsz" "unat newsz \<le> 0x80000000"
    and "\<forall>x. oldsz \<le> x \<longrightarrow> x < newsz \<longrightarrow> tab (mem s) d (PDX x) = None \<and> \<not> huge (mem s) d (PDX x)"
    and "n = (unat newsz + 4194303 - unat oldsz) div 4194304"
  shows "\<exists>s'. allochugeuvm d oldsz newsz s = Ret (if n \<le> length hs then newsz else 0, s') \<and>
    aspace s' d ps \<and> hpool s' (drop n hs) \<and>
    entry (mem s') d = map_huges (entry (mem s) d) oldsz (take n hs) \<and> same_slots d s s' (unat oldsz + 4194304 * n)"
proof -
  have k: "(0x80000000 - unat oldsz) div 4194304 < all_pages" by (intro less_mult_imp_div_less) simp
  have "allochugeuvm d oldsz newsz s = loop all_pages (alloc_huge_step d oldsz newsz) (oldsz, s)"
    using assms(4) huge_aligned(2) [OF assms(3)] by (simp add: allochugeuvm_def not_less [symmetric])
  then show ?thesis
    using alloc_huge_loop [OF assms(1,2,3,5,3) order_refl k _ _ assms(7)] assms(6) by simp
qed

text \<open>
  Claim C15. \<open>allochugeuvm\<close> on an unmapped range below \<^verbatim>\<open>KERNBASE\<close> that begins at a multiple of 4 MB takes one 4 MB page from the front of the pool for
  every 4 MB of the range and maps them in order, present, writable and accessible to the user; it
  returns the new size when the pool suffices. When it does not, it returns 0 with
  every page of the pool mapped: the pages it took are neither unmapped nor given back, as
  \<open>deallocuvm\<close> reads the zeroed first word of each as its page table entry.
\<close>

theorem allochugeuvm_maps_or_leaks:
  assumes "aspace s d ps" "hpool s hs" "4194304 dvd unat oldsz" "oldsz \<le> newsz" "unat newsz \<le> 0x80000000"
    and "\<forall>x. oldsz \<le> x \<longrightarrow> x < newsz \<longrightarrow> tab (mem s) d (PDX x) = None \<and> \<not> huge (mem s) d (PDX x)"
    and "n = (unat newsz + 4194303 - unat oldsz) div 4194304"
  shows "\<exists>s'. allochugeuvm d oldsz newsz s = Ret (if n \<le> length hs then newsz else 0, s') \<and>
    aspace s' d ps \<and> hpool s' (drop n hs) \<and>
    entry (mem s') d = map_huges (entry (mem s) d) oldsz (take n hs)"
  using allochugeuvm_base [OF assms] by blast

theorem allochugeuvm_maps_or_leaks_witness:
  "\<exists>s s' s'' d. hpool s [0x9E000000] \<and> allochugeuvm d 0x20000000 0x20400000 s = Ret (0x20400000, s') \<and>
     entry (mem s') d 0x20000000 = 0x1E000087 \<and>
     allochugeuvm d 0x20000000 0x20800000 s = Ret (0, s'') \<and> hpool s'' []"
proof (rule example_huge)
  fix s assume s: "aspace s 0x80200000 [0x80201000, 0x80202000]" "hpool s [0x9E000000]"
    "\<And>i. unat i < 1024 \<Longrightarrow> tab (mem s) 0x80200000 i = None"
    "\<And>i. unat i < 1024 \<Longrightarrow> \<not> huge (mem s) 0x80200000 i"
  have e: "set_huge e 0x20000000 (V2P 0x9E000000 OR 0x87) 0x20000000 = 0x1E000087" for e
    by (simp add: set_huge_def V2P_def)
  have free: "\<forall>x. lo \<le> x \<longrightarrow> x < hi \<longrightarrow> tab (mem s) 0x80200000 (PDX x) = None \<and> \<not> huge (mem s) 0x80200000 (PDX x)"
    for lo hi using s(3,4) [OF PDX_less] by blast
  note a = allochugeuvm_maps_or_leaks [OF s(1,2) _ _ _ free]
  have n: "1 = (unat (0x20400000 :: u32) + 4194303 - unat (0x20000000 :: u32)) div 4194304"
    "2 = (unat (0x20800000 :: u32) + 4194303 - unat (0x20000000 :: u32)) div 4194304" by simp_all
  have l: "4194304 dvd unat (0x20000000 :: u32)" "(0x20000000 :: u32) \<le> 0x20400000" "(0x20000000 :: u32) \<le> 0x20800000"
    "unat (0x20400000 :: u32) \<le> 0x80000000" "unat (0x20800000 :: u32) \<le> 0x80000000" by simp_all
  obtain s' where s': "allochugeuvm 0x80200000 0x20000000 0x20400000 s = Ret (0x20400000, s')"
    "entry (mem s') 0x80200000 0x20000000 = 0x1E000087"
    using a [OF l(1,2,4) n(1)] e by auto
  obtain s'' where s'': "allochugeuvm 0x80200000 0x20000000 0x20800000 s = Ret (0, s'')" "hpool s'' []"
    using a [OF l(1,3,5) n(2)] by auto
  show ?thesis using s(2) s' s'' by blast
qed

text \<open>
  Claim C16. Freeing a 4 MB page depends on what the user stored in it. \<open>deallocuvm\<close> looks for a page table
  entry of the page and reads the first word of the page itself. If the lowest bit of that word is
  clear, it returns having changed nothing: the mapping stays and the page never returns
  to its pool. If the word is 1 (or has bit 0 set and bits 12 to 31 clear) the kernel panics.
\<close>

theorem deallocuvm_reads_user_word:
  assumes "aspace s d ps" "4194304 dvd unat a" "unat a < 0x80000000" "huge (mem s) d (PDX a)"
    and "frame_of (entry (mem s) d a) \<noteq> 0" "w = load32 (mem s) (frame_of (entry (mem s) d a))"
  shows "(w AND PTE_P = 0 \<longrightarrow> deallocuvm d (a + HUGE_PAGE_SIZE) a s = Ret (a, s)) \<and>
    (w AND PTE_P \<noteq> 0 \<and> PTE_ADDR w = 0 \<longrightarrow> deallocuvm d (a + HUGE_PAGE_SIZE) a s = Panic ''khugefree'')"
proof (intro conjI impI)
  note nt = next_table_aligned [OF assms(2,3)]
  have lt: "a < a + HUGE_PAGE_SIZE" using nt(2) by (simp add: word_less_nat_alt)
  show "deallocuvm d (a + HUGE_PAGE_SIZE) a s = Ret (a, s)" if w: "w AND PTE_P = 0"
  proof -
    have "inert (mem s) d b" if "4194304 dvd unat b" "a \<le> b" "b < a + HUGE_PAGE_SIZE" for b
    proof -
      have "PDX b = PDX a"
        using that nt(2) PDX_page [OF assms(2), of b] by (simp add: word_le_nat_alt word_less_nat_alt)
      then show ?thesis using assms(4-6) w by (simp add: inert_def entry_def)
    qed
    then show ?thesis
      using assms(1,2) lt nt(2,3) by (intro deallocuvm_inert) auto
  qed
  assume w: "w AND PTE_P \<noteq> 0 \<and> PTE_ADDR w = 0"
  have ps: "load32 (mem s) (d + 4 * PDX a) AND PTE_PS \<noteq> 0" using huge_iff [OF assms(1) PDX_less] assms(4) by simp
  have "dealloc_step d (a + HUGE_PAGE_SIZE) a (a, s) = Panic ''khugefree''"
    using lt ps walk_huge [OF assms(4) refl] huge_aligned(1) [OF assms(2)] assms(5,6) w
    by (simp add: dealloc_step_def Let_def)
  then show "deallocuvm d (a + HUGE_PAGE_SIZE) a s = Panic ''khugefree''"
    using lt ps huge_aligned(2) [OF assms(2)] by (simp add: deallocuvm_def not_le [symmetric] loop_unfold)
qed

lemma aspace_store_user:
  assumes "aspace s d ps" "hpage h" "m = store32 (mem s) h w"
  shows "aspace (s\<lparr>mem := m\<rparr>) d ps" "entry m d = entry (mem s) d"
    "unat i < 1024 \<Longrightarrow> huge m d i = huge (mem s) d i"
proof -
  have w: "load32 m (q + 4 * j) = load32 (mem s) (q + 4 * j)" if "kpage s q" "unat j < 1024" for q j
  proof -
    have "unat (q + 4 * j - q) < 4096" using slot_offset(1) [OF that(2), of q] that(2) by simp
    then have "q + 4 * j \<noteq> h" using kpage_hpage_apart(1) [OF that(1) assms(2), of "q + 4 * j"] by auto
    then show ?thesis
      using slot_dvd_4 [OF that] hpage_dvd_4 [OF assms(2)] unfolding assms(3) by (subst load32_store32) auto
  qed
  have "run_list m q ps = run_list (mem s) q ps" for q
    using w [of _ 0] kpoolD(4) [OF aspaceD(1) [OF assms(1)]] by (intro run_list_cong) simp
  then have "kpool (s\<lparr>mem := m\<rparr>) ps" using aspaceD(1) [OF assms(1)] by (simp add: kpool_def)
  from aspace_cong [OF assms(1) this] w
  show "aspace (s\<lparr>mem := m\<rparr>) d ps" "entry m d = entry (mem s) d"
    "unat i < 1024 \<Longrightarrow> huge m d i = huge (mem s) d i" by simp_all
qed

theorem deallocuvm_reads_user_word_witness:
  "\<exists>s d ps h. aspace s d ps \<and> huge (mem s) d (PDX 0x20000000) \<and> deallocuvm d 0x20400000 0x20000000 s = Ret (0x20000000, s) \<and>
     deallocuvm d 0x20400000 0x20000000 (s\<lparr>mem := store32 (mem s) h 1\<rparr>) = Panic ''khugefree''"
proof (rule example_huge)
  let ?d = "0x80200000 :: u32" and ?a = "0x20000000 :: u32" and ?h = "0x9E000000 :: u32"
  fix s assume s: "aspace s ?d [0x80201000, 0x80202000]" "hpool s [?h]"
    "\<And>i. unat i < 1024 \<Longrightarrow> tab (mem s) ?d i = None"
  have a: "4194304 dvd unat ?a" by simp
  obtain t where t: "aspace t ?d [0x80201000, 0x80202000]" "hpage ?h"
      "entry (mem t) ?d = set_huge (entry (mem s) ?d) ?a (V2P ?h OR 0x87)"
      "\<And>x. huge (mem t) ?d (PDX x) \<longleftrightarrow> PDX x = PDX ?a \<or> huge (mem s) ?d (PDX x)" "zero_huge (mem t) ?h"
    using alloc_huge_one [OF s(1,2) a s(3) [OF PDX_less]] by metis
  let ?t = "t\<lparr>mem := store32 (mem t) ?h 1\<rparr>"
  note u = aspace_store_user [OF t(1,2) refl, where w = 1]
  have hu: "huge (mem t) ?d (PDX ?a)" "huge (store32 (mem t) ?h 1) ?d (PDX ?a)"
    using t(4) u(3) [OF PDX_less] by simp_all
  have e: "entry (mem t) ?d ?a = V2P ?h OR 0x87" using t(3) by (simp add: set_huge_def)
  then have f: "frame_of (entry (mem t) ?d ?a) = ?h"
    using PTE_ADDR_or [OF hpage_V2P(2) [OF t(2)], of 135] by (simp add: P2V_V2P)
  have lt: "unat ?a < 0x80000000" "?h \<noteq> 0" by simp_all
  have "deallocuvm ?d (?a + HUGE_PAGE_SIZE) ?a t = Ret (?a, t)"
    using deallocuvm_reads_user_word [OF t(1) a lt(1) hu(1) _ refl] unfolding f zero_huge_load32 [OF t(5)]
    using lt(2) by simp
  moreover have "deallocuvm ?d (?a + HUGE_PAGE_SIZE) ?a ?t = Panic ''khugefree''"
  proof -
    have "frame_of (entry (mem ?t) ?d ?a) = ?h" using f u(2) by simp
    then show ?thesis
      using deallocuvm_reads_user_word [OF u(1) a lt(1) _ _ refl] hu(2) lt(2) by (simp add: PTE_ADDR_def)
  qed
  moreover have "?a + HUGE_PAGE_SIZE = 0x20400000" by simp
  ultimately show ?thesis using t(1) hu(1) by (metis (no_types))
qed

end
