(* ===== verification/Proc.thy ===== *)
theory Proc
  imports Vm_Huge
begin

text \<open>
  Processes (proc.c): the process table, allocating a process, growing its memory, giving up the
  CPU, sleeping and waking up, killing, waiting for children and scheduling. The state is the
  machine of the allocators, the spin locks, the process table and the process
  each CPU runs; it is a record that the file system and the system calls extend, so every
  operation is polymorphic in the extension. An operation that calls \<^verbatim>\<open>sleep\<close> is modelled as what it does up to the
  point where it gives up the CPU and what it does when it runs again.
\<close>

section \<open>State\<close>

datatype procstate = UNUSED | EMBRYO | SLEEPING | RUNNABLE | RUNNING | ZOMBIE

text \<open>
  Kernel objects that are slept on, and spin locks, are named by the object they belong to: a
  channel is the address of an object, and distinct objects have distinct addresses.
\<close>

datatype sleepid = BufSleep nat | InodeSleep nat

datatype chan =
    ProcChan nat | TicksChan | SleepChan sleepid | BufChan nat | LogChan
  | PipeReadChan u32 | PipeWriteChan u32 | InputChan

datatype lockid =
    PtableLock | TicksLock | BcacheLock | SleepSpin sleepid | IdeLock | LogLock | IcacheLock
  | FtableLock | PipeLock u32 | ConsLock

record proc =
  p_sz :: u32
  p_hugesz :: u32
  p_pgdir :: u32
  p_kstack :: u32
  p_state :: procstate
  p_pid :: u32
  p_parent :: "nat option"
  p_tf :: u32
  p_context :: u32
  p_chan :: "chan option"
  p_killed :: u32
  p_ofile :: "nat option list"
  p_cwd :: "nat option"
  p_name :: string

text \<open>
  Of the per-CPU task state the fields that \<^verbatim>\<open>switchuvm\<close> sets. \<open>apicids\<close> are the fields \<^verbatim>\<open>apicid\<close> of
  \<^verbatim>\<open>cpus[0..ncpu]\<close>, \<open>lapicid\<close> what the executing CPU's local APIC answers; \<open>cproc\<close> is the field
  \<^verbatim>\<open>proc\<close> of every CPU. The addresses of \<^verbatim>\<open>forkret\<close> and \<^verbatim>\<open>trapret\<close> are the linker's.
\<close>

record taskstate =
  ss0 :: u16
  esp0 :: u32
  iomb :: u16

record pstate =
  mach :: machine
  spin :: "lockid \<Rightarrow> spinlock"
  procs :: "proc list"
  initproc :: "nat option"
  nextpid :: u32
  cproc :: "nat \<Rightarrow> nat option"
  apicids :: "u8 list"
  lapicid :: u8
  tss :: taskstate
  task_reg :: u16
  forkret_addr :: u32
  trapret_addr :: u32

section \<open>Lifting\<close>

definition on_mach :: "(machine \<Rightarrow> machine outcome) \<Rightarrow> 'a pstate_scheme \<Rightarrow> 'a pstate_scheme outcome" where
  "on_mach f k = obind (f (mach k)) (\<lambda>s. Ret (k\<lparr>mach := s\<rparr>))"

definition on_mach_val :: "(machine \<Rightarrow> ('v \<times> machine) outcome) \<Rightarrow> 'a pstate_scheme \<Rightarrow> ('v \<times> 'a pstate_scheme) outcome" where
  "on_mach_val f k = obind (f (mach k)) (\<lambda>(v, s). Ret (v, k\<lparr>mach := s\<rparr>))"

definition upd_cpu :: "(cpu \<Rightarrow> cpu) \<Rightarrow> 'a pstate_scheme \<Rightarrow> 'a pstate_scheme" where
  "upd_cpu f k = k\<lparr>mach := (mach k)\<lparr>this_cpu := f (this_cpu (mach k))\<rparr>\<rparr>"

definition upd_mem :: "(memory \<Rightarrow> memory) \<Rightarrow> 'a pstate_scheme \<Rightarrow> 'a pstate_scheme" where
  "upd_mem f k = k\<lparr>mach := (mach k)\<lparr>mem := f (mem (mach k))\<rparr>\<rparr>"

definition upd_proc :: "nat \<Rightarrow> (proc \<Rightarrow> proc) \<Rightarrow> 'a pstate_scheme \<Rightarrow> 'a pstate_scheme" where
  "upd_proc p f k = k\<lparr>procs := (procs k)[p := f (procs k ! p)]\<rparr>"

definition acquirek :: "lockid \<Rightarrow> 'a pstate_scheme \<Rightarrow> 'a pstate_scheme outcome" where
  "acquirek l k = obind (acquire (cpu_id (mach k)) (this_cpu (mach k)) (spin k l))
     (\<lambda>(c, lk). Ret (upd_cpu (\<lambda>_. c) (k\<lparr>spin := (spin k)(l := lk)\<rparr>)))"

definition releasek :: "lockid \<Rightarrow> 'a pstate_scheme \<Rightarrow> 'a pstate_scheme outcome" where
  "releasek l k = obind (release (cpu_id (mach k)) (this_cpu (mach k)) (spin k l))
     (\<lambda>(c, lk). Ret (upd_cpu (\<lambda>_. c) (k\<lparr>spin := (spin k)(l := lk)\<rparr>)))"

definition holdingk :: "lockid \<Rightarrow> 'a pstate_scheme \<Rightarrow> (bool \<times> 'a pstate_scheme) outcome" where
  "holdingk l k = obind (holding (cpu_id (mach k)) (this_cpu (mach k)) (spin k l))
     (\<lambda>(r, c). Ret (r, upd_cpu (\<lambda>_. c) k))"

definition initlockk :: "lockid \<Rightarrow> string \<Rightarrow> 'a pstate_scheme \<Rightarrow> 'a pstate_scheme" where
  "initlockk l nm k = k\<lparr>spin := (spin k)(l := initlock (spin k l) nm)\<rparr>"

section \<open>The current process\<close>

definition pinit :: "'a pstate_scheme \<Rightarrow> 'a pstate_scheme" where
  "pinit k = initlockk PtableLock ''ptable'' k"

definition mycpu :: "'a pstate_scheme \<Rightarrow> nat outcome" where
  "mycpu k =
     (if eflags (this_cpu (mach k)) AND FL_IF \<noteq> 0
      then Panic (''mycpu called with interrupts enabled'' @ [CHR 0x0A])
      else case find (\<lambda>i. apicids k ! i = lapicid k) [0..<length (apicids k)] of
        Some i \<Rightarrow> Ret i
      | None \<Rightarrow> Panic (''unknown apicid'' @ [CHR 0x0A]))"

definition cpuid :: "'a pstate_scheme \<Rightarrow> nat outcome" where
  "cpuid k = mycpu k"

definition myproc :: "'a pstate_scheme \<Rightarrow> (nat option \<times> 'a pstate_scheme) outcome" where
  "myproc k =
     (let k = upd_cpu pushcli k in
      obind (mycpu k) (\<lambda>c.
        let p = cproc k c in
        obind (popcli (this_cpu (mach k))) (\<lambda>c. Ret (p, upd_cpu (\<lambda>_. c) k))))"

text \<open>
  \<open>with_proc\<close> is \<^verbatim>\<open>struct proc *curproc = myproc()\<close> followed by code that dereferences \<^verbatim>\<open>curproc\<close>;
  there is no result when no process runs.
\<close>

definition with_proc :: "(nat \<Rightarrow> 'a pstate_scheme \<Rightarrow> 'b outcome) \<Rightarrow> 'a pstate_scheme \<Rightarrow> 'b outcome" where
  "with_proc f k = obind (myproc k) (\<lambda>(p, k). case p of Some p \<Rightarrow> f p k | None \<Rightarrow> Diverge)"

section \<open>Allocating a process\<close>

text \<open>\<^verbatim>\<open>struct trapframe\<close> takes 76 bytes, \<^verbatim>\<open>struct context\<close> 20 with \<^verbatim>\<open>eip\<close> at offset 16.\<close>

definition allocproc :: "'a pstate_scheme \<Rightarrow> (nat option \<times> 'a pstate_scheme) outcome" where
  "allocproc k =
     obind (acquirek PtableLock k) (\<lambda>k.
       case find (\<lambda>p. p_state (procs k ! p) = UNUSED) [0..<NPROC] of
         None \<Rightarrow> obind (releasek PtableLock k) (\<lambda>k. Ret (None, k))
       | Some p \<Rightarrow>
           let k = upd_proc p (p_state_update (\<lambda>_. EMBRYO)) k;
               k = upd_proc p (p_pid_update (\<lambda>_. nextpid k)) k;
               k = k\<lparr>nextpid := nextpid k + 1\<rparr>
           in obind (releasek PtableLock k) (\<lambda>k.
             obind (on_mach_val kalloc k) (\<lambda>(v, k).
               let k = upd_proc p (p_kstack_update (\<lambda>_. v)) k in
               if v = 0 then Ret (None, upd_proc p (p_state_update (\<lambda>_. UNUSED)) k)
               else
                 let sp = v + KSTACKSIZE - 76;
                     k = upd_proc p (p_tf_update (\<lambda>_. sp)) k;
                     sp = sp - 4;
                     k = upd_mem (\<lambda>m. store32 m sp (trapret_addr k)) k;
                     sp = sp - 20;
                     k = upd_proc p (p_context_update (\<lambda>_. sp)) k;
                     k = upd_mem (\<lambda>m. memset m sp 0 20) k;
                     k = upd_mem (\<lambda>m. store32 m (sp + 16) (forkret_addr k)) k
                 in Ret (Some p, k))))"

section \<open>Switching address spaces, growing memory\<close>

definition switchkvmk :: "'a pstate_scheme \<Rightarrow> 'a pstate_scheme" where
  "switchkvmk k = k\<lparr>mach := switchkvm (mach k)\<rparr>"

definition switchuvm :: "nat option \<Rightarrow> 'a pstate_scheme \<Rightarrow> 'a pstate_scheme outcome" where
  "switchuvm q k = (case q of None \<Rightarrow> Panic ''switchuvm: no process'' | Some p \<Rightarrow>
      if p_kstack (procs k ! p) = 0 then Panic ''switchuvm: no kstack''
      else if p_pgdir (procs k ! p) = 0 then Panic ''switchuvm: no pgdir''
      else
        let k = upd_cpu pushcli k;
            k = k\<lparr>tss := (tss k)\<lparr>ss0 := of_nat (SEG_KDATA * 8)\<rparr>\<rparr>;
            k = k\<lparr>tss := (tss k)\<lparr>esp0 := p_kstack (procs k ! p) + KSTACKSIZE\<rparr>\<rparr>;
            k = k\<lparr>tss := (tss k)\<lparr>iomb := 0xFFFF\<rparr>\<rparr>;
            k = k\<lparr>task_reg := of_nat (SEG_TSS * 8)\<rparr>;
            k = k\<lparr>mach := (mach k)\<lparr>cr3 := V2P (p_pgdir (procs k ! p))\<rparr>\<rparr>
        in obind (popcli (this_cpu (mach k))) (\<lambda>c. Ret (upd_cpu (\<lambda>_. c) k)))"

definition growproc :: "u32 \<Rightarrow> 'a pstate_scheme \<Rightarrow> (int \<times> 'a pstate_scheme) outcome" where
  "growproc n = with_proc (\<lambda>cur k.
     let sz = p_sz (procs k ! cur); pgdir = p_pgdir (procs k ! cur) in
     obind
       (if 0 < sint n then
          obind (on_mach_val (allocuvm pgdir sz (sz + n)) k) (\<lambda>(sz, k). Ret (if sz = 0 then None else Some sz, k))
        else if sint n < 0 then
          obind (on_mach_val (deallocuvm pgdir sz (sz + n)) k) (\<lambda>(sz, k). Ret (if sz = 0 then None else Some sz, k))
        else Ret (Some sz, k))
       (\<lambda>(r, k). case r of None \<Rightarrow> Ret (-1, k)
         | Some sz \<Rightarrow>
             obind (switchuvm (Some cur) (upd_proc cur (p_sz_update (\<lambda>_. sz)) k)) (\<lambda>k. Ret (0, k))))"

definition growhugeproc :: "u32 \<Rightarrow> 'a pstate_scheme \<Rightarrow> (int \<times> 'a pstate_scheme) outcome" where
  "growhugeproc n = with_proc (\<lambda>cur k.
     let sz = p_hugesz (procs k ! cur); pgdir = p_pgdir (procs k ! cur) in
     obind
       (if 0 < sint n then
          obind (on_mach_val (allochugeuvm pgdir (sz + HUGE_VA_OFFSET) (sz + n + HUGE_VA_OFFSET)) k)
            (\<lambda>(sz, k). Ret (if sz = 0 then None else Some sz, k))
        else if sint n < 0 then
          obind (on_mach_val (deallocuvm pgdir sz (sz + n)) k) (\<lambda>(sz, k). Ret (if sz = 0 then None else Some sz, k))
        else Ret (Some sz, k))
       (\<lambda>(r, k). case r of None \<Rightarrow> Ret (-1, k)
         | Some sz \<Rightarrow>
             obind (switchuvm (Some cur) (upd_proc cur (p_hugesz_update (\<lambda>_. sz - HUGE_VA_OFFSET)) k))
               (\<lambda>k. Ret (0, k))))"

section \<open>Giving up the CPU\<close>

text \<open>
  \<open>sched\<close> up to \<^verbatim>\<open>swtch\<close>: all checks, and the value of \<open>intena\<close> that is kept on the kernel stack;
  \<open>sched_return\<close> is what follows when the process runs again.
\<close>

definition sched :: "'a pstate_scheme \<Rightarrow> (u32 \<times> 'a pstate_scheme) outcome" where
  "sched = with_proc (\<lambda>p k.
     obind (holdingk PtableLock k) (\<lambda>(h, k).
       if \<not> h then Panic ''sched ptable.lock''
       else if ncli (this_cpu (mach k)) \<noteq> 1 then Panic ''sched locks''
       else if p_state (procs k ! p) = RUNNING then Panic ''sched running''
       else if eflags (this_cpu (mach k)) AND FL_IF \<noteq> 0 then Panic ''sched interruptible''
       else Ret (intena (this_cpu (mach k)), k)))"

definition sched_return :: "u32 \<Rightarrow> 'a pstate_scheme \<Rightarrow> 'a pstate_scheme" where
  "sched_return i = upd_cpu (intena_update (\<lambda>_. i))"

text \<open>\<open>yield\<close> and \<open>sleep\<close> likewise, up to \<^verbatim>\<open>swtch\<close> and after it.\<close>

definition yield :: "'a pstate_scheme \<Rightarrow> (u32 \<times> 'a pstate_scheme) outcome" where
  "yield k =
     obind (acquirek PtableLock k)
       (with_proc (\<lambda>p k. sched (upd_proc p (p_state_update (\<lambda>_. RUNNABLE)) k)))"

definition yield_return :: "u32 \<Rightarrow> 'a pstate_scheme \<Rightarrow> 'a pstate_scheme outcome" where
  "yield_return i k = releasek PtableLock (sched_return i k)"

definition sleep :: "chan \<Rightarrow> lockid option \<Rightarrow> 'a pstate_scheme \<Rightarrow> (u32 \<times> 'a pstate_scheme) outcome" where
  "sleep ch lk k =
     obind (myproc k) (\<lambda>(p, k). case p of None \<Rightarrow> Panic ''sleep''
     | Some p \<Rightarrow> (case lk of None \<Rightarrow> Panic ''sleep without lk''
     | Some l \<Rightarrow>
       obind (if l \<noteq> PtableLock then obind (acquirek PtableLock k) (releasek l) else Ret k) (\<lambda>k.
         let k = upd_proc p (p_chan_update (\<lambda>_. Some ch)) k;
             k = upd_proc p (p_state_update (\<lambda>_. SLEEPING)) k
         in sched k)))"

definition sleep_return :: "nat \<Rightarrow> lockid \<Rightarrow> u32 \<Rightarrow> 'a pstate_scheme \<Rightarrow> 'a pstate_scheme outcome" where
  "sleep_return p l i k =
     (let k = upd_proc p (p_chan_update (\<lambda>_. None)) (sched_return i k) in
      if l \<noteq> PtableLock then obind (releasek PtableLock k) (acquirek l) else Ret k)"

definition wakeup1 :: "chan \<Rightarrow> 'a pstate_scheme \<Rightarrow> 'a pstate_scheme" where
  "wakeup1 ch k = k\<lparr>procs := map (\<lambda>p.
     if p_state p = SLEEPING \<and> p_chan p = Some ch then p\<lparr>p_state := RUNNABLE\<rparr> else p) (procs k)\<rparr>"

definition wakeup :: "chan \<Rightarrow> 'a pstate_scheme \<Rightarrow> 'a pstate_scheme outcome" where
  "wakeup ch k = obind (acquirek PtableLock k) (\<lambda>k. releasek PtableLock (wakeup1 ch k))"

definition kill :: "u32 \<Rightarrow> 'a pstate_scheme \<Rightarrow> (int \<times> 'a pstate_scheme) outcome" where
  "kill pid k =
     obind (acquirek PtableLock k) (\<lambda>k.
       case find (\<lambda>p. p_pid (procs k ! p) = pid) [0..<NPROC] of
         Some p \<Rightarrow>
           let k = upd_proc p (p_killed_update (\<lambda>_. 1)) k;
               k = (if p_state (procs k ! p) = SLEEPING
                    then upd_proc p (p_state_update (\<lambda>_. RUNNABLE)) k else k)
           in obind (releasek PtableLock k) (\<lambda>k. Ret (0, k))
       | None \<Rightarrow> obind (releasek PtableLock k) (\<lambda>k. Ret (-1, k)))"

section \<open>Waiting for a child\<close>

text \<open>
  One pass of \<open>wait\<close> over the table, with the lock held: the first child that is a zombie is
  reaped and its pid returned; otherwise the pass tells whether there are children.
\<close>

definition reap :: "nat \<Rightarrow> 'a pstate_scheme \<Rightarrow> (u32 \<times> 'a pstate_scheme) outcome" where
  "reap p k =
     (let pid = p_pid (procs k ! p) in
      obind (on_mach (kfree (p_kstack (procs k ! p))) k) (\<lambda>k.
        let k = upd_proc p (p_kstack_update (\<lambda>_. 0)) k in
        obind (on_mach (freevm (p_pgdir (procs k ! p))) k) (\<lambda>k.
          Ret (pid, upd_proc p (\<lambda>q. q\<lparr>p_pid := 0, p_parent := None, p_name := [],
                                    p_killed := 0, p_state := UNUSED\<rparr>) k))))"

datatype 'r blocking = Done 'r | Blocked chan u32

definition wait_pass :: "nat \<Rightarrow> 'a pstate_scheme \<Rightarrow> (int blocking \<times> 'a pstate_scheme) outcome" where
  "wait_pass cur k =
     (case find (\<lambda>p. p_parent (procs k ! p) = Some cur \<and> p_state (procs k ! p) = ZOMBIE) [0..<NPROC] of
        Some p \<Rightarrow>
          obind (reap p k) (\<lambda>(pid, k).
            obind (releasek PtableLock k) (\<lambda>k. Ret (Done (sint pid), k)))
      | None \<Rightarrow>
          if \<not> (\<exists>p\<in>set [0..<NPROC]. p_parent (procs k ! p) = Some cur) \<or> p_killed (procs k ! cur) \<noteq> 0
          then obind (releasek PtableLock k) (\<lambda>k. Ret (Done (-1), k))
          else obind (sleep (ProcChan cur) (Some PtableLock) k) (\<lambda>(i, k). Ret (Blocked (ProcChan cur) i, k)))"

definition wait :: "'a pstate_scheme \<Rightarrow> (int blocking \<times> 'a pstate_scheme) outcome" where
  "wait = with_proc (\<lambda>cur k. obind (acquirek PtableLock k) (wait_pass cur))"

definition wait_return :: "nat \<Rightarrow> u32 \<Rightarrow> 'a pstate_scheme \<Rightarrow> (int blocking \<times> 'a pstate_scheme) outcome" where
  "wait_return cur i k = obind (sleep_return cur PtableLock i k) (wait_pass cur)"

section \<open>The scheduler\<close>

text \<open>
  The inner loop of \<open>scheduler\<close> from table position \<open>i\<close> on, with the lock held: the next runnable
  process is switched to, or the pass is over. \<open>scheduler_pass_end\<close> is what happens between two
  passes, \<open>scheduler_back\<close> what happens after \<^verbatim>\<open>swtch\<close> returns to the scheduler.
\<close>

definition scheduler_next :: "nat \<Rightarrow> 'a pstate_scheme \<Rightarrow> nat option" where
  "scheduler_next i k = find (\<lambda>p. p_state (procs k ! p) = RUNNABLE) [i..<NPROC]"

definition scheduler_switch :: "nat \<Rightarrow> nat \<Rightarrow> 'a pstate_scheme \<Rightarrow> 'a pstate_scheme outcome" where
  "scheduler_switch c p k =
     obind (switchuvm (Some p) (k\<lparr>cproc := (cproc k)(c := Some p)\<rparr>)) (\<lambda>k.
       Ret (upd_proc p (p_state_update (\<lambda>_. RUNNING)) k))"

definition scheduler_back :: "nat \<Rightarrow> 'a pstate_scheme \<Rightarrow> 'a pstate_scheme" where
  "scheduler_back c k = (switchkvmk k)\<lparr>cproc := (cproc k)(c := None)\<rparr>"

definition scheduler_pass_end :: "'a pstate_scheme \<Rightarrow> 'a pstate_scheme outcome" where
  "scheduler_pass_end k = obind (releasek PtableLock k) (\<lambda>k. acquirek PtableLock (upd_cpu sti k))"

section \<open>Locks in quiet states\<close>

text \<open>
  A state is calm when the interrupt bookkeeping of the executing CPU is consistent and the
  CPU finds itself in the table of CPUs. In a calm state taking a free lock is \<open>locked_by\<close>,
  and releasing it undoes that, so that a critical section is its body.
\<close>

definition calm :: "'a pstate_scheme \<Rightarrow> bool" where
  "calm k \<longleftrightarrow> can_push (this_cpu (mach k)) \<and> remember_if (this_cpu (mach k)) = this_cpu (mach k) \<and>
     cpu_id (mach k) < length (apicids k) \<and> apicids k ! cpu_id (mach k) = lapicid k \<and> distinct (apicids k)"

definition locked_by :: "lockid \<Rightarrow> 'a pstate_scheme \<Rightarrow> 'a pstate_scheme" where
  "locked_by l k = upd_cpu pushcli
     (k\<lparr>spin := (spin k)(l := (spin k l)\<lparr>locked := 1, lkcpu := Some (cpu_id (mach k))\<rparr>)\<rparr>)"

lemma upd_simps [simp]:
  "procs (upd_cpu f k) = procs k" "spin (upd_cpu f k) = spin k" "cproc (upd_cpu f k) = cproc k"
  "apicids (upd_cpu f k) = apicids k" "lapicid (upd_cpu f k) = lapicid k" "nextpid (upd_cpu f k) = nextpid k"
  "initproc (upd_cpu f k) = initproc k"
  "this_cpu (mach (upd_cpu f k)) = f (this_cpu (mach k))" "cpu_id (mach (upd_cpu f k)) = cpu_id (mach k)"
  "mem (mach (upd_cpu f k)) = mem (mach k)" "mach (upd_proc p g k) = mach k" "spin (upd_proc p g k) = spin k"
  "cproc (upd_proc p g k) = cproc k" "apicids (upd_proc p g k) = apicids k" "lapicid (upd_proc p g k) = lapicid k"
  "nextpid (upd_proc p g k) = nextpid k" "initproc (upd_proc p g k) = initproc k"
  "procs (upd_proc p g k) = (procs k)[p := g (procs k ! p)]"
  "upd_cpu f (upd_cpu h k) = upd_cpu (\<lambda>c. f (h c)) k" "upd_cpu (\<lambda>c. c) k = k"
  "procs (upd_mem m k) = procs k" "spin (upd_mem m k) = spin k" "cproc (upd_mem m k) = cproc k"
  "initproc (upd_mem m k) = initproc k" "nextpid (upd_mem m k) = nextpid k"
  by (simp_all add: upd_cpu_def upd_proc_def upd_mem_def)

lemma upd_cpu_id [simp]: "upd_cpu (\<lambda>c. this_cpu (mach k)) k = k"
  by (simp add: upd_cpu_def)

lemma locked_by_simps [simp]:
  "procs (locked_by l k) = procs k" "cproc (locked_by l k) = cproc k" "nextpid (locked_by l k) = nextpid k"
  "initproc (locked_by l k) = initproc k" "cpu_id (mach (locked_by l k)) = cpu_id (mach k)"
  "l' \<noteq> l \<Longrightarrow> spin (locked_by l k) l' = spin k l'" "mem (mach (locked_by l k)) = mem (mach k)"
  "upd_proc p f (locked_by l k) = locked_by l (upd_proc p f k)"
  "(locked_by l k)\<lparr>procs := q\<rparr> = locked_by l (k\<lparr>procs := q\<rparr>)"
  "(locked_by l k)\<lparr>nextpid := n\<rparr> = locked_by l (k\<lparr>nextpid := n\<rparr>)"
  "wakeup1 ch (locked_by l k) = locked_by l (wakeup1 ch k)"
  by (simp_all add: locked_by_def upd_cpu_def upd_proc_def wakeup1_def)

lemma wakeup1_simps [simp]:
  "mach (wakeup1 ch k) = mach k" "spin (wakeup1 ch k) = spin k" "cproc (wakeup1 ch k) = cproc k"
  "nextpid (wakeup1 ch k) = nextpid k" "initproc (wakeup1 ch k) = initproc k"
  "length (procs (wakeup1 ch k)) = length (procs k)"
  by (simp_all add: wakeup1_def)

text \<open>The depth of nested critical sections is small: two locks may be held, and a third is still free to take.\<close>

lemma depth_locked_by: "depth (this_cpu (mach k)) < INT_MAX \<Longrightarrow> depth (this_cpu (mach (locked_by l k))) = depth (this_cpu (mach k)) + 1"
  by (simp add: locked_by_def upd_cpu_def depth_pushcli)

lemma calm_nested: "calm k \<Longrightarrow> depth (this_cpu (mach k)) < INT_MAX - 1 \<Longrightarrow> calm (locked_by l k)"
  by (simp add: calm_def locked_by_def upd_cpu_def can_push_def depth_pushcli)

lemma calm_locked_by [simp]:
  assumes "calm k" "ncli (this_cpu (mach k)) = 0"
  shows "calm (locked_by l k)" "calm (locked_by l (locked_by l' k))"
proof -
  have d: "depth (this_cpu (mach k)) = 0" using assms(2) by (simp add: depth_eq_0)
  then show c: "calm (locked_by l k)" for l using assms(1) by (simp add: calm_nested)
  show "calm (locked_by l (locked_by l' k))" using d by (intro calm_nested c) (simp_all add: depth_locked_by)
qed

lemma calm_update [simp]:
  "calm (k\<lparr>procs := q\<rparr>) = calm k" "calm (k\<lparr>nextpid := n\<rparr>) = calm k" "calm (k\<lparr>cproc := c\<rparr>) = calm k"
  "calm (k\<lparr>spin := sp\<rparr>) = calm k" "calm (upd_proc p f k) = calm k" "calm (wakeup1 ch k) = calm k"
  "calm (k\<lparr>initproc := i\<rparr>) = calm k"
  by (simp_all add: calm_def upd_proc_def wakeup1_def)

lemma mycpu_calm: "calm k \<Longrightarrow> mycpu (upd_cpu pushcli k) = Ret (cpu_id (mach k))"
proof -
  assume k: "calm k"
  have "eflags (pushcli (this_cpu (mach k))) AND FL_IF = 0"
    using pushcli_simps(2) [of "this_cpu (mach k)"] by (simp add: interrupts_on_def)
  moreover have "find (\<lambda>i. apicids k ! i = lapicid k) [0..<length (apicids k)] = Some (cpu_id (mach k))"
    using k nth_eq_iff_index_eq [of "apicids k" _ "cpu_id (mach k)"]
    by (force simp: calm_def find_Some_iff intro!: exI [of _ "cpu_id (mach k)"])
  ultimately show ?thesis by (simp add: mycpu_def upd_cpu_def)
qed

lemma myproc_calm [simp]: "calm k \<Longrightarrow> myproc k = Ret (cproc k (cpu_id (mach k)), k)"
  using mycpu_calm [of k] popcli_pushcli [of "this_cpu (mach k)"]
  by (simp add: myproc_def Let_def calm_def)

lemma acquirek_calm: "calm k \<Longrightarrow> lock_free (spin k l) \<Longrightarrow> acquirek l k = Ret (locked_by l k)"
  by (simp add: acquirek_def locked_by_def acquire_eq calm_def lock_free_def upd_cpu_def)

lemma releasek_locked_by [simp]: "calm k \<Longrightarrow> lock_free (spin k l) \<Longrightarrow> releasek l (locked_by l k) = Ret k"
  by (simp add: releasek_def locked_by_def release_eq calm_def upd_cpu_def popcli_pushcli lock_free_id)

lemma holdingk_locked_by: "calm k \<Longrightarrow> holdingk l (locked_by l k) = Ret (True, locked_by l k)"
  by (simp add: holdingk_def locked_by_def holding_eq calm_def upd_cpu_def)

section \<open>Waking up and killing\<close>

lemma wakeup_calm:
  "calm k \<Longrightarrow> lock_free (spin k PtableLock) \<Longrightarrow> wakeup ch k = Ret (wakeup1 ch k)"
  by (simp add: wakeup_def acquirek_calm)

section \<open>Growing memory\<close>

definition switched :: "nat \<Rightarrow> 'a pstate_scheme \<Rightarrow> 'a pstate_scheme" where
  "switched p k = k\<lparr>tss := \<lparr>ss0 = of_nat (SEG_KDATA * 8), esp0 = p_kstack (procs k ! p) + KSTACKSIZE, iomb = 0xFFFF\<rparr>,
     task_reg := of_nat (SEG_TSS * 8),
     mach := (mach k)\<lparr>this_cpu := remember_if (this_cpu (mach k)), cr3 := V2P (p_pgdir (procs k ! p))\<rparr>\<rparr>"

lemma switchuvm_eq:
  assumes "cpu_ok (this_cpu (mach k))" "p_kstack (procs k ! p) \<noteq> 0" "p_pgdir (procs k ! p) \<noteq> 0"
  shows "switchuvm (Some p) k = Ret (switched p k)"
  using assms by (simp add: switchuvm_def switched_def upd_cpu_def popcli_pushcli Let_def)

lemma switched_simps [simp]:
  "procs (switched p k) = procs k" "mem (mach (switched p k)) = mem (mach k)" "cproc (switched p k) = cproc k"
  "cr3 (mach (switched p k)) = V2P (p_pgdir (procs k ! p))" "spin (switched p k) = spin k"
  "initproc (switched p k) = initproc k" "nextpid (switched p k) = nextpid k"
  by (simp_all add: switched_def)

text \<open>The process the executing CPU runs, with a kernel stack and an address space.\<close>

definition runs :: "'a pstate_scheme \<Rightarrow> nat \<Rightarrow> u32 \<Rightarrow> u32 list \<Rightarrow> bool" where
  "runs k p d ps \<longleftrightarrow> calm k \<and> cproc k (cpu_id (mach k)) = Some p \<and> p < length (procs k) \<and>
     p_kstack (procs k ! p) \<noteq> 0 \<and> p_pgdir (procs k ! p) = d \<and> uspace (mach k) d ps"

lemma uspace_basic:
  assumes "uspace s d ps"
  shows "d \<noteq> 0" "can_push (this_cpu s)"
proof -
  note a = aspaceD [OF uspaceD(1) [OF assms]]
  show "d \<noteq> 0" using a(2) by (auto simp: kpage_iff)
  show "can_push (this_cpu s)" using a(1) by (simp add: kpool_def locks_ok_def)
qed

lemma growproc_grow:
  assumes "runs k p d ps" "sz = p_sz (procs k ! p)" "0 < sint n" "can_grow (mach k) d sz (sz + n)"
  shows "\<exists>s' ps'.
    growproc n k = Ret (0, switched p (upd_proc p (p_sz_update (\<lambda>_. sz + n)) (k\<lparr>mach := s'\<rparr>))) \<and>
      grown d (mach k) ps s' ps' (unat (PGROUNDUP sz)) (unat (PGROUNDUP (sz + n))) \<or>
    growproc n k = Ret (-1, k\<lparr>mach := s'\<rparr>) \<and> restored d (mach k) ps s' ps'"
proof -
  have k: "calm k" "cproc k (cpu_id (mach k)) = Some p" "p < length (procs k)" "p_kstack (procs k ! p) \<noteq> 0"
    "p_pgdir (procs k ! p) = d" "uspace (mach k) d ps" using assms(1) by (auto simp: runs_def)
  have "n \<noteq> 0" using assms(3) by auto
  then have nz: "sz + n \<noteq> 0" using can_growD(2) [OF assms(4)] by (auto simp: word_le_nat_alt unsigned_eq_0_iff)
  obtain r s' ps' where a: "allocuvm d sz (sz + n) (mach k) = Ret (r, s')"
    "r = sz + n \<and> grown d (mach k) ps s' ps' (unat (PGROUNDUP sz)) (unat (PGROUNDUP (sz + n))) \<or>
     r = 0 \<and> restored d (mach k) ps s' ps'"
    using allocuvm_base [OF k(6) assms(4)] by blast
  have u: "uspace s' d ps'" using a(2) by (auto simp: grown_def restored_def)
  have sw: "switchuvm (Some p) (upd_proc p (p_sz_update (\<lambda>_. sz + n)) (k\<lparr>mach := s'\<rparr>)) =
      Ret (switched p (upd_proc p (p_sz_update (\<lambda>_. sz + n)) (k\<lparr>mach := s'\<rparr>)))"
    using uspace_basic [OF u] k(3-5) by (intro switchuvm_eq) simp_all
  show ?thesis
    using a(2)
  proof (elim disjE conjE)
    assume r: "r = sz + n" "grown d (mach k) ps s' ps' (unat (PGROUNDUP sz)) (unat (PGROUNDUP (sz + n)))"
    have "growproc n k = Ret (0, switched p (upd_proc p (p_sz_update (\<lambda>_. sz + n)) (k\<lparr>mach := s'\<rparr>)))"
      using k(1,2,5) a(1) assms(2,3) r(1) nz sw by (simp add: growproc_def with_proc_def on_mach_val_def)
    then show ?thesis using r(2) by blast
  next
    assume r: "r = 0" "restored d (mach k) ps s' ps'"
    then have "growproc n k = Ret (-1, k\<lparr>mach := s'\<rparr>)"
      using k(1,2,5) a(1) assms(2,3) by (simp add: growproc_def with_proc_def on_mach_val_def)
    then show ?thesis using r(2) by blast
  qed
qed

lemma growproc_shrink:
  assumes "runs k p d ps" "sz = p_sz (procs k ! p)" "sint n < 0" "sz + n < sz" "unat sz \<le> 0x80000000"
    and "\<And>x. sz + n \<le> x \<Longrightarrow> x < sz \<Longrightarrow> \<not> huge (mem (mach k)) d (PDX x)"
  shows "\<exists>s' ps'. shrunk d (mach k) ps s' ps' (unat (PGROUNDUP (sz + n))) (unat sz) \<and>
    growproc n k = Ret
      (if sz + n = 0 then (-1, k\<lparr>mach := s'\<rparr>)
       else (0, switched p (upd_proc p (p_sz_update (\<lambda>_. sz + n)) (k\<lparr>mach := s'\<rparr>))))"
proof -
  have k: "calm k" "cproc k (cpu_id (mach k)) = Some p" "p < length (procs k)" "p_kstack (procs k ! p) \<noteq> 0"
    "p_pgdir (procs k ! p) = d" "uspace (mach k) d ps" using assms(1) by (auto simp: runs_def)
  obtain s' ps' where a: "deallocuvm d sz (sz + n) (mach k) = Ret (sz + n, s')"
    "shrunk d (mach k) ps s' ps' (unat (PGROUNDUP (sz + n))) (unat sz)"
    using deallocuvm_base [OF k(6) assms(4,5,6)] by blast
  have u: "uspace s' d ps'" using a(2) by (simp add: shrunk_def)
  have "switchuvm (Some p) (upd_proc p (p_sz_update (\<lambda>_. sz + n)) (k\<lparr>mach := s'\<rparr>)) =
      Ret (switched p (upd_proc p (p_sz_update (\<lambda>_. sz + n)) (k\<lparr>mach := s'\<rparr>)))"
    using uspace_basic [OF u] k(3-5) by (intro switchuvm_eq) simp_all
  then have "growproc n k = Ret
      (if sz + n = 0 then (-1, k\<lparr>mach := s'\<rparr>)
       else (0, switched p (upd_proc p (p_sz_update (\<lambda>_. sz + n)) (k\<lparr>mach := s'\<rparr>))))"
    using k(1,2,5) a(1) assms(2,3) by (simp add: growproc_def with_proc_def on_mach_val_def)
  then show ?thesis using a(2) by blast
qed

lemma growhugeproc_shrink:
  assumes "runs k p d ps" "hz = p_hugesz (procs k ! p)" "sint n < 0" "hz + n < hz" "unat hz \<le> 0x80000000"
    and "\<And>x. hz + n \<le> x \<Longrightarrow> x < hz \<Longrightarrow> \<not> huge (mem (mach k)) d (PDX x)" "hz + n \<noteq> 0"
  shows "\<exists>s' ps'. shrunk d (mach k) ps s' ps' (unat (PGROUNDUP (hz + n))) (unat hz) \<and>
    growhugeproc n k = Ret (0,
      switched p (upd_proc p (p_hugesz_update (\<lambda>_. hz + n - HUGE_VA_OFFSET)) (k\<lparr>mach := s'\<rparr>)))"
proof -
  have k: "calm k" "cproc k (cpu_id (mach k)) = Some p" "p < length (procs k)" "p_kstack (procs k ! p) \<noteq> 0"
    "p_pgdir (procs k ! p) = d" "uspace (mach k) d ps" using assms(1) by (auto simp: runs_def)
  obtain s' ps' where a: "deallocuvm d hz (hz + n) (mach k) = Ret (hz + n, s')"
    "shrunk d (mach k) ps s' ps' (unat (PGROUNDUP (hz + n))) (unat hz)"
    using deallocuvm_base [OF k(6) assms(4,5,6)] by blast
  have u: "uspace s' d ps'" using a(2) by (simp add: shrunk_def)
  have "switchuvm (Some p) (upd_proc p (p_hugesz_update (\<lambda>_. hz + n - HUGE_VA_OFFSET)) (k\<lparr>mach := s'\<rparr>)) =
      Ret (switched p (upd_proc p (p_hugesz_update (\<lambda>_. hz + n - HUGE_VA_OFFSET)) (k\<lparr>mach := s'\<rparr>)))"
    using uspace_basic [OF u] k(3-5) by (intro switchuvm_eq) simp_all
  then show ?thesis
    using k(1,2,5) a assms(2,3,7) by (simp add: growhugeproc_def with_proc_def on_mach_val_def) blast
qed

lemma growhugeproc_zero:
  assumes "runs k p d ps"
  shows "growhugeproc 0 k = Ret (0,
    switched p (upd_proc p (p_hugesz_update (\<lambda>_. p_hugesz (procs k ! p) - HUGE_VA_OFFSET)) k))"
proof -
  have k: "calm k" "cproc k (cpu_id (mach k)) = Some p" "p < length (procs k)" "p_kstack (procs k ! p) \<noteq> 0"
    "p_pgdir (procs k ! p) = d" "uspace (mach k) d ps" using assms(1) by (auto simp: runs_def)
  let ?k = "upd_proc p (p_hugesz_update (\<lambda>_. p_hugesz (procs k ! p) - HUGE_VA_OFFSET)) k"
  have "switchuvm (Some p) ?k = Ret (switched p ?k)"
    using uspace_basic [OF k(6)] k(3-5) by (intro switchuvm_eq) simp_all
  then show ?thesis using k by (simp add: growhugeproc_def with_proc_def)
qed

lemma growhugeproc_grow:
  assumes "calm k" "cproc k (cpu_id (mach k)) = Some p" "p < length (procs k)" "p_kstack (procs k ! p) \<noteq> 0"
    and "p_pgdir (procs k ! p) = d" "aspace (mach k) d ps" "hpool (mach k) hs"
    and "lo = p_hugesz (procs k ! p) + HUGE_VA_OFFSET" "4194304 dvd unat lo" "0 < sint n"
    and "lo \<le> lo + n" "unat (lo + n) \<le> 0x80000000"
    and "\<forall>x. lo \<le> x \<longrightarrow> x < lo + n \<longrightarrow> tab (mem (mach k)) d (PDX x) = None \<and> \<not> huge (mem (mach k)) d (PDX x)"
    and "m = (unat (lo + n) + 4194303 - unat lo) div 4194304"
  shows "\<exists>s'. aspace s' d ps \<and> hpool s' (drop m hs) \<and>
    entry (mem s') d = map_huges (entry (mem (mach k)) d) lo (take m hs) \<and>
    growhugeproc n k = Ret
      (if m \<le> length hs
       then (0, switched p (upd_proc p (p_hugesz_update (\<lambda>_. p_hugesz (procs k ! p) + n)) (k\<lparr>mach := s'\<rparr>)))
       else (-1, k\<lparr>mach := s'\<rparr>))"
proof -
  have "n \<noteq> 0" using assms(10) by auto
  then have nz: "lo + n \<noteq> 0" using assms(11) by (auto simp: word_le_nat_alt unsigned_eq_0_iff)
  obtain s' where a: "allochugeuvm d lo (lo + n) (mach k) = Ret (if m \<le> length hs then lo + n else 0, s')"
    "aspace s' d ps" "hpool s' (drop m hs)" "entry (mem s') d = map_huges (entry (mem (mach k)) d) lo (take m hs)"
    using allochugeuvm_base [OF assms(6,7,9,11,12,13,14)] by blast
  let ?k = "upd_proc p (p_hugesz_update (\<lambda>_. p_hugesz (procs k ! p) + n)) (k\<lparr>mach := s'\<rparr>)"
  have "can_push (this_cpu s')" "d \<noteq> 0"
    using aspaceD(1,2) [OF a(2)] by (auto simp: kpool_def locks_ok_def kpage_iff)
  then have sw: "switchuvm (Some p) ?k = Ret (switched p ?k)"
    using assms(3-5) by (intro switchuvm_eq) simp_all
  have e: "p_hugesz (procs k ! p) + n + HUGE_VA_OFFSET = lo + n" "lo + n - HUGE_VA_OFFSET = p_hugesz (procs k ! p) + n"
    by (simp_all add: assms(8) add_ac)
  then have "growhugeproc n k = Ret (if m \<le> length hs then (0, switched p ?k) else (-1, k\<lparr>mach := s'\<rparr>))"
    using assms(1,2,5,10) a(1) nz sw
    by (simp add: growhugeproc_def with_proc_def on_mach_val_def Let_def e flip: assms(8))
  then show ?thesis using a(2-4) by blast
qed

section \<open>The scheduler\<close>

text \<open>
  A run of one CPU's scheduler, position in the table and state. After \<^verbatim>\<open>swtch\<close> the chosen process,
  and meanwhile every other CPU, may change the state in any way; the same holds while the lock is
  free between two passes.
\<close>

inductive sched_step :: "nat \<Rightarrow> nat \<times> 'a pstate_scheme \<Rightarrow> nat option \<Rightarrow> nat \<times> 'a pstate_scheme \<Rightarrow> bool" for c where
  sched_pick: "scheduler_next i k = Some p \<Longrightarrow> scheduler_switch c p k = Ret k1 \<Longrightarrow>
    sched_step c (i, k) (Some p) (Suc p, scheduler_back c k2)"
| sched_end: "scheduler_next i k = None \<Longrightarrow> scheduler_pass_end k = Ret k1 \<Longrightarrow> sched_step c (i, k) None (0, k2)"

inductive_cases sched_stepE: "sched_step c x e y"

text \<open>A run in which process \<open>q\<close> is runnable whenever the scheduler looks at the table.\<close>

inductive sched_run :: "nat \<Rightarrow> nat \<Rightarrow> nat \<times> 'a pstate_scheme \<Rightarrow> nat option list \<Rightarrow> bool" for c q where
  run_done: "sched_run c q x []"
| run_step: "p_state (procs (snd x) ! q) = RUNNABLE \<Longrightarrow> sched_step c x e y \<Longrightarrow> sched_run c q y es \<Longrightarrow>
    sched_run c q x (e # es)"

lemma scheduler_next_bounds:
  assumes "scheduler_next i k = Some p"
  shows "i \<le> p" "p < NPROC" "p_state (procs k ! p) = RUNNABLE"
    "i \<le> q \<Longrightarrow> q < NPROC \<Longrightarrow> p_state (procs k ! q) = RUNNABLE \<Longrightarrow> p \<le> q"
proof -
  obtain j where j: "j < length [i..<NPROC]" "p_state (procs k ! ([i..<NPROC] ! j)) = RUNNABLE" "p = [i..<NPROC] ! j"
    "\<forall>x<j. p_state (procs k ! ([i..<NPROC] ! x)) \<noteq> RUNNABLE"
    using assms unfolding scheduler_next_def find_Some_iff by blast
  then show b: "i \<le> p" "p < NPROC" "p_state (procs k ! p) = RUNNABLE" by simp_all
  show "p \<le> q" if "i \<le> q" "q < NPROC" "p_state (procs k ! q) = RUNNABLE"
  proof (rule ccontr)
    assume "\<not> p \<le> q"
    then have "q - i < j" "[i..<NPROC] ! (q - i) = q" using j(1,3) that by auto
    then show False using j(4) that(3) by metis
  qed
qed

lemma scheduler_next_None:
  "scheduler_next i k = None \<Longrightarrow> i \<le> q \<Longrightarrow> q < NPROC \<Longrightarrow> p_state (procs k ! q) \<noteq> RUNNABLE"
  by (auto simp: scheduler_next_def find_None_iff)

text \<open>What is left before \<open>q\<close> must be chosen: the entries up to it, in this pass or the next.\<close>

definition distance :: "nat \<Rightarrow> nat \<Rightarrow> nat" where
  "distance q i = (if i \<le> q then q - i else NPROC - i + 1 + q)"

lemma sched_step_distance:
  assumes "sched_step c x e y" "p_state (procs (snd x) ! q) = RUNNABLE" "q < NPROC" "fst x \<le> NPROC"
  shows "e = Some q \<or> distance q (fst y) < distance q (fst x) \<and> fst y \<le> NPROC"
  using assms
proof (cases rule: sched_step.cases)
  case (sched_pick i k p k1 k2)
  note b = scheduler_next_bounds [OF sched_pick(4)]
  show ?thesis
  proof (cases "i \<le> q")
    case True
    then have "p \<le> q" using b(4) assms(2,3) sched_pick by simp
    then show ?thesis using sched_pick b True by (auto simp: distance_def)
  next
    case False
    then show ?thesis using sched_pick b by (auto simp: distance_def)
  qed
next
  case (sched_end i k k1 k2)
  then have "\<not> i \<le> q" using scheduler_next_None [of i k q] assms(2,3) by auto
  then show ?thesis using sched_end assms(4) by (auto simp: distance_def)
qed

lemma sched_run_distance:
  assumes "sched_run c q x es" "q < NPROC" "fst x \<le> NPROC"
  shows "Some q \<in> set es \<or> length es \<le> distance q (fst x)"
  using assms
proof (induction rule: sched_run.induct)
  case (run_step x e y es)
  then show ?case using sched_step_distance [OF run_step(2,1,5,6)] by auto
qed simp

section \<open>Sleeping\<close>

text \<open>
  Between critical sections no lock is held. From such a state, \<open>sleep\<close> under a lock hands over to the scheduler with
  only the table's lock held; the scheduler dispatches a process, and \<open>sleep_return\<close> of that
  process gives up the table's lock and takes its own lock again.
\<close>

definition unlocked :: "'a pstate_scheme \<Rightarrow> bool" where
  "unlocked k \<longleftrightarrow> calm k \<and> ncli (this_cpu (mach k)) = 0 \<and> (\<forall>l. lock_free (spin k l))"

lemma unlockedD:
  assumes "unlocked k"
  shows "calm k" "ncli (this_cpu (mach k)) = 0" "lock_free (spin k l)"
  using assms by (auto simp: unlocked_def)

lemma calm_unlocked [simp]:
  assumes "unlocked k"
  shows "calm k" "calm (locked_by l k)" "calm (locked_by l (locked_by l' k))"
  using unlockedD [OF assms] by simp_all

lemma unlocked_update [simp]:
  "unlocked (k\<lparr>procs := q\<rparr>) = unlocked k" "unlocked (upd_proc p f k) = unlocked k"
  "unlocked (wakeup1 ch k) = unlocked k" "unlocked (k\<lparr>cproc := c\<rparr>) = unlocked k"
  by (simp_all add: unlocked_def upd_proc_def)

definition asleep :: "nat \<Rightarrow> chan \<Rightarrow> 'a pstate_scheme \<Rightarrow> 'a pstate_scheme" where
  "asleep p ch = upd_proc p (\<lambda>q. q\<lparr>p_chan := Some ch, p_state := SLEEPING\<rparr>)"

lemma locked_by_commute:
  assumes "l \<noteq> l'"
  shows "locked_by l (locked_by l' k) = locked_by l' (locked_by l k)"
  using assms by (simp add: locked_by_def upd_cpu_def fun_upd_twist)

lemma pushcli_flags: "eflags (pushcli c) AND FL_IF = 0"
  using pushcli_simps(2) [of c] by (simp add: interrupts_on_def)

lemma upd_proc_twice:
  "p < length (procs k) \<Longrightarrow> upd_proc p f (upd_proc p g k) = upd_proc p (\<lambda>q. f (g q)) k"
  by (simp add: upd_proc_def)

lemma intena_calm: "calm k \<Longrightarrow> intena (pushcli (this_cpu (mach k))) = intena (this_cpu (mach k))"
proof -
  assume "calm k"
  then have *: "remember_if (this_cpu (mach k)) = this_cpu (mach k)" by (simp add: calm_def)
  have "intena (pushcli c) = intena (remember_if c)" for c
    by (simp add: pushcli_def remember_if_def cli_def Let_def)
  then show ?thesis using * by metis
qed

lemma sched_locked:
  assumes "unlocked k" "cproc k (cpu_id (mach k)) = Some p" "p_state (procs k ! p) \<noteq> RUNNING"
  shows "sched (locked_by PtableLock k) = Ret (intena (this_cpu (mach k)), locked_by PtableLock k)"
proof -
  note u = unlockedD [OF assms(1)]
  have "this_cpu (mach (locked_by PtableLock k)) = pushcli (this_cpu (mach k))" by (simp add: locked_by_def)
  then show ?thesis
    using assms(2,3) u holdingk_locked_by [OF u(1), of PtableLock] pushcli_flags intena_calm [OF u(1)]
    by (simp add: sched_def with_proc_def)
qed

lemma sleep_locked:
  assumes "unlocked k" "cproc k (cpu_id (mach k)) = Some p" "p < length (procs k)"
  shows "l \<noteq> PtableLock \<Longrightarrow> sleep ch (Some l) (locked_by l k) = Ret (intena (this_cpu (mach k)), locked_by PtableLock (asleep p ch k))"
    and "sleep ch (Some PtableLock) (locked_by PtableLock k) = Ret (intena (this_cpu (mach k)), locked_by PtableLock (asleep p ch k))"
proof -
  note u = unlockedD [OF assms(1)]
  have s: "sched (locked_by PtableLock (asleep p ch k)) = Ret (intena (this_cpu (mach k)), locked_by PtableLock (asleep p ch k))"
    using sched_locked [of "asleep p ch k" p] assms by (simp add: asleep_def)
  have e: "upd_proc p (p_state_update (\<lambda>_. SLEEPING)) (upd_proc p (p_chan_update (\<lambda>_. Some ch)) k) = asleep p ch k"
    using assms(3) by (simp add: asleep_def upd_proc_twice)
  show "sleep ch (Some PtableLock) (locked_by PtableLock k) = Ret (intena (this_cpu (mach k)), locked_by PtableLock (asleep p ch k))"
    using assms(1,2) s by (simp add: sleep_def e Let_def)
  assume l: "l \<noteq> PtableLock"
  have "acquirek PtableLock (locked_by l k) = Ret (locked_by PtableLock (locked_by l k))"
    using u l by (intro acquirek_calm) simp_all
  moreover have "releasek l (locked_by PtableLock (locked_by l k)) = Ret (locked_by PtableLock k)"
    using u l by (simp add: locked_by_commute [of PtableLock l])
  ultimately show "sleep ch (Some l) (locked_by l k) = Ret (intena (this_cpu (mach k)), locked_by PtableLock (asleep p ch k))"
    using assms(1,2) s l by (simp add: sleep_def e Let_def)
qed

lemma yield_unlocked:
  assumes "unlocked k" "cproc k (cpu_id (mach k)) = Some p" "p < length (procs k)"
  shows "yield k = Ret (intena (this_cpu (mach k)), locked_by PtableLock (upd_proc p (p_state_update (\<lambda>_. RUNNABLE)) k))"
proof -
  note u = unlockedD [OF assms(1)]
  show ?thesis
    using assms(2,3) u sched_locked [of "upd_proc p (p_state_update (\<lambda>_. RUNNABLE)) k" p] assms(1)
    by (simp add: yield_def acquirek_calm with_proc_def)
qed

text \<open>The dispatched process: it runs, on its own page directory.\<close>

definition dispatched :: "nat \<Rightarrow> nat \<Rightarrow> 'a pstate_scheme \<Rightarrow> 'a pstate_scheme" where
  "dispatched c p k = upd_proc p (p_state_update (\<lambda>_. RUNNING)) (switched p (k\<lparr>cproc := (cproc k)(c := Some p)\<rparr>))"

lemma dispatch_locked:
  assumes "unlocked k" "p_kstack (procs k ! p) \<noteq> 0" "p_pgdir (procs k ! p) \<noteq> 0"
  shows "scheduler_switch c p (scheduler_back c (locked_by PtableLock k)) = Ret (locked_by PtableLock (dispatched c p k))"
proof -
  note u = unlockedD [OF assms(1)]
  let ?k = "(scheduler_back c (locked_by PtableLock k))\<lparr>cproc := (cproc (scheduler_back c (locked_by PtableLock k)))(c := Some p)\<rparr>"
  have "procs ?k = procs k" "this_cpu (mach ?k) = pushcli (this_cpu (mach k))"
    by (simp_all add: scheduler_back_def switchkvmk_def switchkvm_def locked_by_def upd_cpu_def)
  moreover have "can_push (this_cpu (mach k))" "remember_if (this_cpu (mach k)) = this_cpu (mach k)" using u(1) by (simp_all add: calm_def)
  ultimately have "switchuvm (Some p) ?k = Ret (switched p ?k)" "can_push (this_cpu (mach k))"
    "remember_if (this_cpu (mach k)) = this_cpu (mach k)"
    using assms(2,3) by (simp_all add: switchuvm_eq)
  then show ?thesis
    by (simp add: scheduler_switch_def dispatched_def scheduler_back_def switchkvmk_def switchkvm_def
        switched_def locked_by_def upd_cpu_def upd_proc_def)
qed

lemma unlocked_dispatched [simp]: "unlocked k \<Longrightarrow> unlocked (dispatched c p k)"
  by (simp add: unlocked_def calm_def dispatched_def switched_def upd_proc_def)

lemma dispatched_simps [simp]:
  "procs (dispatched c p k) = (procs k)[p := (procs k ! p)\<lparr>p_state := RUNNING\<rparr>]"
  "cproc (dispatched c p k) = (cproc k)(c := Some p)" "cpu_id (mach (dispatched c p k)) = cpu_id (mach k)"
  "spin (dispatched c p k) = spin k"
  by (simp_all add: dispatched_def switched_def)

lemma intena_dispatched [simp]:
  "calm k \<Longrightarrow> intena (this_cpu (mach (dispatched c p k))) = intena (this_cpu (mach k))"
  by (simp add: dispatched_def switched_def calm_def)

lemma sched_return_locked: "calm k \<Longrightarrow> sched_return (intena (this_cpu (mach k))) (locked_by l k) = locked_by l k"
  using intena_calm [of k] by (simp add: sched_return_def locked_by_def upd_cpu_def)

lemma sleep_return_locked:
  assumes "unlocked k" "l \<noteq> PtableLock"
  shows "sleep_return p l (intena (this_cpu (mach k))) (locked_by PtableLock k) = Ret (locked_by l (upd_proc p (p_chan_update (\<lambda>_. None)) k))"
  using assms unlockedD [OF assms(1)]
  by (simp add: sleep_return_def sched_return_locked acquirek_calm)

lemma yield_return_locked:
  assumes "unlocked k"
  shows "yield_return (intena (this_cpu (mach k))) (locked_by PtableLock k) = Ret k"
  using unlockedD [OF assms(1)] by (simp add: yield_return_def sched_return_locked)

section \<open>Properties\<close>

text \<open>A process table with one running process over a given machine, for concrete instances.\<close>

definition proc0 :: proc where
  "proc0 = \<lparr>p_sz = 0, p_hugesz = 0, p_pgdir = 0, p_kstack = 0, p_state = UNUSED, p_pid = 0, p_parent = None,
     p_tf = 0, p_context = 0, p_chan = None, p_killed = 0, p_ofile = replicate NOFILE None, p_cwd = None, p_name = []\<rparr>"

definition pstate0 :: "machine \<Rightarrow> proc list \<Rightarrow> pstate" where
  "pstate0 s ps = \<lparr>mach = s\<lparr>cpu_id := 0, this_cpu := this_cpu machine0\<rparr>,
     spin = (\<lambda>_. \<lparr>locked = 0, lkname = [], lkcpu = None\<rparr>), procs = ps, initproc = Some 0, nextpid = 2,
     cproc = (\<lambda>_. None)(0 := Some 0), apicids = [0], lapicid = 0, tss = \<lparr>ss0 = 0, esp0 = 0, iomb = 0\<rparr>,
     task_reg = 0, forkret_addr = 0x80103000, trapret_addr = 0x80105000\<rparr>"

lemma calm_pstate0 [simp]: "calm (pstate0 s ps)"
  by (simp add: calm_def pstate0_def machine0_def can_push_def cpu_ok_def depth_def remember_if_def)

lemma pstate0_simps [simp]:
  "procs (pstate0 s ps) = ps" "mem (mach (pstate0 s ps)) = mem s" "cpu_id (mach (pstate0 s ps)) = 0"
  "cproc (pstate0 s ps) 0 = Some 0" "lock_free (spin (pstate0 s ps) l)"
  by (simp_all add: pstate0_def lock_free_def)

lemma kpage_pstate0 [simp]: "kpage (mach (pstate0 s qs)) = kpage s" "kend (mach (pstate0 s qs)) = kend s"
  by (simp_all add: fun_eq_iff kpage_def pstate0_def)

lemma kpool_pstate0: "kpool s ps \<Longrightarrow> kpool (mach (pstate0 s qs)) ps"
  by (simp add: pstate0_def kpool_def locks_ok_def kpage_def machine0_def can_push_def cpu_ok_def depth_def)

lemma aspace_pstate0:
  assumes "aspace s d ps"
  shows "aspace (mach (pstate0 s qs)) d ps"
  by (rule aspace_cong(1) [OF assms kpool_pstate0 [OF aspaceD(1) [OF assms]]]) simp_all

lemma uspace_pstate0: "uspace s d ps \<Longrightarrow> uspace (mach (pstate0 s qs)) d ps"
  using aspace_pstate0 [of s d ps qs] unfolding uspace_def pstate0_simps kpage_pstate0 by blast

lemma example_proc:
  obtains s where "\<And>sz hz. runs (pstate0 s [proc0\<lparr>p_sz := sz, p_hugesz := hz, p_pgdir := 0x80200000, p_kstack := 0x80203000\<rparr>])
      0 0x80200000 [0x80201000, 0x80202000]" "entry (mem s) 0x80200000 = (\<lambda>_. 0)"
    "\<And>i. unat i < 1024 \<Longrightarrow> \<not> huge (mem s) 0x80200000 i"
proof (rule example_space)
  fix s assume "uspace s 0x80200000 [0x80201000, 0x80202000]" "entry (mem s) 0x80200000 = (\<lambda>_. 0)"
    "\<And>i. unat i < 1024 \<Longrightarrow> \<not> huge (mem s) 0x80200000 i"
  then show ?thesis using that [of s] by (simp add: runs_def uspace_pstate0)
qed

text \<open>
  Claim C21. Growing the heap (\<open>growproc\<close> with a positive \<open>n\<close>, the system call \<^verbatim>\<open>sbrk\<close>) is all or nothing: either it
  returns 0, the size is \<open>sz + n\<close>, every new page is mapped to a fresh zeroed frame and the
  CPU uses the process's page directory, or it returns -1 with the process and every mapping as
  before.
\<close>

theorem growproc_all_or_nothing:
  assumes "runs k p d ps" "sz = p_sz (procs k ! p)" "0 < sint n" "can_grow (mach k) d sz (sz + n)"
  shows "\<exists>r k' s' ps'. growproc n k = Ret (r, k') \<and> mem (mach k') = mem s' \<and>
    (r = 0 \<and> procs k' = (procs k)[p := (procs k ! p)\<lparr>p_sz := sz + n\<rparr>] \<and> cr3 (mach k') = V2P d \<and>
       grown d (mach k) ps s' ps' (unat (PGROUNDUP sz)) (unat (PGROUNDUP (sz + n))) \<or>
     r = -1 \<and> procs k' = procs k \<and> restored d (mach k) ps s' ps')"
proof -
  obtain s' ps' where "growproc n k = Ret (0, switched p (upd_proc p (p_sz_update (\<lambda>_. sz + n)) (k\<lparr>mach := s'\<rparr>))) \<and>
      grown d (mach k) ps s' ps' (unat (PGROUNDUP sz)) (unat (PGROUNDUP (sz + n))) \<or>
    growproc n k = Ret (-1, k\<lparr>mach := s'\<rparr>) \<and> restored d (mach k) ps s' ps'"
    using growproc_grow [OF assms] by blast
  then show ?thesis
  proof (elim disjE conjE)
    assume g: "growproc n k = Ret (0, switched p (upd_proc p (p_sz_update (\<lambda>_. sz + n)) (k\<lparr>mach := s'\<rparr>)))"
      "grown d (mach k) ps s' ps' (unat (PGROUNDUP sz)) (unat (PGROUNDUP (sz + n)))"
    have "p < length (procs k)" "p_pgdir (procs k ! p) = d" using assms(1) by (simp_all add: runs_def)
    then show ?thesis using g by (intro exI [of _ 0] exI [of _ s'] exI [of _ ps'] exI) auto
  next
    assume "growproc n k = Ret (-1, k\<lparr>mach := s'\<rparr>)" "restored d (mach k) ps s' ps'"
    then show ?thesis by (intro exI [of _ "-1"] exI [of _ s'] exI [of _ ps'] exI) auto
  qed
qed

theorem growproc_all_or_nothing_witness:
  "\<exists>(k :: pstate) r k'. p_sz (procs k ! 0) = 4096 \<and> growproc 4096 k = Ret (r, k') \<and>
     p_sz (procs k' ! 0) = (if r = 0 then 8192 else 4096)"
proof (rule example_proc)
  fix s assume s: "\<And>sz hz. runs (pstate0 s [proc0\<lparr>p_sz := sz, p_hugesz := hz, p_pgdir := 0x80200000, p_kstack := 0x80203000\<rparr>])
      0 0x80200000 [0x80201000, 0x80202000]" "entry (mem s) 0x80200000 = (\<lambda>_. 0)"
    "\<And>i. unat i < 1024 \<Longrightarrow> \<not> huge (mem s) 0x80200000 i"
  let ?k = "pstate0 s [proc0\<lparr>p_sz := 4096, p_hugesz := 0, p_pgdir := 0x80200000, p_kstack := 0x80203000\<rparr>]"
  have c: "can_grow (mach ?k) 0x80200000 4096 (4096 + 4096)" using s(2,3) by (simp add: can_grow_def)
  obtain r k' where "growproc 4096 ?k = Ret (r, k')" "r = 0 \<and> procs k' = (procs ?k)[0 := (procs ?k ! 0)\<lparr>p_sz := 4096 + 4096\<rparr>] \<or>
      r = -1 \<and> procs k' = procs ?k"
    using growproc_all_or_nothing [OF s(1) _ _ c] by auto
  then show ?thesis by (intro exI [of _ ?k] exI [of _ r] exI [of _ k']) auto
qed

text \<open>
  Claim C22. Shrinking the heap unmaps and frees exactly the pages above the new size. If the new size is
  0 the call reports failure and keeps the old size, although the pages are gone.
\<close>

theorem growproc_shrinks:
  assumes "runs k p d ps" "sz = p_sz (procs k ! p)" "sint n < 0" "sz + n < sz" "unat sz \<le> 0x80000000"
    and "\<forall>x. sz + n \<le> x \<longrightarrow> x < sz \<longrightarrow> \<not> huge (mem (mach k)) d (PDX x)"
  shows "\<exists>k' s' ps'. growproc n k = Ret (if sz + n = 0 then -1 else 0, k') \<and> mem (mach k') = mem s' \<and>
    procs k' = (if sz + n = 0 then procs k else (procs k)[p := (procs k ! p)\<lparr>p_sz := sz + n\<rparr>]) \<and>
    shrunk d (mach k) ps s' ps' (unat (PGROUNDUP (sz + n))) (unat sz)"
proof -
  obtain s' ps' where g: "shrunk d (mach k) ps s' ps' (unat (PGROUNDUP (sz + n))) (unat sz)"
    "growproc n k = Ret
      (if sz + n = 0 then (-1, k\<lparr>mach := s'\<rparr>)
       else (0, switched p (upd_proc p (p_sz_update (\<lambda>_. sz + n)) (k\<lparr>mach := s'\<rparr>))))"
    using growproc_shrink [OF assms(1-5)] assms(6) by blast
  then show ?thesis
    by (intro exI [of _ "if sz + n = 0 then k\<lparr>mach := s'\<rparr>
       else switched p (upd_proc p (p_sz_update (\<lambda>_. sz + n)) (k\<lparr>mach := s'\<rparr>))"] exI [of _ s'] exI [of _ ps']) simp
qed

theorem growproc_shrinks_witness:
  "\<exists>(k :: pstate) k' k''. p_sz (procs k ! 0) = 8192 \<and> growproc (-4096) k = Ret (0, k') \<and> p_sz (procs k' ! 0) = 4096 \<and>
     growproc (-8192) k = Ret (-1, k'') \<and> p_sz (procs k'' ! 0) = 8192"
proof (rule example_proc)
  fix s assume s: "\<And>sz hz. runs (pstate0 s [proc0\<lparr>p_sz := sz, p_hugesz := hz, p_pgdir := 0x80200000, p_kstack := 0x80203000\<rparr>])
      0 0x80200000 [0x80201000, 0x80202000]" "\<And>i. unat i < 1024 \<Longrightarrow> \<not> huge (mem s) 0x80200000 i"
  let ?k = "pstate0 s [proc0\<lparr>p_sz := 8192, p_hugesz := 0, p_pgdir := 0x80200000, p_kstack := 0x80203000\<rparr>]"
  have h: "\<forall>x. 8192 + n \<le> x \<longrightarrow> x < 8192 \<longrightarrow> \<not> huge (mem (mach ?k)) 0x80200000 (PDX x)" for n
    using s(2) [OF PDX_less] by simp
  note g = growproc_shrinks [OF s(1) _ _ _ _ h]
  obtain k' where k': "growproc (-4096) ?k = Ret (0, k')" "procs k' = (procs ?k)[0 := (procs ?k ! 0)\<lparr>p_sz := 8192 + (-4096)\<rparr>]"
    using g [where n = "-4096"] by auto
  obtain k'' where k'': "growproc (-8192) ?k = Ret (-1, k'')" "procs k'' = procs ?k"
    using g [where n = "-8192"] by auto
  show ?thesis using k' k'' by (intro exI [of _ ?k] exI [of _ k'] exI [of _ k'']) simp
qed

text \<open>
  Claim C23. Growing the 4 MB heap (\<open>growhugeproc\<close> with a positive \<open>n\<close>, the system call \<^verbatim>\<open>shugebrk\<close>) from an end at a multiple of 4 MB: if the pool
  has enough pages it returns 0 with \<open>n\<close> added to the size and the pages mapped one after the other from the old end
  on; otherwise it returns -1, the size stays, and the pool is empty.
\<close>

theorem growhugeproc_grows:
  assumes "calm k" "cproc k (cpu_id (mach k)) = Some p" "p < length (procs k)" "p_kstack (procs k ! p) \<noteq> 0"
    and "p_pgdir (procs k ! p) = d" "aspace (mach k) d ps" "hpool (mach k) hs"
    and "lo = p_hugesz (procs k ! p) + HUGE_VA_OFFSET" "4194304 dvd unat lo" "0 < sint n"
    and "lo \<le> lo + n" "unat (lo + n) \<le> 0x80000000"
    and "\<forall>x. lo \<le> x \<longrightarrow> x < lo + n \<longrightarrow> tab (mem (mach k)) d (PDX x) = None \<and> \<not> huge (mem (mach k)) d (PDX x)"
    and "m = (unat (lo + n) + 4194303 - unat lo) div 4194304"
  shows "\<exists>k' s'. growhugeproc n k = Ret (if m \<le> length hs then 0 else -1, k') \<and>
    mem (mach k') = mem s' \<and> aspace s' d ps \<and> hpool s' (drop m hs) \<and>
    entry (mem s') d = map_huges (entry (mem (mach k)) d) lo (take m hs) \<and>
    p_hugesz (procs k' ! p) = p_hugesz (procs k ! p) + (if m \<le> length hs then n else 0)"
proof -
  obtain s' where s': "aspace s' d ps" "hpool s' (drop m hs)" "entry (mem s') d = map_huges (entry (mem (mach k)) d) lo (take m hs)"
    "growhugeproc n k = Ret
      (if m \<le> length hs
       then (0, switched p (upd_proc p (p_hugesz_update (\<lambda>_. p_hugesz (procs k ! p) + n)) (k\<lparr>mach := s'\<rparr>)))
       else (-1, k\<lparr>mach := s'\<rparr>))"
    using growhugeproc_grow [OF assms] by blast
  show ?thesis
  proof (cases "m \<le> length hs")
    case True
    then show ?thesis using s' assms(3) by (intro exI [of _ s'] exI) (auto simp: s'(4))
  next
    case False
    then show ?thesis using s' by (intro exI [of _ s'] exI) (auto simp: s'(4))
  qed
qed

theorem growhugeproc_grows_witness:
  "\<exists>(k :: pstate) k' k''. growhugeproc 0x400000 k = Ret (0, k') \<and> p_hugesz (procs k' ! 0) = 0x400000 \<and>
     growhugeproc 0x800000 k = Ret (-1, k'') \<and> p_hugesz (procs k'' ! 0) = 0"
proof (rule example_huge)
  let ?d = "0x80200000 :: u32" and ?off = "0x1E000000 :: u32"
  fix s assume s: "aspace s ?d [0x80201000, 0x80202000]" "hpool s [0x9E000000]"
    "\<And>i. unat i < 1024 \<Longrightarrow> tab (mem s) ?d i = None" "\<And>i. unat i < 1024 \<Longrightarrow> \<not> huge (mem s) ?d i"
  let ?k = "pstate0 s [proc0\<lparr>p_pgdir := ?d, p_kstack := 0x80203000\<rparr>]"
  have a: "aspace (mach ?k) ?d [0x80201000, 0x80202000]" using s(1) by (rule aspace_pstate0)
  have h: "hpool (mach ?k) [0x9E000000]"
    using s(2) aspaceD(1) [OF a] by (simp add: hpool_def kpool_def) (simp add: pstate0_def)
  have p: "calm ?k" "cproc ?k (cpu_id (mach ?k)) = Some 0" "0 < length (procs ?k)" "p_kstack (procs ?k ! 0) \<noteq> 0"
    "p_pgdir (procs ?k ! 0) = ?d" by (simp_all add: proc0_def)
  have lo: "?off = p_hugesz (procs ?k ! 0) + HUGE_VA_OFFSET" "4194304 dvd unat ?off" by (simp_all add: proc0_def)
  have f: "\<forall>x. ?off \<le> x \<longrightarrow> x < ?off + n \<longrightarrow> tab (mem (mach ?k)) ?d (PDX x) = None \<and> \<not> huge (mem (mach ?k)) ?d (PDX x)" for n
    using s(3,4) [OF PDX_less] by simp
  note g = growhugeproc_grows [OF p a h lo _ _ _ f]
  have n: "1 = (unat (?off + 0x400000) + 4194303 - unat ?off) div 4194304"
    "2 = (unat (?off + 0x800000) + 4194303 - unat ?off) div 4194304" by simp_all
  have b: "0 < sint (0x400000 :: u32)" "0 < sint (0x800000 :: u32)" "?off \<le> ?off + 0x400000" "?off \<le> ?off + 0x800000"
    "unat (?off + 0x400000) \<le> 0x80000000" "unat (?off + 0x800000) \<le> 0x80000000" by simp_all
  obtain k' where k': "growhugeproc 0x400000 ?k = Ret (0, k')" "p_hugesz (procs k' ! 0) = 0x400000"
    using g [OF b(1,3,5) n(1)] by (auto simp: proc0_def)
  obtain k'' where k'': "growhugeproc 0x800000 ?k = Ret (-1, k'')" "p_hugesz (procs k'' ! 0) = 0"
    using g [OF b(2,4,6) n(2)] by (auto simp: proc0_def)
  show ?thesis using k' k'' by blast
qed

text \<open>
  Claim C24. Shrinking the 4 MB heap does not touch it: \<open>growhugeproc\<close> with a negative \<open>n\<close> leaves out the base address
  \<^verbatim>\<open>HUGE_VA_OFFSET\<close> when it unmaps. It frees the 4 KB pages of the ordinary heap between \<open>hugesz + n\<close> and
  \<open>hugesz\<close>, and then records a size that is \<^verbatim>\<open>HUGE_VA_OFFSET\<close> too small (modulo \<open>2 ^ 32\<close>).
\<close>

theorem growhugeproc_shrinks_base_heap:
  assumes "runs k p d ps" "hz = p_hugesz (procs k ! p)" "sint n < 0" "hz + n < hz" "hz + n \<noteq> 0" "unat hz \<le> 0x80000000"
    and "\<forall>x. hz + n \<le> x \<longrightarrow> x < hz \<longrightarrow> \<not> huge (mem (mach k)) d (PDX x)"
  shows "\<exists>k' s' ps'. growhugeproc n k = Ret (0, k') \<and> mem (mach k') = mem s' \<and>
    shrunk d (mach k) ps s' ps' (unat (PGROUNDUP (hz + n))) (unat hz) \<and>
    p_hugesz (procs k' ! p) = hz + n - HUGE_VA_OFFSET"
proof -
  obtain s' ps' where g: "shrunk d (mach k) ps s' ps' (unat (PGROUNDUP (hz + n))) (unat hz)"
    "growhugeproc n k = Ret (0,
      switched p (upd_proc p (p_hugesz_update (\<lambda>_. hz + n - HUGE_VA_OFFSET)) (k\<lparr>mach := s'\<rparr>)))"
    using growhugeproc_shrink [OF assms(1-4,6)] assms(5,7) by blast
  have "p < length (procs k)" using assms(1) by (simp add: runs_def)
  then show ?thesis using g by (intro exI [of _ s'] exI [of _ ps'] exI) auto
qed

theorem growhugeproc_shrinks_base_heap_witness:
  "\<exists>(k :: pstate) k'. p_hugesz (procs k ! 0) = 0x800000 \<and> growhugeproc (-0x400000) k = Ret (0, k') \<and>
     p_hugesz (procs k' ! 0) = 0xE2400000"
proof (rule example_proc)
  fix s assume s: "\<And>sz hz. runs (pstate0 s [proc0\<lparr>p_sz := sz, p_hugesz := hz, p_pgdir := 0x80200000, p_kstack := 0x80203000\<rparr>])
      0 0x80200000 [0x80201000, 0x80202000]" "\<And>i. unat i < 1024 \<Longrightarrow> \<not> huge (mem s) 0x80200000 i"
  let ?k = "pstate0 s [proc0\<lparr>p_sz := 0, p_hugesz := 0x800000, p_pgdir := 0x80200000, p_kstack := 0x80203000\<rparr>]"
  have h: "\<forall>x. 0x800000 + (-0x400000) \<le> x \<longrightarrow> x < 0x800000 \<longrightarrow> \<not> huge (mem (mach ?k)) 0x80200000 (PDX x)"
    using s(2) [OF PDX_less] by simp
  obtain k' where "growhugeproc (-0x400000) ?k = Ret (0, k')" "p_hugesz (procs k' ! 0) = 0x800000 + (-0x400000) - HUGE_VA_OFFSET"
    using growhugeproc_shrinks_base_heap [OF s(1) _ _ _ _ _ h] by auto
  then show ?thesis by (intro exI [of _ ?k] exI [of _ k']) simp
qed

text \<open>
  Claim C11. The scheduler is fair: a process that is runnable whenever the scheduler looks at the table is
  chosen within 65 events (processes chosen, ends of passes), whatever the processes that run in
  between and the other CPUs do.
\<close>

theorem scheduler_fair:
  assumes "sched_run c q x es" "q < NPROC" "fst x \<le> NPROC" "NPROC < length es"
  shows "Some q \<in> set es"
proof -
  have "distance q (fst x) \<le> NPROC" using assms(2,3) by (auto simp: distance_def)
  then show ?thesis using sched_run_distance [OF assms(1-3)] assms(4) by auto
qed

definition sched0 :: pstate where
  "sched0 = scheduler_back 0 (locked_by PtableLock
     (pstate0 machine0 (proc0\<lparr>p_state := RUNNABLE, p_kstack := 0x80203000, p_pgdir := 0x80200000\<rparr> # replicate 63 proc0)))"

lemma sched0_steps:
  "sched_step 0 (0, sched0) (Some 0) (1, sched0)" "sched_step 0 (1, sched0) None (0, sched0)"
  "p_state (procs sched0 ! 0) = RUNNABLE"
proof -
  have bk: "scheduler_back 0 sched0 = sched0"
    by (simp add: sched0_def scheduler_back_def switchkvmk_def switchkvm_def)
  have p: "procs sched0 = proc0\<lparr>p_state := RUNNABLE, p_kstack := 0x80203000, p_pgdir := 0x80200000\<rparr> # replicate 63 proc0"
    by (simp add: sched0_def scheduler_back_def switchkvmk_def)
  show r: "p_state (procs sched0 ! 0) = RUNNABLE" by (simp add: p)
  have m: "this_cpu (mach sched0) = pushcli (this_cpu machine0)" "cpu_id (mach sched0) = 0"
    "spin sched0 PtableLock = \<lparr>locked = 1, lkname = [], lkcpu = Some 0\<rparr>"
    by (simp_all add: sched0_def scheduler_back_def switchkvmk_def switchkvm_def locked_by_def upd_cpu_def pstate0_def)
  have c: "cpu_ok (this_cpu (mach sched0))" by (simp add: m)
  have n: "scheduler_next 0 sched0 = Some 0" using r by (simp add: scheduler_next_def upt_conv_Cons)
  have "scheduler_switch 0 0 sched0 = Ret (upd_proc 0 (p_state_update (\<lambda>_. RUNNING)) (switched 0 (sched0\<lparr>cproc := (cproc sched0)(0 := Some 0)\<rparr>)))"
    using c p by (simp add: scheduler_switch_def switchuvm_eq)
  from sched_pick [OF n this, of sched0] show "sched_step 0 (0, sched0) (Some 0) (1, sched0)"
    by (simp add: bk)
  have "p_state (procs sched0 ! q) = UNUSED" if "1 \<le> q" "q < 64" for q
    using that by (cases q) (auto simp: p proc0_def)
  then have n1: "scheduler_next 1 sched0 = None" by (auto simp: scheduler_next_def find_None_iff)
  obtain k1 where "scheduler_pass_end sched0 = Ret k1"
  proof -
    have "release 0 (pushcli (this_cpu machine0)) (spin sched0 PtableLock) = Ret (this_cpu machine0, \<lparr>locked = 0, lkname = [], lkcpu = None\<rparr>)"
      by (simp add: m(3) release_eq popcli_pushcli) (simp add: machine0_def remember_if_def)
    then show ?thesis
      using that by (simp add: scheduler_pass_end_def releasek_def acquirek_def m(1,2) acquire_eq machine0_def sti_def can_push_def cpu_ok_def depth_def)
  qed
  from sched_end [OF n1 this, of 0 sched0] show "sched_step 0 (1, sched0) None (0, sched0)" .
qed

lemma sched0_runs: "\<exists>es. length es = n \<and> sched_run 0 0 (0, sched0) es" "\<exists>es. length es = n \<and> sched_run 0 0 (1, sched0) es"
proof (induction n)
  case 0
  show "\<exists>es. length es = 0 \<and> sched_run 0 0 (0, sched0) es" "\<exists>es. length es = 0 \<and> sched_run 0 0 (1, sched0) es"
    by (auto intro: sched_run.intros)
next
  case (Suc n)
  show "\<exists>es. length es = Suc n \<and> sched_run 0 0 (0, sched0) es"
    using Suc(2) sched0_steps(1,3) by (metis length_Cons run_step snd_conv)
  show "\<exists>es. length es = Suc n \<and> sched_run 0 0 (1, sched0) es"
    using Suc(1) sched0_steps(2,3) by (metis length_Cons run_step snd_conv)
qed

theorem scheduler_fair_witness: "\<exists>es. sched_run 0 0 (0, sched0) es \<and> length es = 65 \<and> Some 0 \<in> set es"
proof -
  obtain es where es: "length es = 65" "sched_run 0 0 (0, sched0) es" using sched0_runs(1) [of 65] by blast
  with scheduler_fair [OF es(2)] show ?thesis by auto
qed

end
