(* ===== verification/Pipe.thy ===== *)
theory Pipe
  imports Proc
begin

text \<open>
  Pipes (pipe.c): a ring buffer of 512 bytes whose read and write positions are 32-bit counters that
  wrap around. A pipe is named by the address of the page it lives in. \<open>pipewrite\<close> and \<open>piperead\<close>
  return, or block with what they keep on the kernel stack. They are shown to refine a bounded queue
  of bytes, and any number of processes that write, read, block, are woken up, killed and
  rescheduled are shown to see one stream of bytes without losing a wakeup.
\<close>

section \<open>State\<close>

abbreviation (input) PIPESIZE :: nat where "PIPESIZE \<equiv> 512"

record pipe =
  pdata :: "u8 list"
  nread :: u32
  nwrite :: u32
  readopen :: u32
  writeopen :: u32

record pipe_state = pstate +
  pipes :: "u32 \<Rightarrow> pipe"

definition upd_pipe :: "u32 \<Rightarrow> (pipe \<Rightarrow> pipe) \<Rightarrow> 'a pipe_state_scheme \<Rightarrow> 'a pipe_state_scheme" where
  "upd_pipe a f k = k\<lparr>pipes := (pipes k)(a := f (pipes k a))\<rparr>"

section \<open>Operations\<close>

definition pipeclose :: "u32 \<Rightarrow> bool \<Rightarrow> 'a pipe_state_scheme \<Rightarrow> 'a pipe_state_scheme outcome" where
  "pipeclose a writable k =
     obind (acquirek (PipeLock a) k) (\<lambda>k.
       obind
         (if writable then wakeup (PipeReadChan a) (upd_pipe a (writeopen_update (\<lambda>_. 0)) k)
          else wakeup (PipeWriteChan a) (upd_pipe a (readopen_update (\<lambda>_. 0)) k))
         (\<lambda>k.
           if readopen (pipes k a) = 0 \<and> writeopen (pipes k a) = 0
           then obind (releasek (PipeLock a) k) (on_mach (kfree a))
           else releasek (PipeLock a) k))"

definition pipe_full :: "pipe \<Rightarrow> bool" where
  "pipe_full p \<longleftrightarrow> nwrite p = nread p + of_nat PIPESIZE"

definition pipe_empty :: "pipe \<Rightarrow> bool" where
  "pipe_empty p \<longleftrightarrow> nread p = nwrite p"

definition put_byte :: "u8 \<Rightarrow> pipe \<Rightarrow> pipe" where
  "put_byte x p = p\<lparr>pdata := (pdata p)[unat (nwrite p) mod PIPESIZE := x], nwrite := nwrite p + 1\<rparr>"

definition get_byte :: "pipe \<Rightarrow> u8 \<times> pipe" where
  "get_byte p = (pdata p ! (unat (nread p) mod PIPESIZE), p\<lparr>nread := nread p + 1\<rparr>)"

text \<open>
  The loop of \<open>pipewrite\<close> from index \<open>i\<close> on, with the pipe's lock held. The result comes with the index
  reached.
\<close>

function pipewrite_loop :: "u32 \<Rightarrow> (nat \<Rightarrow> u8) \<Rightarrow> int \<Rightarrow> nat \<Rightarrow> 'a pipe_state_scheme \<Rightarrow>
    (int blocking \<times> nat \<times> 'a pipe_state_scheme) outcome" where
  "pipewrite_loop a addr n i k =
     (if int i < n then
        if pipe_full (pipes k a) then
          with_proc (\<lambda>cur k.
            if readopen (pipes k a) = 0 \<or> p_killed (procs k ! cur) \<noteq> 0
            then obind (releasek (PipeLock a) k) (\<lambda>k. Ret (Done (-1), i, k))
            else obind (wakeup (PipeReadChan a) k) (\<lambda>k.
              obind (sleep (PipeWriteChan a) (Some (PipeLock a)) k) (\<lambda>(e, k).
                Ret (Blocked (PipeWriteChan a) e, i, k)))) k
        else pipewrite_loop a addr n (Suc i) (upd_pipe a (put_byte (addr i)) k)
      else
        obind (wakeup (PipeReadChan a) k) (\<lambda>k.
          obind (releasek (PipeLock a) k) (\<lambda>k. Ret (Done n, i, k))))"
  by pat_completeness auto
termination by (relation "measure (\<lambda>(a, addr, n, i, k). nat (n - int i))") auto

declare pipewrite_loop.simps [simp del]

definition pipewrite :: "u32 \<Rightarrow> (nat \<Rightarrow> u8) \<Rightarrow> int \<Rightarrow> 'a pipe_state_scheme \<Rightarrow>
    (int blocking \<times> nat \<times> 'a pipe_state_scheme) outcome" where
  "pipewrite a addr n k = obind (acquirek (PipeLock a) k) (pipewrite_loop a addr n 0)"

definition pipewrite_return :: "u32 \<Rightarrow> (nat \<Rightarrow> u8) \<Rightarrow> int \<Rightarrow> nat \<Rightarrow> nat \<Rightarrow> u32 \<Rightarrow> 'a pipe_state_scheme \<Rightarrow>
    (int blocking \<times> nat \<times> 'a pipe_state_scheme) outcome" where
  "pipewrite_return a addr n i cur e k = obind (sleep_return cur (PipeLock a) e k) (pipewrite_loop a addr n i)"

text \<open>The copying loop of \<open>piperead\<close>: the bytes stored at \<^verbatim>\<open>addr\<close>, and the pipe.\<close>

primrec piperead_copy :: "nat \<Rightarrow> pipe \<Rightarrow> u8 list \<times> pipe" where
  "piperead_copy 0 p = ([], p)"
| "piperead_copy (Suc n) p =
     (if pipe_empty p then ([], p)
      else let (x, p) = get_byte p; (xs, p) = piperead_copy n p in (x # xs, p))"

definition piperead_body :: "u32 \<Rightarrow> int \<Rightarrow> 'a pipe_state_scheme \<Rightarrow>
    (int blocking \<times> u8 list \<times> 'a pipe_state_scheme) outcome" where
  "piperead_body a n k =
     (if pipe_empty (pipes k a) \<and> writeopen (pipes k a) \<noteq> 0 then
        with_proc (\<lambda>cur k.
          if p_killed (procs k ! cur) \<noteq> 0
          then obind (releasek (PipeLock a) k) (\<lambda>k. Ret (Done (-1), [], k))
          else obind (sleep (PipeReadChan a) (Some (PipeLock a)) k) (\<lambda>(e, k).
            Ret (Blocked (PipeReadChan a) e, [], k))) k
      else
        let (xs, p) = piperead_copy (nat n) (pipes k a);
            k = upd_pipe a (\<lambda>_. p) k
        in obind (wakeup (PipeWriteChan a) k) (\<lambda>k.
             obind (releasek (PipeLock a) k) (\<lambda>k. Ret (Done (int (length xs)), xs, k))))"

definition piperead :: "u32 \<Rightarrow> int \<Rightarrow> 'a pipe_state_scheme \<Rightarrow> (int blocking \<times> u8 list \<times> 'a pipe_state_scheme) outcome" where
  "piperead a n k = obind (acquirek (PipeLock a) k) (piperead_body a n)"

definition piperead_return :: "u32 \<Rightarrow> int \<Rightarrow> nat \<Rightarrow> u32 \<Rightarrow> 'a pipe_state_scheme \<Rightarrow>
    (int blocking \<times> u8 list \<times> 'a pipe_state_scheme) outcome" where
  "piperead_return a n cur e k = obind (sleep_return cur (PipeLock a) e k) (piperead_body a n)"

section \<open>The ring buffer is a bounded queue\<close>

definition pipe_ok :: "pipe \<Rightarrow> bool" where
  "pipe_ok p \<longleftrightarrow> length (pdata p) = PIPESIZE \<and> unat (nwrite p - nread p) \<le> PIPESIZE"

definition contents :: "pipe \<Rightarrow> u8 list" where
  "contents p = map (\<lambda>j. pdata p ! ((unat (nread p) + j) mod PIPESIZE)) [0..<unat (nwrite p - nread p)]"

lemma length_contents [simp]: "length (contents p) = unat (nwrite p - nread p)"
  by (simp add: contents_def)

lemma unat_add_mod_512: "unat ((a :: u32) + b) mod 512 = (unat a + unat b) mod 512"
proof -
  have "unat (a + b) = (unat a + unat b) mod 4294967296" by (simp add: unat_word_ariths)
  moreover have "(unat a + unat b) mod 4294967296 mod 512 = (unat a + unat b) mod 512"
    by (rule mod_mod_cancel) simp
  ultimately show ?thesis by simp
qed

lemma pipe_full_iff: "pipe_full p \<longleftrightarrow> length (contents p) = PIPESIZE"
proof -
  have "pipe_full p \<longleftrightarrow> nwrite p - nread p = 512" by (auto simp: pipe_full_def algebra_simps)
  also have "\<dots> \<longleftrightarrow> unat (nwrite p - nread p) = 512" by (simp add: word_unat_eq_iff)
  finally show ?thesis by simp
qed

lemma pipe_empty_iff: "pipe_empty p \<longleftrightarrow> contents p = []"
proof -
  have "pipe_empty p \<longleftrightarrow> unat (nwrite p - nread p) = 0" by (auto simp: pipe_empty_def unsigned_eq_0_iff)
  also have "\<dots> \<longleftrightarrow> length (contents p) = 0" by simp
  finally show ?thesis by (simp only: length_0_conv)
qed

lemma put_byte_queue:
  assumes "pipe_ok p" "\<not> pipe_full p"
  shows "pipe_ok (put_byte x p)" "contents (put_byte x p) = contents p @ [x]"
proof -
  define m where "m = unat (nwrite p - nread p)"
  have m: "m < 512" using assms pipe_full_iff [of p] by (auto simp: pipe_ok_def m_def)
  have d: "nwrite p + 1 - nread p = (nwrite p - nread p) + 1" by simp
  have u: "unat (nwrite p + 1 - nread p) = Suc m"
    unfolding d using m by (subst unat_add_no_wrap) (auto simp: m_def)
  show "pipe_ok (put_byte x p)" using assms(1) m u by (simp add: pipe_ok_def put_byte_def)
  have w: "unat (nwrite p) mod 512 = (unat (nread p) + m) mod 512"
    using unat_add_mod_512 [of "nread p" "nwrite p - nread p"] by (simp add: m_def)
  have ne: "(unat (nread p) + m) mod 512 \<noteq> (unat (nread p) + j) mod 512" if "j < m" for j
  proof
    assume "(unat (nread p) + m) mod 512 = (unat (nread p) + j) mod 512"
    then have "512 dvd unat (nread p) + m - (unat (nread p) + j)"
      using that by (subst mod_eq_dvd_iff_nat [symmetric]) auto
    then have "512 dvd m - j" by simp
    then show False using that m nat_dvd_not_less [of "m - j" 512] by simp
  qed
  show "contents (put_byte x p) = contents p @ [x]"
    using assms(1) by (auto simp: contents_def put_byte_def u w m_def [symmetric] pipe_ok_def nth_list_update_neq [OF ne])
qed

lemma get_byte_queue:
  assumes "pipe_ok p" "\<not> pipe_empty p" "get_byte p = (x, p')"
  shows "pipe_ok p'" "contents p = x # contents p'"
proof -
  define m where "m = unat (nwrite p - nread p)"
  have m: "0 < m" using assms(2) pipe_empty_iff [of p] by (auto simp: m_def simp flip: length_0_conv)
  have p': "p' = p\<lparr>nread := nread p + 1\<rparr>" "x = pdata p ! (unat (nread p) mod 512)"
    using assms(3) by (auto simp: get_byte_def)
  have d: "nwrite p - (nread p + 1) = (nwrite p - nread p) - 1" by simp
  have u: "unat (nwrite p - (nread p + 1)) = m - 1"
    unfolding d using m by (subst unat_minus_1) (auto simp: m_def)
  have "m \<le> 512" "length (pdata p) = 512" using assms(1) by (simp_all add: pipe_ok_def m_def)
  then show "pipe_ok p'" using u by (simp add: pipe_ok_def p')
  have "(unat (nread p + 1) + j) mod 512 = (unat (nread p) + Suc j) mod 512" for j
  proof -
    have "(unat (nread p + 1) + j) mod 512 = (unat (nread p + 1) mod 512 + j) mod 512"
      by (rule mod_add_left_eq [symmetric])
    also have "\<dots> = ((unat (nread p) + 1) mod 512 + j) mod 512" by (simp only: unat_add_mod_512 unat_1)
    also have "\<dots> = (unat (nread p) + 1 + j) mod 512" by (rule mod_add_left_eq)
    finally show ?thesis by simp
  qed
  then show "contents p = x # contents p'"
    using m by (cases m) (simp_all add: contents_def p' u m_def [symmetric] upt_conv_Cons comp_def del: upt_Suc flip: map_Suc_upt)
qed

lemma piperead_copy_queue:
  assumes "pipe_ok p" "piperead_copy n p = (xs, p')"
  shows "pipe_ok p' \<and> contents p = xs @ contents p' \<and> xs = take n (contents p) \<and>
    readopen p' = readopen p \<and> writeopen p' = writeopen p"
  using assms
proof (induction n arbitrary: p xs p')
  case 0
  then show ?case by simp
next
  case (Suc n)
  show ?case
  proof (cases "pipe_empty p")
    case True
    then show ?thesis using Suc.prems by (simp add: pipe_empty_iff)
  next
    case False
    obtain x q where g: "get_byte p = (x, q)" by fastforce
    obtain ys r where r: "piperead_copy n q = (ys, r)" by fastforce
    note q = get_byte_queue [OF Suc.prems(1) False g]
    have "xs = x # ys" "p' = r" using Suc.prems(2) False g r by auto
    moreover have "readopen q = readopen p" "writeopen q = writeopen p" using g by (auto simp: get_byte_def)
    moreover have ih: "pipe_ok r" "contents q = ys @ contents r" "take n (contents q) = ys"
      "readopen r = readopen q" "writeopen r = writeopen q" using Suc.IH [OF q(1) r] by blast+
    moreover have "take (Suc n) (contents p) = x # ys" unfolding q(2) using ih(3) by simp
    moreover have "contents p = x # ys @ contents r" unfolding q(2) using ih(2) by (rule arg_cong)
    ultimately show ?thesis by simp
  qed
qed

section \<open>What the operations do between critical sections\<close>

lemma pipe_locked_by [simp]:
  "pipes (locked_by l k) = pipes k" "upd_pipe a f (locked_by l k) = locked_by l (upd_pipe a f k)"
  "pipes (wakeup1 ch k) = pipes k" "pipes (upd_proc p g k) = pipes k" "pipes (asleep p ch k) = pipes k"
  "pipes (dispatched c p k) = pipes k"
  by (simp_all add: locked_by_def upd_cpu_def upd_pipe_def wakeup1_def upd_proc_def asleep_def dispatched_def switched_def)

lemma upd_pipe_simps [simp]:
  "procs (upd_pipe a f k) = procs k" "mach (upd_pipe a f k) = mach k" "spin (upd_pipe a f k) = spin k"
  "cproc (upd_pipe a f k) = cproc k" "pipes (upd_pipe a f k) = (pipes k)(a := f (pipes k a))"
  "unlocked (upd_pipe a f k) = unlocked k" "calm (upd_pipe a f k) = calm k"
  "wakeup1 ch (upd_pipe a f k) = upd_pipe a f (wakeup1 ch k)"
  by (simp_all add: upd_pipe_def unlocked_def calm_def wakeup1_def)

lemma wakeup_locked:
  assumes "unlocked k" "l \<noteq> PtableLock"
  shows "wakeup ch (locked_by l k) = Ret (locked_by l (wakeup1 ch k))"
  using wakeup_calm [of "locked_by l k" ch] unlockedD [OF assms(1)] assms(2) by simp

text \<open>
  The three ways out of \<open>pipewrite\<close>'s loop. \<open>p'\<close> is the pipe with the bytes from \<open>i\<close> up to \<open>i'\<close> appended.
\<close>

lemma pipewrite_loop_cases:
  assumes "unlocked k" "cproc k (cpu_id (mach k)) = Some p" "p < length (procs k)" "pipe_ok (pipes k a)"
  obtains (written) i' p' where "i \<le> i' \<and> int i' \<le> max (int i) n \<and> n \<le> int i'" "pipe_ok p'" "contents p' = contents (pipes k a) @ map addr [i..<i']"
      "readopen p' = readopen (pipes k a)" "writeopen p' = writeopen (pipes k a)"
      "pipewrite_loop a addr n i (locked_by (PipeLock a) k) = Ret (Done n, i', wakeup1 (PipeReadChan a) (upd_pipe a (\<lambda>_. p') k))"
  | (failed) i' p' where "i \<le> i' \<and> int i' \<le> max (int i) n" "pipe_ok p'" "contents p' = contents (pipes k a) @ map addr [i..<i']"
      "readopen p' = readopen (pipes k a)" "writeopen p' = writeopen (pipes k a)" "pipe_full p'"
      "readopen p' = 0 \<or> p_killed (procs k ! p) \<noteq> 0"
      "pipewrite_loop a addr n i (locked_by (PipeLock a) k) = Ret (Done (-1), i', upd_pipe a (\<lambda>_. p') k)"
  | (blocked) i' p' where "i \<le> i' \<and> int i' \<le> max (int i) n \<and> p_killed (procs k ! p) = 0" "pipe_ok p'" "contents p' = contents (pipes k a) @ map addr [i..<i']"
      "readopen p' = readopen (pipes k a)" "writeopen p' = writeopen (pipes k a)" "pipe_full p'" "readopen p' \<noteq> 0"
      "pipewrite_loop a addr n i (locked_by (PipeLock a) k) =
        Ret (Blocked (PipeWriteChan a) (intena (this_cpu (mach k))), i',
             locked_by PtableLock (asleep p (PipeWriteChan a) (wakeup1 (PipeReadChan a) (upd_pipe a (\<lambda>_. p') k))))"
  using assms
proof (induction "nat (n - int i)" arbitrary: i k thesis rule: less_induct)
  case less
  note k = less.prems(4-7)
  note u = unlockedD [OF k(1)]
  have id: "upd_pipe a (\<lambda>_. pipes k a) k = k" by (simp add: upd_pipe_def)
  show ?case
  proof (cases "int i < n")
    case False
    then have "pipewrite_loop a addr n i (locked_by (PipeLock a) k) =
        Ret (Done n, i, wakeup1 (PipeReadChan a) (upd_pipe a (\<lambda>_. pipes k a) k))"
      using k(1) u by (simp add: pipewrite_loop.simps [of a addr n i] wakeup_locked id)
    then show ?thesis using less.prems(1) [of i "pipes k a"] k(4) False by simp
  next
    case lt: True
    show ?thesis
    proof (cases "pipe_full (pipes k a)")
      case True
      show ?thesis
      proof (cases "readopen (pipes k a) = 0 \<or> p_killed (procs k ! p) \<noteq> 0")
        case dead: True
        then have "pipewrite_loop a addr n i (locked_by (PipeLock a) k) = Ret (Done (-1), i, upd_pipe a (\<lambda>_. pipes k a) k)"
          using True lt k u by (simp add: pipewrite_loop.simps [of a addr n i] with_proc_def id)
        then show ?thesis using less.prems(2) [of i "pipes k a"] k(4) True dead by simp
      next
        case False
        have "sleep (PipeWriteChan a) (Some (PipeLock a)) (locked_by (PipeLock a) (wakeup1 (PipeReadChan a) k)) =
          Ret (intena (this_cpu (mach k)), locked_by PtableLock (asleep p (PipeWriteChan a) (wakeup1 (PipeReadChan a) k)))"
          using sleep_locked(1) [of "wakeup1 (PipeReadChan a) k" p "PipeLock a"] k by simp
        then have "pipewrite_loop a addr n i (locked_by (PipeLock a) k) =
          Ret (Blocked (PipeWriteChan a) (intena (this_cpu (mach k))), i,
             locked_by PtableLock (asleep p (PipeWriteChan a) (wakeup1 (PipeReadChan a) (upd_pipe a (\<lambda>_. pipes k a) k))))"
          using True lt k u False by (simp add: pipewrite_loop.simps [of a addr n i] with_proc_def id wakeup_locked)
        then show ?thesis using less.prems(3) [of i "pipes k a"] k(4) True False by simp
      qed
    next
      case False
      define k' where "k' = upd_pipe a (put_byte (addr i)) k"
      note q = put_byte_queue [OF k(4) False, of "addr i"]
      have k': "unlocked k'" "cproc k' (cpu_id (mach k')) = Some p" "p < length (procs k')" "pipe_ok (pipes k' a)"
        "pipes k' a = put_byte (addr i) (pipes k a)" "procs k' = procs k" "mach k' = mach k"
        "readopen (pipes k' a) = readopen (pipes k a)" "writeopen (pipes k' a) = writeopen (pipes k a)"
        using k q by (simp_all add: k'_def put_byte_def)
      have step: "pipewrite_loop a addr n i (locked_by (PipeLock a) k) = pipewrite_loop a addr n (Suc i) (locked_by (PipeLock a) k')"
        using lt False by (simp add: pipewrite_loop.simps [of a addr n i] k'_def)
      have up: "upd_pipe a (\<lambda>_. p') k' = upd_pipe a (\<lambda>_. p') k" for p' by (simp add: k'_def upd_pipe_def)
      have cat: "contents (pipes k' a) @ map addr [Suc i..<i'] = contents (pipes k a) @ map addr [i..<i']" if "Suc i \<le> i'" for i'
        using that q(2) by (simp add: k'(5) upt_conv_Cons)
      have dec: "nat (n - int (Suc i)) < nat (n - int i)" using lt by simp
      show ?thesis
      proof (rule less.hyps [OF dec _ _ _ k'(1-4)])
        fix i' p' assume *: "pipe_ok p'" "contents p' = contents (pipes k' a) @ map addr [Suc i..<i']"
          "readopen p' = readopen (pipes k' a)" "writeopen p' = writeopen (pipes k' a)"
        { assume "Suc i \<le> i' \<and> int i' \<le> max (int (Suc i)) n \<and> n \<le> int i'" "pipewrite_loop a addr n (Suc i) (locked_by (PipeLock a) k') =
            Ret (Done n, i', wakeup1 (PipeReadChan a) (upd_pipe a (\<lambda>_. p') k'))"
          then show ?thesis using less.prems(1) [of i' p'] * cat step up k'(8,9) lt by auto }
        { assume "Suc i \<le> i' \<and> int i' \<le> max (int (Suc i)) n" "pipe_full p'" "readopen p' = 0 \<or> p_killed (procs k' ! p) \<noteq> 0"
            "pipewrite_loop a addr n (Suc i) (locked_by (PipeLock a) k') = Ret (Done (-1), i', upd_pipe a (\<lambda>_. p') k')"
          then show ?thesis using less.prems(2) [of i' p'] * cat step up k'(6,8,9) lt by auto }
        { assume "Suc i \<le> i' \<and> int i' \<le> max (int (Suc i)) n \<and> p_killed (procs k' ! p) = 0" "pipe_full p'" "readopen p' \<noteq> 0" "pipewrite_loop a addr n (Suc i) (locked_by (PipeLock a) k') =
            Ret (Blocked (PipeWriteChan a) (intena (this_cpu (mach k'))), i',
             locked_by PtableLock (asleep p (PipeWriteChan a) (wakeup1 (PipeReadChan a) (upd_pipe a (\<lambda>_. p') k'))))"
          then show ?thesis using less.prems(3) [of i' p'] * cat step up k'(6,7,8,9) lt by auto }
      qed
    qed
  qed
qed

lemma piperead_body_cases:
  assumes "unlocked k" "cproc k (cpu_id (mach k)) = Some p" "p < length (procs k)" "pipe_ok (pipes k a)"
  obtains (copied) xs p' where "\<not> (pipe_empty (pipes k a) \<and> writeopen (pipes k a) \<noteq> 0)"
      "pipe_ok p'" "contents (pipes k a) = xs @ contents p'" "xs = take (nat n) (contents (pipes k a))"
      "readopen p' = readopen (pipes k a)" "writeopen p' = writeopen (pipes k a)"
      "piperead_body a n (locked_by (PipeLock a) k) =
        Ret (Done (int (length xs)), xs, wakeup1 (PipeWriteChan a) (upd_pipe a (\<lambda>_. p') k))"
  | (failed) "piperead_body a n (locked_by (PipeLock a) k) = Ret (Done (-1), [], k)"
      "pipe_empty (pipes k a)" "writeopen (pipes k a) \<noteq> 0" "p_killed (procs k ! p) \<noteq> 0"
  | (blocked) "pipe_empty (pipes k a)" "writeopen (pipes k a) \<noteq> 0"
      "piperead_body a n (locked_by (PipeLock a) k) =
        Ret (Blocked (PipeReadChan a) (intena (this_cpu (mach k))), [],
             locked_by PtableLock (asleep p (PipeReadChan a) k))"
proof -
  note u = unlockedD [OF assms(1)]
  show ?thesis
  proof (cases "pipe_empty (pipes k a) \<and> writeopen (pipes k a) \<noteq> 0")
    case True
    then show ?thesis
      using failed blocked assms u sleep_locked(1) [OF assms(1-3), of "PipeLock a"]
      by (cases "p_killed (procs k ! p) = 0") (simp_all add: piperead_body_def with_proc_def)
  next
    case False
    obtain xs p' where c: "piperead_copy (nat n) (pipes k a) = (xs, p')" by fastforce
    have "piperead_body a n (locked_by (PipeLock a) k) =
        Ret (Done (int (length xs)), xs, wakeup1 (PipeWriteChan a) (upd_pipe a (\<lambda>_. p') k))"
      using False c u assms(1) by (auto simp: piperead_body_def wakeup_locked)
    moreover have "pipe_ok p'" "contents (pipes k a) = xs @ contents p'" "xs = take (nat n) (contents (pipes k a))"
      "readopen p' = readopen (pipes k a)" "writeopen p' = writeopen (pipes k a)"
      using piperead_copy_queue [OF assms(4) c] by blast+
    ultimately show ?thesis using copied False by blast
  qed
qed

lemma pipe_returns:
  assumes "unlocked k" "cproc k (cpu_id (mach k)) = Some p" "p < length (procs k)" "pipe_ok (pipes k a)"
  shows "\<exists>res. pipewrite_loop a addr n i (locked_by (PipeLock a) k) = Ret res"
    and "\<exists>res. piperead_body a n (locked_by (PipeLock a) k) = Ret res"
proof -
  from assms show "\<exists>res. pipewrite_loop a addr n i (locked_by (PipeLock a) k) = Ret res"
    by (cases rule: pipewrite_loop_cases [where addr = addr and n = n and i = i]) blast+
  from assms show "\<exists>res. piperead_body a n (locked_by (PipeLock a) k) = Ret res"
    by (cases rule: piperead_body_cases [where n = n]) blast+
qed

section \<open>Processes sharing a pipe\<close>

text \<open>
  One CPU runs processes that use the pipe at \<open>a\<close>. It is either in a process, between system calls, or
  in the scheduler; a process that gave up the CPU has what it keeps on its kernel
  stack in \<open>conts\<close>. \<open>sent\<close> and \<open>received\<close> are the bytes written to and read from the pipe so far, and \<open>gave_up\<close> tells
  whether a write has failed.
\<close>

datatype cont = WriteCont "nat \<Rightarrow> u8" int nat u32 | ReadCont int u32 | YieldCont u32

datatype mode = User nat | Scheduler

record pipe_sys =
  kst :: pipe_state
  mode :: mode
  conts :: "nat \<Rightarrow> cont option"
  sent :: "u8 list"
  received :: "u8 list"
  gave_up :: bool

definition after_write :: "nat \<Rightarrow> (nat \<Rightarrow> u8) \<Rightarrow> int \<Rightarrow> nat \<Rightarrow> int blocking \<times> nat \<times> pipe_state \<Rightarrow> pipe_sys \<Rightarrow> pipe_sys" where
  "after_write p addr n i0 = (\<lambda>(r, i, k) x.
     let x = x\<lparr>kst := k, sent := sent x @ map addr [i0..<i]\<rparr> in
     case r of Done r \<Rightarrow> x\<lparr>mode := User p, conts := (conts x)(p := None), gave_up := gave_up x \<or> r < 0\<rparr>
     | Blocked ch e \<Rightarrow> x\<lparr>mode := Scheduler, conts := (conts x)(p := Some (WriteCont addr n i e))\<rparr>)"

definition after_read :: "nat \<Rightarrow> int \<Rightarrow> int blocking \<times> u8 list \<times> pipe_state \<Rightarrow> pipe_sys \<Rightarrow> pipe_sys" where
  "after_read p n = (\<lambda>(r, xs, k) x.
     let x = x\<lparr>kst := k, received := received x @ xs\<rparr> in
     case r of Done r \<Rightarrow> x\<lparr>mode := User p, conts := (conts x)(p := None)\<rparr>
     | Blocked ch e \<Rightarrow> x\<lparr>mode := Scheduler, conts := (conts x)(p := Some (ReadCont n e))\<rparr>)"

text \<open>
  The steps. An end of the pipe is used only while it is open, and it is closed while no process is
  inside an operation on it (the file table counts references); the pipe itself goes away with the
  second end, which ends the system.
\<close>

inductive pipe_step :: "u32 \<Rightarrow> nat \<Rightarrow> pipe_sys \<Rightarrow> pipe_sys \<Rightarrow> bool" for a c where
  step_write: "mode x = User p \<Longrightarrow> writeopen (pipes (kst x) a) \<noteq> 0 \<Longrightarrow> pipewrite a addr n (kst x) = Ret res \<Longrightarrow>
    pipe_step a c x (after_write p addr n 0 res x)"
| step_read: "mode x = User p \<Longrightarrow> readopen (pipes (kst x) a) \<noteq> 0 \<Longrightarrow> piperead a n (kst x) = Ret res \<Longrightarrow>
    pipe_step a c x (after_read p n res x)"
| step_close_write: "mode x = User p \<Longrightarrow> writeopen (pipes (kst x) a) \<noteq> 0 \<Longrightarrow> readopen (pipes (kst x) a) \<noteq> 0 \<Longrightarrow>
    (\<forall>q addr n i e. conts x q \<noteq> Some (WriteCont addr n i e)) \<Longrightarrow> pipeclose a True (kst x) = Ret k \<Longrightarrow>
    pipe_step a c x (x\<lparr>kst := k\<rparr>)"
| step_close_read: "mode x = User p \<Longrightarrow> writeopen (pipes (kst x) a) \<noteq> 0 \<Longrightarrow> readopen (pipes (kst x) a) \<noteq> 0 \<Longrightarrow>
    (\<forall>q n e. conts x q \<noteq> Some (ReadCont n e)) \<Longrightarrow> pipeclose a False (kst x) = Ret k \<Longrightarrow>
    pipe_step a c x (x\<lparr>kst := k\<rparr>)"
| step_yield: "mode x = User p \<Longrightarrow> yield (kst x) = Ret (e, k) \<Longrightarrow>
    pipe_step a c x (x\<lparr>kst := k, mode := Scheduler, conts := (conts x)(p := Some (YieldCont e))\<rparr>)"
| step_kill: "mode x = User p \<Longrightarrow> kill pid (kst x) = Ret (r, k) \<Longrightarrow> pipe_step a c x (x\<lparr>kst := k\<rparr>)"
| step_resume_write: "mode x = Scheduler \<Longrightarrow> conts x p = Some (WriteCont addr n i e) \<Longrightarrow>
    p_state (procs (kst x) ! p) = RUNNABLE \<Longrightarrow> scheduler_switch c p (scheduler_back c (kst x)) = Ret k \<Longrightarrow>
    pipewrite_return a addr n i p e k = Ret res \<Longrightarrow> pipe_step a c x (after_write p addr n i res x)"
| step_resume_read: "mode x = Scheduler \<Longrightarrow> conts x p = Some (ReadCont n e) \<Longrightarrow>
    p_state (procs (kst x) ! p) = RUNNABLE \<Longrightarrow> scheduler_switch c p (scheduler_back c (kst x)) = Ret k \<Longrightarrow>
    piperead_return a n p e k = Ret res \<Longrightarrow> pipe_step a c x (after_read p n res x)"
| step_resume_yield: "mode x = Scheduler \<Longrightarrow> conts x p = Some (YieldCont e) \<Longrightarrow>
    p_state (procs (kst x) ! p) = RUNNABLE \<Longrightarrow> scheduler_switch c p (scheduler_back c (kst x)) = Ret k \<Longrightarrow>
    yield_return e k = Ret k' \<Longrightarrow> pipe_step a c x (x\<lparr>kst := k', mode := User p, conts := (conts x)(p := None)\<rparr>)"

section \<open>The invariant\<close>

definition no_sleeper :: "chan \<Rightarrow> proc list \<Rightarrow> bool" where
  "no_sleeper ch ps \<longleftrightarrow> (\<forall>q \<in> set ps. p_state q = SLEEPING \<longrightarrow> p_chan q \<noteq> Some ch)"

lemma no_sleeper_wakeup1 [simp]: "no_sleeper ch (procs (wakeup1 ch k))"
  by (auto simp: no_sleeper_def wakeup1_def)

lemma no_sleeper_wakeup1_other: "no_sleeper ch (procs k) \<Longrightarrow> no_sleeper ch (procs (wakeup1 ch' k))"
  by (auto simp: no_sleeper_def wakeup1_def)

lemma no_sleeper_update:
  "no_sleeper ch ps \<Longrightarrow> (p_state q = SLEEPING \<Longrightarrow> p_chan q \<noteq> Some ch) \<Longrightarrow> no_sleeper ch (ps[p := q])"
  unfolding no_sleeper_def using set_update_subset_insert [of ps p q] by blast

definition live_ok :: "proc list \<Rightarrow> bool" where
  "live_ok ps \<longleftrightarrow> (\<forall>q \<in> set ps. p_state q \<in> {SLEEPING, RUNNABLE, RUNNING} \<longrightarrow> p_kstack q \<noteq> 0 \<and> p_pgdir q \<noteq> 0)"

lemma live_ok_wakeup1: "live_ok (procs k) \<Longrightarrow> live_ok (procs (wakeup1 ch k))"
  by (auto simp: live_ok_def wakeup1_def)

lemma live_ok_update:
  "live_ok ps \<Longrightarrow> (p_state q \<in> {SLEEPING, RUNNABLE, RUNNING} \<Longrightarrow> p_kstack q \<noteq> 0 \<and> p_pgdir q \<noteq> 0) \<Longrightarrow> live_ok (ps[p := q])"
  unfolding live_ok_def using set_update_subset_insert [of ps p q] by blast

lemma live_ok_nth:
  "live_ok ps \<Longrightarrow> p < length ps \<Longrightarrow> p_state (ps ! p) \<in> {SLEEPING, RUNNABLE, RUNNING} \<Longrightarrow>
   p_kstack (ps ! p) \<noteq> 0 \<and> p_pgdir (ps ! p) \<noteq> 0"
  unfolding live_ok_def by (meson nth_mem)

primrec cont_intena :: "cont \<Rightarrow> u32" where
  "cont_intena (WriteCont addr n i e) = e"
| "cont_intena (ReadCont n e) = e"
| "cont_intena (YieldCont e) = e"

text \<open>The part about the kernel state \<open>k\<close> seen between critical sections.\<close>

definition pipe_inv :: "u32 \<Rightarrow> nat \<Rightarrow> pipe_sys \<Rightarrow> pipe_state \<Rightarrow> bool" where
  "pipe_inv a c x k \<longleftrightarrow> unlocked k \<and> cpu_id (mach k) = c \<and> pipe_ok (pipes k a) \<and>
     live_ok (procs k) \<and> length (procs k) = NPROC \<and>
     (\<forall>p t. conts x p = Some t \<longrightarrow> p < length (procs k) \<and> cont_intena t = intena (this_cpu (mach k))) \<and>
     received x @ contents (pipes k a) = sent x \<and>
     (no_sleeper (PipeWriteChan a) (procs k) \<or> pipe_full (pipes k a) \<and> readopen (pipes k a) \<noteq> 0) \<and>
     (gave_up x \<or> no_sleeper (PipeReadChan a) (procs k) \<or> pipe_empty (pipes k a) \<and> writeopen (pipes k a) \<noteq> 0)"

definition in_mode :: "nat \<Rightarrow> pipe_sys \<Rightarrow> pipe_state \<Rightarrow> bool" where
  "in_mode c x k \<longleftrightarrow> (case mode x of
       User p \<Rightarrow> kst x = k \<and> cproc k c = Some p \<and> p < length (procs k) \<and> p_state (procs k ! p) = RUNNING
     | Scheduler \<Rightarrow> kst x = locked_by PtableLock k)"

definition pipe_sys_ok :: "u32 \<Rightarrow> nat \<Rightarrow> pipe_sys \<Rightarrow> bool" where
  "pipe_sys_ok a c x \<longleftrightarrow> (\<exists>k. pipe_inv a c x k \<and> in_mode c x k)"

lemma wakeup1_nth:
  "p < length (procs k) \<Longrightarrow> p_state (procs k ! p) = RUNNING \<Longrightarrow> procs (wakeup1 ch k) ! p = procs k ! p"
  by (simp add: wakeup1_def)

lemma full_append:
  assumes "pipe_full q" "pipe_ok q'" "contents q' = contents q @ xs"
  shows "pipe_full q'"
  using assms by (simp add: pipe_full_iff pipe_ok_def flip: length_contents)

lemma pipe_invD:
  assumes "pipe_inv a c x k"
  shows "unlocked k" "cpu_id (mach k) = c" "pipe_ok (pipes k a)" "live_ok (procs k)"
    "length (procs k) = NPROC" "conts x p = Some t \<Longrightarrow> p < length (procs k) \<and> cont_intena t = intena (this_cpu (mach k))"
    "received x @ contents (pipes k a) = sent x"
    "no_sleeper (PipeWriteChan a) (procs k) \<or> pipe_full (pipes k a) \<and> readopen (pipes k a) \<noteq> 0"
    "gave_up x \<or> no_sleeper (PipeReadChan a) (procs k) \<or> pipe_empty (pipes k a) \<and> writeopen (pipes k a) \<noteq> 0"
  using assms unfolding pipe_inv_def by blast+

lemma pipe_invI:
  assumes "unlocked k" "cpu_id (mach k) = c" "pipe_ok (pipes k a)" "live_ok (procs k)"
    "length (procs k) = NPROC" "\<And>p t. conts x p = Some t \<Longrightarrow> p < length (procs k) \<and> cont_intena t = intena (this_cpu (mach k))"
    "received x @ contents (pipes k a) = sent x"
    "no_sleeper (PipeWriteChan a) (procs k) \<or> pipe_full (pipes k a) \<and> readopen (pipes k a) \<noteq> 0"
    "gave_up x \<or> no_sleeper (PipeReadChan a) (procs k) \<or> pipe_empty (pipes k a) \<and> writeopen (pipes k a) \<noteq> 0"
  shows "pipe_inv a c x k"
  using assms unfolding pipe_inv_def by blast

lemma pipe_sys_okI: "pipe_inv a c x k \<Longrightarrow> in_mode c x k \<Longrightarrow> pipe_sys_ok a c x"
  by (auto simp: pipe_sys_ok_def)

lemma asleep_live:
  "live_ok (procs k) \<Longrightarrow> p < length (procs k) \<Longrightarrow> p_state (procs k ! p) = RUNNING \<Longrightarrow> live_ok (procs (asleep p ch k))"
  unfolding asleep_def upd_simps by (rule live_ok_update) (auto dest: live_ok_nth)

lemma asleep_no_sleeper: "no_sleeper ch (procs k) \<Longrightarrow> ch' \<noteq> ch \<Longrightarrow> no_sleeper ch (procs (asleep p ch' k))"
  unfolding asleep_def upd_simps by (rule no_sleeper_update) auto

lemma asleep_simps [simp]:
  "unlocked (asleep p ch k) = unlocked k" "mach (asleep p ch k) = mach k" "length (procs (asleep p ch k)) = length (procs k)"
  by (simp_all add: asleep_def)

lemma write_keeps_inv:
  assumes "pipe_inv a c x k" "cproc k c = Some p" "p < length (procs k)" "p_state (procs k ! p) = RUNNING"
    and "pipewrite_loop a addr n i (locked_by (PipeLock a) k) = Ret res"
  shows "pipe_sys_ok a c (after_write p addr n i res x)"
proof -
  note I = pipe_invD [OF assms(1)]
  have cp: "cproc k (cpu_id (mach k)) = Some p" using assms(2) I(2) by simp
  have stream: "received x @ contents p' = sent x @ map addr [i..<i']"
    if "contents p' = contents (pipes k a) @ map addr [i..<i']" for p' i'
    using that I(7) by (metis append.assoc)
  have cont: "q < length (procs k) \<and> cont_intena t = intena (this_cpu (mach k))"
    if "((conts x)(p := v)) q = Some t" "\<And>t. v = Some t \<Longrightarrow> cont_intena t = intena (this_cpu (mach k))" for v q t
    using that I(6) [of q t] assms(3) by (auto split: if_splits)
  have W: "no_sleeper (PipeWriteChan a) (procs k) \<or> pipe_full p' \<and> readopen p' \<noteq> 0"
    if "pipe_ok p'" "contents p' = contents (pipes k a) @ xs" "readopen p' = readopen (pipes k a)" for p' xs
    using I(8) full_append [OF _ that(1,2)] that(3) by auto
  from I(1) cp assms(3) I(3) show ?thesis
  proof (cases rule: pipewrite_loop_cases [where addr = addr and n = n and i = i])
    case (written i' p')
    let ?k = "wakeup1 (PipeReadChan a) (upd_pipe a (\<lambda>_. p') k)"
    have x: "after_write p addr n i res x = x\<lparr>kst := ?k, sent := sent x @ map addr [i..<i'], mode := User p,
        conts := (conts x)(p := None), gave_up := gave_up x \<or> n < 0\<rparr>"
      using written(6) assms(5) by (simp add: after_write_def)
    show ?thesis
    proof (rule pipe_sys_okI)
      show "pipe_inv a c (after_write p addr n i res x) ?k"
        unfolding x
      proof (rule pipe_invI)
        fix q t assume "conts (x\<lparr>kst := ?k, sent := sent x @ map addr [i..<i'], mode := User p,
          conts := (conts x)(p := None), gave_up := gave_up x \<or> n < 0\<rparr>) q = Some t"
        then show "q < length (procs ?k) \<and> cont_intena t = intena (this_cpu (mach ?k))"
          using cont [of None q t] by simp
      qed (use I written stream [OF written(3)] W [OF written(2,3,4)] in \<open>auto simp: live_ok_wakeup1 no_sleeper_wakeup1_other\<close>)
      show "in_mode c (after_write p addr n i res x) ?k"
        unfolding x in_mode_def using assms(2-4) by (simp add: wakeup1_nth)
    qed
  next
    case (failed i' p')
    let ?k = "upd_pipe a (\<lambda>_. p') k"
    have x: "after_write p addr n i res x = x\<lparr>kst := ?k, sent := sent x @ map addr [i..<i'], mode := User p,
        conts := (conts x)(p := None), gave_up := True\<rparr>"
      using failed(8) assms(5) by (simp add: after_write_def)
    show ?thesis
    proof (rule pipe_sys_okI)
      show "pipe_inv a c (after_write p addr n i res x) ?k"
        unfolding x
      proof (rule pipe_invI)
        fix q t assume "conts (x\<lparr>kst := ?k, sent := sent x @ map addr [i..<i'], mode := User p,
          conts := (conts x)(p := None), gave_up := True\<rparr>) q = Some t"
        then show "q < length (procs ?k) \<and> cont_intena t = intena (this_cpu (mach ?k))"
          using cont [of None q t] by simp
      qed (use I failed stream [OF failed(3)] W [OF failed(2,3,4)] in auto)
      show "in_mode c (after_write p addr n i res x) ?k"
        unfolding x in_mode_def using assms(2-4) by simp
    qed
  next
    case (blocked i' p')
    let ?k = "asleep p (PipeWriteChan a) (wakeup1 (PipeReadChan a) (upd_pipe a (\<lambda>_. p') k))"
    have x: "after_write p addr n i res x = x\<lparr>kst := locked_by PtableLock ?k, sent := sent x @ map addr [i..<i'], mode := Scheduler,
        conts := (conts x)(p := Some (WriteCont addr n i' (intena (this_cpu (mach k)))))\<rparr>"
      using blocked(8) assms(5) by (simp add: after_write_def)
    show ?thesis
    proof (rule pipe_sys_okI)
      show "pipe_inv a c (after_write p addr n i res x) ?k"
        unfolding x
      proof (rule pipe_invI)
        fix q t assume "conts (x\<lparr>kst := locked_by PtableLock ?k, sent := sent x @ map addr [i..<i'], mode := Scheduler,
          conts := (conts x)(p := Some (WriteCont addr n i' (intena (this_cpu (mach k)))))\<rparr>) q = Some t"
        then show "q < length (procs ?k) \<and> cont_intena t = intena (this_cpu (mach ?k))"
          using cont [of "Some (WriteCont addr n i' (intena (this_cpu (mach k))))" q t] by simp
      next
        show "live_ok (procs ?k)"
          using I(4) assms(3,4) by (intro asleep_live) (simp_all add: live_ok_wakeup1 wakeup1_nth)
      qed (use I blocked stream [OF blocked(3)] in \<open>auto intro: asleep_no_sleeper\<close>)
      show "in_mode c (after_write p addr n i res x) ?k"
        unfolding x in_mode_def by simp
    qed
  qed
qed

lemma read_keeps_inv:
  assumes "pipe_inv a c x k" "cproc k c = Some p" "p < length (procs k)" "p_state (procs k ! p) = RUNNING"
    and "piperead_body a n (locked_by (PipeLock a) k) = Ret res"
  shows "pipe_sys_ok a c (after_read p n res x)"
proof -
  note I = pipe_invD [OF assms(1)]
  have cp: "cproc k (cpu_id (mach k)) = Some p" using assms(2) I(2) by simp
  have cont: "q < length (procs k) \<and> cont_intena t = intena (this_cpu (mach k))"
    if "((conts x)(p := v)) q = Some t" "\<And>t. v = Some t \<Longrightarrow> cont_intena t = intena (this_cpu (mach k))" for v q t
    using that I(6) [of q t] assms(3) by (auto split: if_splits)
  from I(1) cp assms(3) I(3) show ?thesis
  proof (cases rule: piperead_body_cases [where n = n])
    case (copied xs p')
    let ?k = "wakeup1 (PipeWriteChan a) (upd_pipe a (\<lambda>_. p') k)"
    have x: "after_read p n res x = x\<lparr>kst := ?k, received := received x @ xs, mode := User p, conts := (conts x)(p := None)\<rparr>"
      using copied(7) assms(5) by (simp add: after_read_def)
    show ?thesis
    proof (rule pipe_sys_okI)
      show "pipe_inv a c (after_read p n res x) ?k"
        unfolding x
      proof (rule pipe_invI)
        fix q t assume "conts (x\<lparr>kst := ?k, received := received x @ xs, mode := User p, conts := (conts x)(p := None)\<rparr>) q = Some t"
        then show "q < length (procs ?k) \<and> cont_intena t = intena (this_cpu (mach ?k))"
          using cont [of None q t] by simp
      next
        show "received (x\<lparr>kst := ?k, received := received x @ xs, mode := User p, conts := (conts x)(p := None)\<rparr>) @ contents (pipes ?k a) =
          sent (x\<lparr>kst := ?k, received := received x @ xs, mode := User p, conts := (conts x)(p := None)\<rparr>)"
          using I(7) copied(3) by simp
      qed (use I(1-5,8,9) copied(1,2,5,6) in \<open>auto simp: live_ok_wakeup1 no_sleeper_wakeup1_other\<close>)
      show "in_mode c (after_read p n res x) ?k"
        unfolding x in_mode_def using assms(2-4) by (simp add: wakeup1_nth)
    qed
  next
    case failed
    have x: "after_read p n res x = x\<lparr>kst := k, mode := User p, conts := (conts x)(p := None)\<rparr>"
      using failed(1) assms(5) by (simp add: after_read_def)
    show ?thesis
    proof (rule pipe_sys_okI)
      show "pipe_inv a c (after_read p n res x) k"
        unfolding x
      proof (rule pipe_invI)
        fix q t assume "conts (x\<lparr>kst := k, mode := User p, conts := (conts x)(p := None)\<rparr>) q = Some t"
        then show "q < length (procs k) \<and> cont_intena t = intena (this_cpu (mach k))" using cont [of None q t] by simp
      qed (use I in auto)
      show "in_mode c (after_read p n res x) k" unfolding x in_mode_def using assms(2-4) by simp
    qed
  next
    case blocked
    let ?k = "asleep p (PipeReadChan a) k"
    let ?x = "x\<lparr>kst := locked_by PtableLock ?k, mode := Scheduler, conts := (conts x)(p := Some (ReadCont n (intena (this_cpu (mach k)))))\<rparr>"
    have x: "after_read p n res x = ?x"
      using blocked(3) assms(5) by (simp add: after_read_def)
    show ?thesis
    proof (rule pipe_sys_okI)
      show "pipe_inv a c (after_read p n res x) ?k"
        unfolding x
      proof (rule pipe_invI)
        fix q t assume "conts ?x q = Some t"
        then show "q < length (procs ?k) \<and> cont_intena t = intena (this_cpu (mach ?k))"
          using cont [of "Some (ReadCont n (intena (this_cpu (mach k))))" q t] by simp
      next
        show "live_ok (procs ?k)" using I(4) assms(3,4) by (intro asleep_live)
      qed (use I blocked in \<open>auto intro: asleep_no_sleeper\<close>)
      show "in_mode c (after_read p n res x) ?k"
        unfolding x in_mode_def by simp
    qed
  qed
qed

text \<open>Dispatching a process and letting it leave \<open>sleep\<close> keeps the invariant.\<close>

lemma dispatch_keeps_inv:
  assumes "pipe_inv a c x k" "p < length (procs k)" "p_state (procs k ! p) = RUNNABLE"
  shows "pipe_inv a c x (dispatched c p k)"
    and "pipe_inv a c x (upd_proc p (p_chan_update (\<lambda>_. None)) (dispatched c p k))"
proof -
  note I = pipe_invD [OF assms(1)]
  have live: "live_ok ((procs k)[p := (procs k ! p)\<lparr>p_state := RUNNING\<rparr>])"
    "live_ok ((procs k)[p := (procs k ! p)\<lparr>p_state := RUNNING, p_chan := None\<rparr>])"
    using live_ok_nth [OF I(4) assms(2)] assms(3) by (simp_all add: I(4) live_ok_update)
  have ns: "no_sleeper ch (procs k) \<Longrightarrow> no_sleeper ch ((procs k)[p := (procs k ! p)\<lparr>p_state := RUNNING\<rparr>])"
    "no_sleeper ch (procs k) \<Longrightarrow> no_sleeper ch ((procs k)[p := (procs k ! p)\<lparr>p_state := RUNNING, p_chan := None\<rparr>])" for ch
    by (erule no_sleeper_update, simp)+
  note u = unlockedD(1) [OF I(1)]
  show "pipe_inv a c x (dispatched c p k)"
    by (rule pipe_invI) (use I live(1) ns(1) u in auto)
  show "pipe_inv a c x (upd_proc p (p_chan_update (\<lambda>_. None)) (dispatched c p k))"
    by (rule pipe_invI) (use I live(2) ns(2) u assms(2) in auto)
qed

lemma kill_unlocked:
  assumes "unlocked k" "length (procs k) = NPROC"
  obtains r k' where "kill pid k = Ret (r, k')" "k' = k"
  | r k' q where "kill pid k = Ret (r, k')" "q < length (procs k)"
      "k' = upd_proc q (\<lambda>p. p\<lparr>p_killed := 1, p_state := (if p_state p = SLEEPING then RUNNABLE else p_state p)\<rparr>) k"
proof -
  note u = unlockedD [OF assms(1)]
  show ?thesis
  proof (cases "find (\<lambda>p. p_pid (procs k ! p) = pid) [0..<NPROC]")
    case None
    then show ?thesis using that(1) u by (simp add: kill_def acquirek_calm)
  next
    case (Some q)
    then have q: "q < length (procs k)" using assms(2) by (auto simp: find_Some_iff)
    let ?f = "\<lambda>p. p\<lparr>p_killed := 1, p_state := (if p_state p = SLEEPING then RUNNABLE else p_state p)\<rparr>"
    have "(if p_state (procs k ! q) = SLEEPING
        then upd_proc q (p_state_update (\<lambda>_. RUNNABLE)) (upd_proc q (p_killed_update (\<lambda>_. 1)) k)
        else upd_proc q (p_killed_update (\<lambda>_. 1)) k) = upd_proc q ?f k"
      using q by (simp add: upd_proc_def)
    then have "kill pid k = Ret (0, upd_proc q ?f k)"
      using Some u q by (simp add: kill_def acquirek_calm Let_def split: if_splits)
    then show ?thesis using that(2) q by blast
  qed
qed

lemma pipeclose_unlocked:
  assumes "unlocked k" "readopen (pipes k a) \<noteq> 0" "writeopen (pipes k a) \<noteq> 0"
  shows "pipeclose a True k = Ret (wakeup1 (PipeReadChan a) (upd_pipe a (writeopen_update (\<lambda>_. 0)) k))"
    and "pipeclose a False k = Ret (wakeup1 (PipeWriteChan a) (upd_pipe a (readopen_update (\<lambda>_. 0)) k))"
  using assms unlockedD [OF assms(1)]
  by (simp_all add: pipeclose_def acquirek_calm wakeup_locked)

lemma pipe_sys_okE:
  assumes "pipe_sys_ok a c x"
  obtains p k where "mode x = User p" "pipe_inv a c x k" "kst x = k" "cproc k c = Some p" "p < length (procs k)"
      "p_state (procs k ! p) = RUNNING"
  | k where "mode x = Scheduler" "pipe_inv a c x k" "kst x = locked_by PtableLock k"
  using assms by (cases "mode x") (auto simp: pipe_sys_ok_def in_mode_def)

lemma user_mode:
  assumes "pipe_sys_ok a c x" "mode x = User p"
  shows "pipe_inv a c x (kst x)" "cproc (kst x) c = Some p" "p < length (procs (kst x))"
    "p_state (procs (kst x) ! p) = RUNNING" "unlocked (kst x)" "cproc (kst x) (cpu_id (mach (kst x))) = Some p"
  using assms by (auto elim!: pipe_sys_okE simp: pipe_inv_def)

text \<open>What resuming a process looks like.\<close>

lemma resume_mode:
  assumes "pipe_sys_ok a c x" "mode x = Scheduler" "conts x p = Some t" "p_state (procs (kst x) ! p) = RUNNABLE"
  obtains k where "pipe_inv a c x k" "pipe_inv a c x (dispatched c p k)"
    "pipe_inv a c x (upd_proc p (p_chan_update (\<lambda>_. None)) (dispatched c p k))" "p < length (procs k)"
    "scheduler_switch c p (scheduler_back c (kst x)) = Ret (locked_by PtableLock (dispatched c p k))"
    "cont_intena t = intena (this_cpu (mach (dispatched c p k)))" "unlocked (dispatched c p k)"
  using assms(1)
proof (cases rule: pipe_sys_okE)
  case (2 k)
  note I = pipe_invD [OF 2(2)]
  have p: "p < length (procs k)" "cont_intena t = intena (this_cpu (mach k))" using I(6) assms(3) by auto
  have r: "p_state (procs k ! p) = RUNNABLE" using assms(4) 2 by simp
  have "scheduler_switch c p (scheduler_back c (kst x)) = Ret (locked_by PtableLock (dispatched c p k))"
    unfolding 2(3) using live_ok_nth [OF I(4) p(1)] r I(1) by (intro dispatch_locked) auto
  then show ?thesis
    using that [OF 2(2) dispatch_keeps_inv [OF 2(2) p(1) r] p(1)] p(2) I(1) unlockedD(1) [OF I(1)] by simp
qed (use assms(2) in simp)

lemma pipe_step_keeps_inv:
  assumes "pipe_step a c x y" "pipe_sys_ok a c x"
  shows "pipe_sys_ok a c y"
  using assms
proof (induction rule: pipe_step.induct)
  case (step_write x p addr n res)
  note m = user_mode [OF step_write(4,1)]
  have "pipewrite_loop a addr n 0 (locked_by (PipeLock a) (kst x)) = Ret res"
    using step_write(3) unlockedD [OF m(5)] by (simp add: pipewrite_def acquirek_calm)
  then show ?case by (rule write_keeps_inv [OF m(1-4)])
next
  case (step_read x p n res)
  note m = user_mode [OF step_read(4,1)]
  have "piperead_body a n (locked_by (PipeLock a) (kst x)) = Ret res"
    using step_read(3) unlockedD [OF m(5)] by (simp add: piperead_def acquirek_calm)
  then show ?case by (rule read_keeps_inv [OF m(1-4)])
next
  case (step_close_write x p k)
  note m = user_mode [OF step_close_write(6,1)]
  note I = pipe_invD [OF m(1)]
  have k: "k = wakeup1 (PipeReadChan a) (upd_pipe a (writeopen_update (\<lambda>_. 0)) (kst x))"
    using pipeclose_unlocked(1) [OF m(5) step_close_write(3,2)] step_close_write(5) by simp
  show ?case
  proof (rule pipe_sys_okI)
    show "pipe_inv a c (x\<lparr>kst := k\<rparr>) k"
      by (rule pipe_invI)
        (use I in \<open>auto simp: k live_ok_wakeup1 no_sleeper_wakeup1_other pipe_ok_def contents_def pipe_full_def\<close>)
    show "in_mode c (x\<lparr>kst := k\<rparr>) k" using m step_close_write(1) by (simp add: in_mode_def k wakeup1_nth)
  qed
next
  case (step_close_read x p k)
  note m = user_mode [OF step_close_read(6,1)]
  note I = pipe_invD [OF m(1)]
  have k: "k = wakeup1 (PipeWriteChan a) (upd_pipe a (readopen_update (\<lambda>_. 0)) (kst x))"
    using pipeclose_unlocked(2) [OF m(5) step_close_read(3,2)] step_close_read(5) by simp
  show ?case
  proof (rule pipe_sys_okI)
    show "pipe_inv a c (x\<lparr>kst := k\<rparr>) k"
      by (rule pipe_invI)
        (use I in \<open>auto simp: k live_ok_wakeup1 no_sleeper_wakeup1_other pipe_ok_def contents_def pipe_empty_def\<close>)
    show "in_mode c (x\<lparr>kst := k\<rparr>) k" using m step_close_read(1) by (simp add: in_mode_def k wakeup1_nth)
  qed
next
  case (step_yield x p e k)
  note m = user_mode [OF step_yield(3,1)]
  note I = pipe_invD [OF m(1)]
  let ?k = "upd_proc p (p_state_update (\<lambda>_. RUNNABLE)) (kst x)"
  let ?x = "x\<lparr>kst := k, mode := Scheduler, conts := (conts x)(p := Some (YieldCont e))\<rparr>"
  have k: "k = locked_by PtableLock ?k" "e = intena (this_cpu (mach (kst x)))"
    using yield_unlocked [OF m(5,6,3)] step_yield(2) by simp_all
  have "live_ok ((procs (kst x))[p := (procs (kst x) ! p)\<lparr>p_state := RUNNABLE\<rparr>])"
    using live_ok_nth [OF I(4) m(3)] m(4) I(4) by (simp add: live_ok_update)
  moreover have "no_sleeper ch (procs (kst x)) \<Longrightarrow> no_sleeper ch ((procs (kst x))[p := (procs (kst x) ! p)\<lparr>p_state := RUNNABLE\<rparr>])" for ch
    by (erule no_sleeper_update) simp
  ultimately have "pipe_inv a c ?x ?k"
    by (intro pipe_invI) (use I m(3) k(2) in \<open>auto split: if_splits\<close>)
  then show ?case by (rule pipe_sys_okI) (simp add: in_mode_def k)
next
  case (step_kill x p pid r k)
  note m = user_mode [OF step_kill(3,1)]
  note I = pipe_invD [OF m(1)]
  let ?f = "\<lambda>p. p\<lparr>p_killed := 1, p_state := (if p_state p = SLEEPING then RUNNABLE else p_state p)\<rparr>"
  from m(5) I(5) show ?case
  proof (cases rule: kill_unlocked [where pid = pid])
    case (1 r' k')
    then have "k = kst x" using step_kill(2) by simp
    then show ?thesis using step_kill(3) by simp
  next
    case (2 r' k' q)
    then have k: "k = upd_proc q ?f (kst x)" using step_kill(2) by simp
    have "live_ok ((procs (kst x))[q := ?f (procs (kst x) ! q)])"
      using live_ok_nth [OF I(4) 2(2)] I(4) by (intro live_ok_update) (auto split: if_splits)
    moreover have "no_sleeper ch (procs (kst x)) \<Longrightarrow> no_sleeper ch ((procs (kst x))[q := ?f (procs (kst x) ! q)])" for ch
      by (erule no_sleeper_update) (simp split: if_splits)
    ultimately have "pipe_inv a c (x\<lparr>kst := k\<rparr>) k"
      by (intro pipe_invI) (use I in \<open>auto simp: k\<close>)
    moreover have "in_mode c (x\<lparr>kst := k\<rparr>) k"
      using m step_kill(1) 2(2) by (auto simp: in_mode_def k nth_list_update)
    ultimately show ?thesis by (rule pipe_sys_okI)
  qed
next
  case (step_resume_write x p addr n i e k res)
  obtain k0 where k0: "pipe_inv a c x (upd_proc p (p_chan_update (\<lambda>_. None)) (dispatched c p k0))" "p < length (procs k0)"
    "scheduler_switch c p (scheduler_back c (kst x)) = Ret (locked_by PtableLock (dispatched c p k0))"
    "cont_intena (WriteCont addr n i e) = intena (this_cpu (mach (dispatched c p k0)))" "unlocked (dispatched c p k0)"
    using resume_mode [OF step_resume_write(6,1,2,3)] by metis
  let ?k = "upd_proc p (p_chan_update (\<lambda>_. None)) (dispatched c p k0)"
  have k: "k = locked_by PtableLock (dispatched c p k0)" using step_resume_write(4) k0(3) by simp
  have e: "e = intena (this_cpu (mach (dispatched c p k0)))" using k0(4) by simp
  have "pipewrite_loop a addr n i (locked_by (PipeLock a) ?k) = Ret res"
    using step_resume_write(5) sleep_return_locked [OF k0(5), of "PipeLock a" p]
    by (simp add: pipewrite_return_def k flip: e)
  then show ?case by (rule write_keeps_inv [OF k0(1), rotated 3]) (use k0(2) in simp_all)
next
  case (step_resume_read x p n e k res)
  obtain k0 where k0: "pipe_inv a c x (upd_proc p (p_chan_update (\<lambda>_. None)) (dispatched c p k0))" "p < length (procs k0)"
    "scheduler_switch c p (scheduler_back c (kst x)) = Ret (locked_by PtableLock (dispatched c p k0))"
    "cont_intena (ReadCont n e) = intena (this_cpu (mach (dispatched c p k0)))" "unlocked (dispatched c p k0)"
    using resume_mode [OF step_resume_read(6,1,2,3)] by metis
  let ?k = "upd_proc p (p_chan_update (\<lambda>_. None)) (dispatched c p k0)"
  have k: "k = locked_by PtableLock (dispatched c p k0)" using step_resume_read(4) k0(3) by simp
  have e: "e = intena (this_cpu (mach (dispatched c p k0)))" using k0(4) by simp
  have "piperead_body a n (locked_by (PipeLock a) ?k) = Ret res"
    using step_resume_read(5) sleep_return_locked [OF k0(5), of "PipeLock a" p]
    by (simp add: piperead_return_def k flip: e)
  then show ?case by (rule read_keeps_inv [OF k0(1), rotated 3]) (use k0(2) in simp_all)
next
  case (step_resume_yield x p e k k')
  obtain k0 where k0: "pipe_inv a c x (dispatched c p k0)" "p < length (procs k0)"
    "scheduler_switch c p (scheduler_back c (kst x)) = Ret (locked_by PtableLock (dispatched c p k0))"
    "cont_intena (YieldCont e) = intena (this_cpu (mach (dispatched c p k0)))" "unlocked (dispatched c p k0)"
    using resume_mode [OF step_resume_yield(6,1,2,3)] by metis
  note I = pipe_invD [OF k0(1)]
  have k: "k = locked_by PtableLock (dispatched c p k0)" using step_resume_yield(4) k0(3) by simp
  have e: "e = intena (this_cpu (mach (dispatched c p k0)))" using k0(4) by simp
  have k': "k' = dispatched c p k0"
    using step_resume_yield(5) yield_return_locked [OF k0(5)] by (simp add: k flip: e)
  show ?case
  proof (rule pipe_sys_okI)
    show "pipe_inv a c (x\<lparr>kst := k', mode := User p, conts := (conts x)(p := None)\<rparr>) (dispatched c p k0)"
      by (rule pipe_invI) (use I in \<open>auto split: if_splits\<close>)
    show "in_mode c (x\<lparr>kst := k', mode := User p, conts := (conts x)(p := None)\<rparr>) (dispatched c p k0)"
      using k0(2) by (simp add: in_mode_def k')
  qed
qed

section \<open>Properties\<close>

text \<open>
  The start: a process runs, the others are runnable or sleep on something else, the pipe is empty and both ends are open.
\<close>

definition pipe_start :: "u32 \<Rightarrow> nat \<Rightarrow> pipe_sys \<Rightarrow> bool" where
  "pipe_start a c x \<longleftrightarrow> (\<exists>p. mode x = User p \<and> cproc (kst x) c = Some p \<and> p < length (procs (kst x)) \<and>
       p_state (procs (kst x) ! p) = RUNNING) \<and>
     unlocked (kst x) \<and> cpu_id (mach (kst x)) = c \<and> live_ok (procs (kst x)) \<and> length (procs (kst x)) = NPROC \<and>
     (\<forall>p t. conts x p = Some t \<longrightarrow> p < length (procs (kst x)) \<and> t = YieldCont (intena (this_cpu (mach (kst x))))) \<and>
     length (pdata (pipes (kst x) a)) = PIPESIZE \<and> nread (pipes (kst x) a) = nwrite (pipes (kst x) a) \<and>
     no_sleeper (PipeReadChan a) (procs (kst x)) \<and> no_sleeper (PipeWriteChan a) (procs (kst x)) \<and>
     sent x = [] \<and> received x = [] \<and> \<not> gave_up x"

lemma pipe_start_ok:
  assumes "pipe_start a c x"
  shows "pipe_sys_ok a c x"
proof (rule pipe_sys_okI)
  note s = assms [unfolded pipe_start_def]
  have "contents (pipes (kst x) a) = []" using s by (simp add: contents_def)
  moreover have "p < length (procs (kst x)) \<and> cont_intena t = intena (this_cpu (mach (kst x)))"
    if "conts x p = Some t" for p t
  proof -
    have "p < length (procs (kst x))" "t = YieldCont (intena (this_cpu (mach (kst x))))" using s that by blast+
    then show ?thesis by simp
  qed
  ultimately show "pipe_inv a c x (kst x)" by (intro pipe_invI) (use s in \<open>auto simp: pipe_ok_def\<close>)
  show "in_mode c x (kst x)" using s by (auto simp: in_mode_def)
qed

lemma reachable_ok: "(pipe_step a c)\<^sup>*\<^sup>* x y \<Longrightarrow> pipe_start a c x \<Longrightarrow> pipe_sys_ok a c y"
  by (induction rule: rtranclp_induct) (auto intro: pipe_start_ok pipe_step_keeps_inv)

lemma pipe_sys_ok_view:
  assumes "pipe_sys_ok a c x"
  obtains k where "pipe_inv a c x k" "pipes (kst x) = pipes k" "procs (kst x) = procs k"
  using assms by (cases rule: pipe_sys_okE) auto

text \<open>
  Claim C7. A pipe is one stream of bytes: however the processes that write, read, block, are woken up, killed and
  rescheduled interleave, the bytes received so far followed by the bytes in the ring buffer are the bytes sent so far,
  in order. The buffer never holds more than 512 bytes; the counters may wrap around.
\<close>

theorem pipe_stream:
  assumes "(pipe_step a c)\<^sup>*\<^sup>* x y" "pipe_start a c x"
  shows "received y @ contents (pipes (kst y) a) = sent y \<and> length (contents (pipes (kst y) a)) \<le> PIPESIZE"
proof (rule pipe_sys_ok_view [OF reachable_ok [OF assms]])
  fix k assume k: "pipe_inv a c y k" "pipes (kst y) = pipes k"
  then show ?thesis using pipe_invD(3,7) [OF k(1)] by (simp add: pipe_ok_def)
qed

text \<open>
  Claim C25. No wakeup is lost: whenever a process sleeps because the pipe was full, it is still full and its
  read end is open; and as long as no write has failed, whenever a process sleeps because the pipe was empty, it is still empty and its
  write end is open.
\<close>

theorem pipe_no_lost_wakeup:
  assumes "(pipe_step a c)\<^sup>*\<^sup>* x y" "pipe_start a c x" "q \<in> set (procs (kst y))" "p_state q = SLEEPING"
  shows "(p_chan q = Some (PipeWriteChan a) \<longrightarrow>
       pipe_full (pipes (kst y) a) \<and> readopen (pipes (kst y) a) \<noteq> 0) \<and>
    (p_chan q = Some (PipeReadChan a) \<and> \<not> gave_up y \<longrightarrow>
       pipe_empty (pipes (kst y) a) \<and> writeopen (pipes (kst y) a) \<noteq> 0)"
proof (rule pipe_sys_ok_view [OF reachable_ok [OF assms(1,2)]])
  fix k assume k: "pipe_inv a c y k" "pipes (kst y) = pipes k" "procs (kst y) = procs k"
  then show ?thesis using pipe_invD(8,9) [OF k(1)] assms(3,4) by (auto simp: no_sleeper_def)
qed

text \<open>
  Claim C26. The operations never get stuck in the kernel: in every reachable state the running process's next write, read or
  yield returns or blocks without a panic, and in the scheduler every runnable process that gave up the CPU can
  be resumed.
\<close>

theorem pipe_never_stuck:
  assumes "(pipe_step a c)\<^sup>*\<^sup>* x y" "pipe_start a c x"
  shows "case mode y of
      User p \<Rightarrow> (\<exists>res. pipewrite a addr n (kst y) = Ret res) \<and> (\<exists>res. piperead a n (kst y) = Ret res) \<and> (\<exists>res. yield (kst y) = Ret res)
    | Scheduler \<Rightarrow> \<forall>p. conts y p \<noteq> None \<and> p_state (procs (kst y) ! p) = RUNNABLE \<longrightarrow> (\<exists>z. pipe_step a c y z)"
proof -
  note ok = reachable_ok [OF assms]
  show ?thesis
  proof (cases "mode y")
    case (User p)
    note m = user_mode [OF ok User]
    note u = unlockedD [OF m(5)]
    have "\<exists>res. pipewrite a addr n (kst y) = Ret res"
      using pipe_returns(1) [OF m(5,6,3) pipe_invD(3) [OF m(1)]] u by (simp add: pipewrite_def acquirek_calm)
    moreover have "\<exists>res. piperead a n (kst y) = Ret res"
      using pipe_returns(2) [OF m(5,6,3) pipe_invD(3) [OF m(1)]] u by (simp add: piperead_def acquirek_calm)
    ultimately show ?thesis using User yield_unlocked [OF m(5,6,3)] by simp
  next
    case Scheduler
    have "\<exists>z. pipe_step a c y z" if p: "conts y p = Some t" "p_state (procs (kst y) ! p) = RUNNABLE" for p t
    proof (rule resume_mode [OF ok Scheduler p])
      fix k :: pipe_state let ?d = "dispatched c p k" let ?k = "upd_proc p (p_chan_update (\<lambda>_. None)) ?d"
      assume k: "pipe_inv a c y ?k" "p < length (procs k)"
        "scheduler_switch c p (scheduler_back c (kst y)) = Ret (locked_by PtableLock ?d)"
        "cont_intena t = intena (this_cpu (mach ?d))" "unlocked ?d"
      have c: "unlocked ?k" "cproc ?k (cpu_id (mach ?k)) = Some p" "p < length (procs ?k)" "pipe_ok (pipes ?k a)"
        using pipe_invD [OF k(1)] k(2) by simp_all
      have s: "sleep_return p (PipeLock a) (cont_intena t) (locked_by PtableLock ?d) = Ret (locked_by (PipeLock a) ?k)"
        unfolding k(4) using k(5) by (rule sleep_return_locked) simp
      show ?thesis
      proof (cases t)
        case (WriteCont addr n i e)
        obtain res where "pipewrite_loop a addr n i (locked_by (PipeLock a) ?k) = Ret res" using pipe_returns(1) [OF c] by blast
        then have "pipewrite_return a addr n i p e (locked_by PtableLock ?d) = Ret res"
          using s WriteCont by (simp add: pipewrite_return_def)
        then show ?thesis using step_resume_write [OF Scheduler _ p(2) k(3)] p(1) WriteCont by blast
      next
        case (ReadCont n e)
        obtain res where "piperead_body a n (locked_by (PipeLock a) ?k) = Ret res" using pipe_returns(2) [OF c] by blast
        then have "piperead_return a n p e (locked_by PtableLock ?d) = Ret res"
          using s ReadCont by (simp add: piperead_return_def)
        then show ?thesis using step_resume_read [OF Scheduler _ p(2) k(3)] p(1) ReadCont by blast
      next
        case (YieldCont e)
        then have "yield_return e (locked_by PtableLock ?d) = Ret ?d"
          using yield_return_locked [OF k(5)] k(4) by simp
        then show ?thesis using step_resume_yield [OF Scheduler _ p(2) k(3)] p(1) YieldCont by blast
      qed
    qed
    then show ?thesis using Scheduler by auto
  qed
qed

text \<open>Two processes and an empty pipe whose counters are about to wrap around, for concrete instances.\<close>

definition pipe_sys0 :: pipe_sys where
  "pipe_sys0 = \<lparr>kst = pstate.extend
       (pstate0 machine0 (proc0\<lparr>p_state := RUNNING, p_kstack := 0x80203000, p_pgdir := 0x80200000\<rparr> #
          proc0\<lparr>p_state := RUNNABLE, p_kstack := 0x80205000, p_pgdir := 0x80206000\<rparr> # replicate 62 proc0))
       (pipe_state.fields (\<lambda>_. \<lparr>pdata = replicate 512 0, nread = 0xFFFFFFFF, nwrite = 0xFFFFFFFF, readopen = 1, writeopen = 1\<rparr>)),
     mode = User 0, conts = [1 \<mapsto> YieldCont 0], sent = [], received = [], gave_up = False\<rparr>"

lemma pipe_sys0_simps:
  "procs (kst pipe_sys0) = proc0\<lparr>p_state := RUNNING, p_kstack := 0x80203000, p_pgdir := 0x80200000\<rparr> #
     proc0\<lparr>p_state := RUNNABLE, p_kstack := 0x80205000, p_pgdir := 0x80206000\<rparr> # replicate 62 proc0"
  "pipes (kst pipe_sys0) a = \<lparr>pdata = replicate 512 0, nread = 0xFFFFFFFF, nwrite = 0xFFFFFFFF, readopen = 1, writeopen = 1\<rparr>"
  "cpu_id (mach (kst pipe_sys0)) = 0" "cproc (kst pipe_sys0) 0 = Some 0" "intena (this_cpu (mach (kst pipe_sys0))) = 0"
  "unlocked (kst pipe_sys0)"
  by (simp_all add: pipe_sys0_def pstate0_def pstate.defs pipe_state.defs machine0_def unlocked_def calm_def
      lock_free_def can_push_def cpu_ok_def depth_def remember_if_def)

lemma pipe_start0: "pipe_start a 0 pipe_sys0"
proof -
  have p: "q \<in> set (procs (kst pipe_sys0)) \<Longrightarrow> p_state q \<noteq> SLEEPING" for q
    unfolding pipe_sys0_simps by (auto simp: proc0_def)
  have "live_ok (procs (kst pipe_sys0))" unfolding live_ok_def pipe_sys0_simps by (auto simp: proc0_def)
  moreover have "no_sleeper ch (procs (kst pipe_sys0))" for ch using p by (auto simp: no_sleeper_def)
  moreover have "mode pipe_sys0 = User 0" "conts pipe_sys0 = [1 \<mapsto> YieldCont 0]" "sent pipe_sys0 = []"
    "received pipe_sys0 = []" "\<not> gave_up pipe_sys0" by (simp_all add: pipe_sys0_def)
  ultimately show ?thesis by (simp add: pipe_start_def pipe_sys0_simps)
qed

lemma pipe_sys0_user: "mode pipe_sys0 = User 0" "0 < length (procs (kst pipe_sys0))"
  by (simp_all add: pipe_sys0_def pipe_sys0_simps(1) [unfolded pipe_sys0_def, simplified])

lemma example_write:
  obtains y where "pipe_step a 0 pipe_sys0 y" "sent y = [10, 11]"
proof -
  note m = user_mode [OF pipe_start_ok [OF pipe_start0 [of a]] pipe_sys0_user(1)]
  note u = unlockedD [OF m(5)]
  let ?addr = "\<lambda>i. if i = 0 then 10 else 11 :: u8"
  have e: "contents (pipes (kst pipe_sys0) a) = []" by (simp add: contents_def pipe_sys0_simps)
  have s: "\<exists>y. pipe_step a 0 pipe_sys0 y \<and> sent y = map ?addr [0..<i]"
    if "pipewrite_loop a ?addr 2 0 (locked_by (PipeLock a) (kst pipe_sys0)) = Ret (r, i, k)" for r i k
  proof -
    have "pipewrite a ?addr 2 (kst pipe_sys0) = Ret (r, i, k)" using that u by (simp add: pipewrite_def acquirek_calm)
    then have "pipe_step a 0 pipe_sys0 (after_write 0 ?addr 2 0 (r, i, k) pipe_sys0)"
      using pipe_sys0_user(1) by (intro step_write) (simp_all add: pipe_sys0_simps)
    moreover have "sent (after_write 0 ?addr 2 0 (r, i, k) pipe_sys0) = map ?addr [0..<i]"
      by (simp add: after_write_def pipe_sys0_def Let_def split: blocking.split)
    ultimately show ?thesis by blast
  qed
  from m(5,6,3) pipe_invD(3) [OF m(1)] show ?thesis
  proof (cases rule: pipewrite_loop_cases [where addr = ?addr and n = 2 and i = 0])
    case (written i' p')
    then have "i' = 2" by simp
    then show ?thesis using s [OF written(6)] that by (auto simp: upt_conv_Cons)
  next
    case (failed i' p')
    then have "i' = 512" using e pipe_full_iff [of p'] by simp
    then show ?thesis using failed(1) by simp
  next
    case (blocked i' p')
    then have "i' = 512" using e pipe_full_iff [of p'] by simp
    then show ?thesis using blocked(1) by simp
  qed
qed

lemma example_read:
  obtains y where "pipe_step a 0 pipe_sys0 y" "mode y = Scheduler" "conts y 1 = Some (YieldCont 0)" "\<not> gave_up y"
    "p_state (procs (kst y) ! 0) = SLEEPING" "p_chan (procs (kst y) ! 0) = Some (PipeReadChan a)"
    "p_state (procs (kst y) ! 1) = RUNNABLE" "0 < length (procs (kst y))"
proof -
  note m = user_mode [OF pipe_start_ok [OF pipe_start0 [of a]] pipe_sys0_user(1)]
  note u = unlockedD [OF m(5)]
  let ?k = "locked_by PtableLock (asleep 0 (PipeReadChan a) (kst pipe_sys0))"
  have "pipe_empty (pipes (kst pipe_sys0) a)" "writeopen (pipes (kst pipe_sys0) a) \<noteq> 0" "p_killed (procs (kst pipe_sys0) ! 0) = 0"
    by (simp_all add: pipe_sys0_simps pipe_empty_def proc0_def)
  then have "piperead_body a 5 (locked_by (PipeLock a) (kst pipe_sys0)) = Ret (Blocked (PipeReadChan a) 0, [], ?k)"
    using u m(6) sleep_locked(1) [OF m(5,6,3), of "PipeLock a"] by (simp add: piperead_body_def with_proc_def pipe_sys0_simps(5))
  then have "piperead a 5 (kst pipe_sys0) = Ret (Blocked (PipeReadChan a) 0, [], ?k)"
    using u by (simp add: piperead_def acquirek_calm)
  then have "pipe_step a 0 pipe_sys0 (after_read 0 5 (Blocked (PipeReadChan a) 0, [], ?k) pipe_sys0)"
    using pipe_sys0_user(1) by (intro step_read) (simp_all add: pipe_sys0_simps)
  moreover have "conts pipe_sys0 = [1 \<mapsto> YieldCont 0]" "\<not> gave_up pipe_sys0" by (simp_all add: pipe_sys0_def)
  ultimately show ?thesis
    using that by (simp add: after_read_def asleep_def pipe_sys0_simps proc0_def)
qed

theorem pipe_stream_witness:
  "\<exists>x y. pipe_start 0 0 x \<and> (pipe_step 0 0)\<^sup>*\<^sup>* x y \<and> sent y = [10, 11] \<and> received y @ contents (pipes (kst y) 0) = [10, 11]"
proof (rule example_write [of 0])
  fix y assume y: "pipe_step 0 0 pipe_sys0 y" "sent y = [10, 11]"
  then show ?thesis using pipe_stream [OF _ pipe_start0, of 0 y] pipe_start0 by auto
qed

theorem pipe_no_lost_wakeup_witness:
  "\<exists>x y q. pipe_start 0 0 x \<and> (pipe_step 0 0)\<^sup>*\<^sup>* x y \<and> q \<in> set (procs (kst y)) \<and> p_state q = SLEEPING \<and>
     p_chan q = Some (PipeReadChan 0) \<and> pipe_empty (pipes (kst y) 0) \<and> writeopen (pipes (kst y) 0) \<noteq> 0"
proof (rule example_read [of 0])
  fix y assume y: "pipe_step 0 0 pipe_sys0 y" "\<not> gave_up y" "p_state (procs (kst y) ! 0) = SLEEPING"
    "p_chan (procs (kst y) ! 0) = Some (PipeReadChan 0)" "0 < length (procs (kst y))"
  have r: "(pipe_step 0 0)\<^sup>*\<^sup>* pipe_sys0 y" using y(1) by blast
  show ?thesis
    using pipe_no_lost_wakeup [OF r pipe_start0 nth_mem [OF y(5)] y(3)] y(2,4) r pipe_start0 nth_mem [OF y(5)] y(3) by blast
qed

theorem pipe_never_stuck_witness:
  "\<exists>x y z. pipe_start 0 0 x \<and> (pipe_step 0 0)\<^sup>*\<^sup>* x y \<and> mode y = Scheduler \<and> pipe_step 0 0 y z"
proof (rule example_read [of 0])
  fix y assume y: "pipe_step 0 0 pipe_sys0 y" "mode y = Scheduler" "conts y 1 = Some (YieldCont 0)"
    "p_state (procs (kst y) ! 1) = RUNNABLE"
  have r: "(pipe_step 0 0)\<^sup>*\<^sup>* pipe_sys0 y" using y(1) by blast
  show ?thesis
    using pipe_never_stuck [OF r pipe_start0, of "\<lambda>_. 0" 0] y(2-4) r pipe_start0 by auto
qed

text \<open>
  Claim C27. A wakeup that is lost: a writer that has been killed fills the empty pipe and gives up without waking a
  reader that sleeps on it. The process table is unchanged, so the reader sleeps on although the pipe is full.
\<close>

theorem pipewrite_killed_no_wakeup:
  assumes "unlocked k" "cproc k (cpu_id (mach k)) = Some p" "p < length (procs k)" "pipe_ok (pipes k a)"
    and "pipe_empty (pipes k a)" "p_killed (procs k ! p) \<noteq> 0" "int PIPESIZE < n"
  shows "\<exists>k'. pipewrite a addr n k = Ret (Done (-1), PIPESIZE, k') \<and> procs k' = procs k \<and>
    contents (pipes k' a) = map addr [0..<PIPESIZE]"
proof -
  have w: "pipewrite a addr n k = pipewrite_loop a addr n 0 (locked_by (PipeLock a) k)"
    using unlockedD [OF assms(1)] by (simp add: pipewrite_def acquirek_calm)
  have e: "contents (pipes k a) = []" using assms(5) by (simp add: pipe_empty_iff)
  from assms(1-4) show ?thesis
  proof (cases rule: pipewrite_loop_cases [where addr = addr and n = n and i = 0])
    case (written i' p')
    have "length (contents p') = i'" using e written(3) by (simp del: length_contents)
    then have "i' \<le> 512" using written(2) by (simp add: pipe_ok_def)
    then show ?thesis using written(1) assms(7) by simp
  next
    case (failed i' p')
    then have "i' = 512" using e pipe_full_iff [of p'] by simp
    then show ?thesis using failed e w by simp
  next
    case (blocked i' p')
    then show ?thesis using assms(6) by simp
  qed
qed

theorem pipewrite_killed_no_wakeup_witness:
  "\<exists>(k :: pipe_state) k'. p_state (procs k ! 1) = SLEEPING \<and> p_chan (procs k ! 1) = Some (PipeReadChan 0) \<and>
     pipewrite 0 (\<lambda>_. 65) 600 k = Ret (Done (-1), 512, k') \<and> procs k' = procs k \<and> contents (pipes k' 0) = map (\<lambda>_. 65) [0..<512]"
proof -
  let ?k = "upd_proc 1 (\<lambda>q. q\<lparr>p_state := SLEEPING, p_chan := Some (PipeReadChan 0)\<rparr>) (upd_proc 0 (p_killed_update (\<lambda>_. 1)) (kst pipe_sys0))"
  have "unlocked ?k" "cproc ?k (cpu_id (mach ?k)) = Some 0" "0 < length (procs ?k)" "pipe_ok (pipes ?k 0)"
    "pipe_empty (pipes ?k 0)" "p_killed (procs ?k ! 0) \<noteq> 0" "int PIPESIZE < 600"
    by (simp_all add: pipe_sys0_simps pipe_ok_def pipe_empty_def)
  from pipewrite_killed_no_wakeup [OF this, of "\<lambda>_. 65"]
  obtain k' where "pipewrite 0 (\<lambda>_. 65) 600 ?k = Ret (Done (-1), 512, k')" "procs k' = procs ?k" "contents (pipes k' 0) = map (\<lambda>_. 65) [0..<512]"
    by blast
  then show ?thesis by (intro exI [of _ ?k] exI [of _ k']) (simp add: pipe_sys0_simps)
qed

end
