(* ===== verification/Sleeplock.thy ===== *)
theory Sleeplock
  imports Pipe
begin

text \<open>
  Sleeping locks (sleeplock.c), which buffers and inodes have. \<open>acquiresleep\<close> blocks while the lock is
  held. The file system is followed in a single process: when it blocks on a lock that nobody else
  is going to release, it does not return.
\<close>

section \<open>State\<close>

record sleeplock =
  sl_locked :: u32
  sl_name :: string
  sl_pid :: u32

record sleep_state = pipe_state +
  sleeps :: "sleepid \<Rightarrow> sleeplock"

definition upd_sleep :: "sleepid \<Rightarrow> (sleeplock \<Rightarrow> sleeplock) \<Rightarrow> 'a sleep_state_scheme \<Rightarrow> 'a sleep_state_scheme" where
  "upd_sleep i f k = k\<lparr>sleeps := (sleeps k)(i := f (sleeps k i))\<rparr>"

section \<open>Operations\<close>

definition initsleeplock :: "sleepid \<Rightarrow> string \<Rightarrow> 'a sleep_state_scheme \<Rightarrow> 'a sleep_state_scheme" where
  "initsleeplock i nm k =
     (let k = initlockk (SleepSpin i) ''sleep lock'' k;
          k = upd_sleep i (sl_name_update (\<lambda>_. nm)) k;
          k = upd_sleep i (sl_locked_update (\<lambda>_. 0)) k
      in upd_sleep i (sl_pid_update (\<lambda>_. 0)) k)"

text \<open>The loop of \<open>acquiresleep\<close>, with the inner spin lock held.\<close>

definition acquiresleep_body :: "sleepid \<Rightarrow> 'a sleep_state_scheme \<Rightarrow> (unit blocking \<times> 'a sleep_state_scheme) outcome" where
  "acquiresleep_body i k =
     (if sl_locked (sleeps k i) \<noteq> 0
      then obind (sleep (SleepChan i) (Some (SleepSpin i)) k) (\<lambda>(e, k). Ret (Blocked (SleepChan i) e, k))
      else
        with_proc (\<lambda>cur k.
          let k = upd_sleep i (sl_pid_update (\<lambda>_. p_pid (procs k ! cur))) k in
          obind (releasek (SleepSpin i) k) (\<lambda>k. Ret (Done (), k)))
          (upd_sleep i (sl_locked_update (\<lambda>_. 1)) k))"

definition acquiresleep :: "sleepid \<Rightarrow> 'a sleep_state_scheme \<Rightarrow> (unit blocking \<times> 'a sleep_state_scheme) outcome" where
  "acquiresleep i k = obind (acquirek (SleepSpin i) k) (acquiresleep_body i)"

definition acquiresleep_return :: "sleepid \<Rightarrow> nat \<Rightarrow> u32 \<Rightarrow> 'a sleep_state_scheme \<Rightarrow>
    (unit blocking \<times> 'a sleep_state_scheme) outcome" where
  "acquiresleep_return i cur e k = obind (sleep_return cur (SleepSpin i) e k) (acquiresleep_body i)"

definition releasesleep :: "sleepid \<Rightarrow> 'a sleep_state_scheme \<Rightarrow> 'a sleep_state_scheme outcome" where
  "releasesleep i k =
     obind (acquirek (SleepSpin i) k) (\<lambda>k.
       let k = upd_sleep i (sl_locked_update (\<lambda>_. 0)) k;
           k = upd_sleep i (sl_pid_update (\<lambda>_. 0)) k
       in obind (wakeup (SleepChan i) k) (releasek (SleepSpin i)))"

definition holdingsleep :: "sleepid \<Rightarrow> 'a sleep_state_scheme \<Rightarrow> (bool \<times> 'a sleep_state_scheme) outcome" where
  "holdingsleep i k =
     obind (acquirek (SleepSpin i) k)
       (with_proc (\<lambda>cur k.
          let r = (sl_locked (sleeps k i) \<noteq> 0 \<and> sl_pid (sleeps k i) = p_pid (procs k ! cur)) in
          obind (releasek (SleepSpin i) k) (\<lambda>k. Ret (r, k))))"

text \<open>A process on its own: once it blocks it does not return.\<close>

definition alone :: "('r blocking \<times> 'k) outcome \<Rightarrow> ('r \<times> 'k) outcome" where
  "alone m = obind m (\<lambda>(r, k). case r of Done x \<Rightarrow> Ret (x, k) | Blocked ch e \<Rightarrow> Diverge)"

lemma alone_simps [simp]:
  "alone (Ret (Done x, k)) = Ret (x, k)" "alone (Ret (Blocked ch e, k)) = Diverge" "alone (Panic s) = Panic s"
  by (simp_all add: alone_def)

section \<open>In a process on its own\<close>

lemma sleep_upd_simps [simp]:
  "procs (upd_sleep i f k) = procs k" "mach (upd_sleep i f k) = mach k" "spin (upd_sleep i f k) = spin k"
  "cproc (upd_sleep i f k) = cproc k" "pipes (upd_sleep i f k) = pipes k"
  "sleeps (upd_sleep i f k) = (sleeps k)(i := f (sleeps k i))"
  "unlocked (upd_sleep i f k) = unlocked k" "calm (upd_sleep i f k) = calm k"
  "upd_sleep i f (locked_by l k) = locked_by l (upd_sleep i f k)"
  "sleeps (locked_by l k) = sleeps k" "sleeps (wakeup1 ch k) = sleeps k"
  "upd_sleep i f (upd_sleep i g k) = upd_sleep i (\<lambda>x. f (g x)) k"
  by (simp_all add: upd_sleep_def unlocked_def calm_def locked_by_def upd_cpu_def wakeup1_def)

text \<open>The process that runs: its index, and that no spin lock is held.\<close>

definition serving :: "nat \<Rightarrow> 'a pstate_scheme \<Rightarrow> bool" where
  "serving p k \<longleftrightarrow> unlocked k \<and> cproc k (cpu_id (mach k)) = Some p \<and> p < length (procs k) \<and> p_state (procs k ! p) = RUNNING"

lemma servingD:
  assumes "serving p k"
  shows "unlocked k" "cproc k (cpu_id (mach k)) = Some p" "p < length (procs k)" "calm k" "lock_free (spin k l)"
    "p_state (procs k ! p) = RUNNING"
  using assms unlockedD [of k] by (auto simp: serving_def)

lemma serving_update [simp]:
  "serving p (upd_sleep i f k) = serving p k"
  by (simp add: serving_def)

lemma serving_wakeup1 [simp]: "serving p k \<Longrightarrow> serving p (wakeup1 ch k)"
  by (simp add: serving_def wakeup1_nth)

definition taken :: "nat \<Rightarrow> sleepid \<Rightarrow> 'a sleep_state_scheme \<Rightarrow> 'a sleep_state_scheme" where
  "taken p i k = upd_sleep i (\<lambda>l. l\<lparr>sl_locked := 1, sl_pid := p_pid (procs k ! p)\<rparr>) k"

definition given_up :: "sleepid \<Rightarrow> 'a sleep_state_scheme \<Rightarrow> 'a sleep_state_scheme" where
  "given_up i k = wakeup1 (SleepChan i) (upd_sleep i (\<lambda>l. l\<lparr>sl_locked := 0, sl_pid := 0\<rparr>) k)"

lemma acquiresleep_free:
  assumes "serving p k" "sl_locked (sleeps k i) = 0"
  shows "acquiresleep i k = Ret (Done (), taken p i k)"
  using servingD [OF assms(1)] assms(2)
  by (simp add: acquiresleep_def acquirek_calm acquiresleep_body_def with_proc_def taken_def Let_def)

lemma releasesleep_serving:
  assumes "serving p k"
  shows "releasesleep i k = Ret (given_up i k)"
  using servingD [OF assms]
  by (simp add: releasesleep_def acquirek_calm Let_def given_up_def wakeup_locked)

lemma holdingsleep_serving:
  assumes "serving p k"
  shows "holdingsleep i k = Ret (sl_locked (sleeps k i) \<noteq> 0 \<and> sl_pid (sleeps k i) = p_pid (procs k ! p), k)"
  using servingD [OF assms] by (simp add: holdingsleep_def acquirek_calm with_proc_def)

end
