(* ===== verification/Bio.thy ===== *)
theory Bio
  imports Sleeplock
begin

text \<open>
  The disk driver (ide.c) and the buffer cache (bio.c). The driver keeps a queue of buffers and gives
  the device one command at a time; the device is a set of registers and the blocks it stores. The cache keeps its buffers in a
  doubly linked list in order of use. It is shown to be transparent: reading a block gives what was
  last put there, whichever buffers are recycled in between.
\<close>

section \<open>State\<close>

abbreviation (input) BSIZE :: nat where "BSIZE \<equiv> 512"
abbreviation (input) B_VALID :: u32 where "B_VALID \<equiv> 2"
abbreviation (input) B_DIRTY :: u32 where "B_DIRTY \<equiv> 4"
abbreviation (input) IDE_BSY :: u8 where "IDE_BSY \<equiv> 0x80"
abbreviation (input) IDE_DRDY :: u8 where "IDE_DRDY \<equiv> 0x40"
abbreviation (input) IDE_DF :: u8 where "IDE_DF \<equiv> 0x20"
abbreviation (input) IDE_ERR :: u8 where "IDE_ERR \<equiv> 0x01"
abbreviation (input) IDE_CMD_READ :: u8 where "IDE_CMD_READ \<equiv> 0x20"
abbreviation (input) IDE_CMD_WRITE :: u8 where "IDE_CMD_WRITE \<equiv> 0x30"

text \<open>
  A buffer is named by its index in \<^verbatim>\<open>bcache.buf\<close>; index \<^verbatim>\<open>NBUF\<close> is \<^verbatim>\<open>bcache.head\<close>.
\<close>

record buf =
  b_flags :: u32
  b_dev :: u32
  b_blockno :: u32
  b_refcnt :: u32
  b_prev :: nat
  b_next :: nat
  b_data :: "u8 list"

text \<open>
  The device: its status, the control register that enables its interrupt, the registers for the number of sectors and the first sector, the command register and the data that came with a
  write. \<open>disk\<close> is what it stores; it carries out the command when it raises its interrupt. \<open>writes\<close> records the
  block writes it carried out.
\<close>

record ide_dev =
  status :: u8
  control :: u8
  nsectors :: u8
  lba0 :: u8
  lba1 :: u8
  lba2 :: u8
  drive :: u8
  command :: u8
  wdata :: "u8 list"

type_synonym block = "u8 list"
type_synonym disk = "u32 \<Rightarrow> u32 \<Rightarrow> block"

record buf_state = sleep_state +
  bufs :: "buf list"
  idequeue :: "nat list"
  havedisk1 :: bool
  ide :: ide_dev
  disk :: disk
  writes :: "(u32 \<times> u32 \<times> block) list"

definition upd_buf :: "nat \<Rightarrow> (buf \<Rightarrow> buf) \<Rightarrow> 'a buf_state_scheme \<Rightarrow> 'a buf_state_scheme" where
  "upd_buf b f k = k\<lparr>bufs := (bufs k)[b := f (bufs k ! b)]\<rparr>"

section \<open>The disk driver\<close>

text \<open>Waiting for the device to be ready ends only if it is.\<close>

definition idewait :: "bool \<Rightarrow> 'a buf_state_scheme \<Rightarrow> int outcome" where
  "idewait checkerr k =
     (let r = status (ide k) in
      if r AND (IDE_BSY OR IDE_DRDY) \<noteq> IDE_DRDY then Diverge
      else if checkerr \<and> r AND (IDE_DF OR IDE_ERR) \<noteq> 0 then Ret (-1)
      else Ret 0)"

text \<open>
  Looking for disk 1: \<open>answer i\<close> is what the \<open>i\<close>th read of its status register gives. Routing the
  interrupt is left to the interrupt controller.
\<close>

definition ideinit :: "(nat \<Rightarrow> u8) \<Rightarrow> 'a buf_state_scheme \<Rightarrow> 'a buf_state_scheme outcome" where
  "ideinit answer k =
     (let k = initlockk IdeLock ''ide'' k in
      obind (idewait False k) (\<lambda>_.
        let k = k\<lparr>ide := (ide k)\<lparr>drive := 0xE0 OR push_bit 4 1\<rparr>\<rparr>;
            k = (if list_ex (\<lambda>i. answer i \<noteq> 0) [0..<1000] then k\<lparr>havedisk1 := True\<rparr> else k)
        in Ret (k\<lparr>ide := (ide k)\<lparr>drive := 0xE0 OR push_bit 4 0\<rparr>\<rparr>)))"

text \<open>
  With \<^verbatim>\<open>BSIZE = SECTOR_SIZE\<close> a block is one sector and the single-sector commands are used.
\<close>

definition idestart :: "nat option \<Rightarrow> 'a buf_state_scheme \<Rightarrow> 'a buf_state_scheme outcome" where
  "idestart q k = (case q of None \<Rightarrow> Panic ''idestart'' | Some b \<Rightarrow>
     let x = bufs k ! b in
     if b_blockno x \<ge> of_nat FSSIZE then Panic ''incorrect blockno''
     else
       let sector = b_blockno x in
       obind (idewait False k) (\<lambda>_.
         let k = k\<lparr>ide := (ide k)\<lparr>control := 0, nsectors := 1, lba0 := ucast sector, lba1 := ucast (drop_bit 8 sector), lba2 := ucast (drop_bit 16 sector),
                     drive := 0xE0 OR push_bit 4 (ucast (b_dev x AND 1)) OR (ucast (drop_bit 24 sector) AND 0x0F)\<rparr>\<rparr>
         in Ret (if b_flags x AND B_DIRTY \<noteq> 0
                 then k\<lparr>ide := (ide k)\<lparr>command := IDE_CMD_WRITE, wdata := b_data x\<rparr>\<rparr>
                 else k\<lparr>ide := (ide k)\<lparr>command := IDE_CMD_READ\<rparr>\<rparr>)))"

text \<open>The sector and drive that the registers select, and the device finishing a write.\<close>

definition ide_sector :: "ide_dev \<Rightarrow> u32" where
  "ide_sector d = ucast (lba0 d) OR push_bit 8 (ucast (lba1 d)) OR push_bit 16 (ucast (lba2 d)) OR
     push_bit 24 (ucast (drive d AND 0x0F))"

definition ide_drive :: "ide_dev \<Rightarrow> u32" where
  "ide_drive d = ucast (drop_bit 4 (drive d)) AND 1"

definition ide_complete :: "'a buf_state_scheme \<Rightarrow> 'a buf_state_scheme" where
  "ide_complete k =
     (let d = ide_drive (ide k); s = ide_sector (ide k) in
      if command (ide k) = IDE_CMD_WRITE
      then k\<lparr>disk := (disk k)(d := (disk k d)(s := wdata (ide k))), writes := writes k @ [(d, s, wdata (ide k))]\<rparr>
      else k)"

definition ideintr :: "'a buf_state_scheme \<Rightarrow> 'a buf_state_scheme outcome" where
  "ideintr k =
     obind (acquirek IdeLock k) (\<lambda>k.
       case idequeue k of [] \<Rightarrow> releasek IdeLock k
       | b # q \<Rightarrow>
         let k = k\<lparr>idequeue := q\<rparr> in
         obind
           (if b_flags (bufs k ! b) AND B_DIRTY = 0
            then obind (idewait True k) (\<lambda>r.
              Ret (if r \<ge> 0 then upd_buf b (b_data_update (\<lambda>_. disk k (ide_drive (ide k)) (ide_sector (ide k)))) k else k))
            else Ret k)
           (\<lambda>k.
             let k = upd_buf b (b_flags_update (\<lambda>f. f OR B_VALID)) k;
                 k = upd_buf b (b_flags_update (\<lambda>f. f AND NOT B_DIRTY)) k
             in obind (wakeup (BufChan b) k) (\<lambda>k.
               obind (if idequeue k \<noteq> [] then idestart (Some (hd (idequeue k))) k else Ret k)
                 (releasek IdeLock))))"

text \<open>
  While \<open>iderw\<close> sleeps the device finishes its command and interrupts; the request at the head of the
  queue is then done. Nothing else happens meanwhile: the routines of the file system are modelled as they run when no other process is
  scheduled in between. The loop ends at the latest when the queue is empty.
\<close>

primrec iderw_wait :: "nat \<Rightarrow> nat \<Rightarrow> 'a buf_state_scheme \<Rightarrow> 'a buf_state_scheme outcome" where
  "iderw_wait b 0 k = Diverge"
| "iderw_wait b (Suc n) k =
     (if b_flags (bufs k ! b) AND (B_VALID OR B_DIRTY) = B_VALID then Ret k
      else obind (releasek IdeLock k) (\<lambda>k.
        obind (ideintr (ide_complete k)) (\<lambda>k. obind (acquirek IdeLock k) (iderw_wait b n))))"

definition iderw :: "nat \<Rightarrow> 'a buf_state_scheme \<Rightarrow> 'a buf_state_scheme outcome" where
  "iderw b k =
     obind (holdingsleep (BufSleep b) k) (\<lambda>(h, k).
       if \<not> h then Panic ''iderw: buf not locked''
       else if b_flags (bufs k ! b) AND (B_VALID OR B_DIRTY) = B_VALID then Panic ''iderw: nothing to do''
       else if b_dev (bufs k ! b) \<noteq> 0 \<and> \<not> havedisk1 k then Panic ''iderw: ide disk 1 not present''
       else obind (acquirek IdeLock k) (\<lambda>k.
         let k = k\<lparr>idequeue := idequeue k @ [b]\<rparr> in
         obind (if hd (idequeue k) = b then idestart (Some b) k else Ret k) (\<lambda>k.
           obind (iderw_wait b (length (idequeue k) + 1) k) (releasek IdeLock))))"

section \<open>The buffer cache\<close>

definition binit_step :: "nat \<Rightarrow> 'a buf_state_scheme \<Rightarrow> 'a buf_state_scheme" where
  "binit_step b k =
     (let k = upd_buf b (b_next_update (\<lambda>_. b_next (bufs k ! NBUF))) k;
          k = upd_buf b (b_prev_update (\<lambda>_. NBUF)) k;
          k = initsleeplock (BufSleep b) ''buffer'' k;
          k = upd_buf (b_next (bufs k ! NBUF)) (b_prev_update (\<lambda>_. b)) k
      in upd_buf NBUF (b_next_update (\<lambda>_. b)) k)"

definition binit :: "'a buf_state_scheme \<Rightarrow> 'a buf_state_scheme" where
  "binit k =
     (let k = initlockk BcacheLock ''bcache'' k;
          k = upd_buf NBUF (b_prev_update (\<lambda>_. NBUF)) k;
          k = upd_buf NBUF (b_next_update (\<lambda>_. NBUF)) k
      in fold binit_step [0..<NBUF] k)"

text \<open>The two scans of \<open>bget\<close> along the list, forwards for the block and backwards for a free buffer.\<close>

primrec bget_find :: "nat \<Rightarrow> u32 \<Rightarrow> u32 \<Rightarrow> nat \<Rightarrow> buf list \<Rightarrow> nat option outcome" where
  "bget_find 0 dev blockno b bs = Diverge"
| "bget_find (Suc n) dev blockno b bs =
     (if b = NBUF then Ret None
      else if b_dev (bs ! b) = dev \<and> b_blockno (bs ! b) = blockno then Ret (Some b)
      else bget_find n dev blockno (b_next (bs ! b)) bs)"

primrec bget_free :: "nat \<Rightarrow> nat \<Rightarrow> buf list \<Rightarrow> nat option outcome" where
  "bget_free 0 b bs = Diverge"
| "bget_free (Suc n) b bs =
     (if b = NBUF then Ret None
      else if b_refcnt (bs ! b) = 0 \<and> b_flags (bs ! b) AND B_DIRTY = 0 then Ret (Some b)
      else bget_free n (b_prev (bs ! b)) bs)"

definition bget :: "u32 \<Rightarrow> u32 \<Rightarrow> 'a buf_state_scheme \<Rightarrow> (nat \<times> 'a buf_state_scheme) outcome" where
  "bget dev blockno k =
     obind (acquirek BcacheLock k) (\<lambda>k.
       obind (bget_find (NBUF + 1) dev blockno (b_next (bufs k ! NBUF)) (bufs k)) (\<lambda>r.
         case r of
           Some b \<Rightarrow>
             let k = upd_buf b (b_refcnt_update (\<lambda>n. n + 1)) k in
             obind (releasek BcacheLock k) (\<lambda>k.
               obind (alone (acquiresleep (BufSleep b) k)) (\<lambda>(_, k). Ret (b, k)))
         | None \<Rightarrow>
             obind (bget_free (NBUF + 1) (b_prev (bufs k ! NBUF)) (bufs k)) (\<lambda>r.
               case r of
                 Some b \<Rightarrow>
                   let k = upd_buf b (\<lambda>x. x\<lparr>b_dev := dev, b_blockno := blockno, b_flags := 0, b_refcnt := 1\<rparr>) k in
                   obind (releasek BcacheLock k) (\<lambda>k.
                     obind (alone (acquiresleep (BufSleep b) k)) (\<lambda>(_, k). Ret (b, k)))
               | None \<Rightarrow> Panic ''bget: no buffers'')))"

definition bread :: "u32 \<Rightarrow> u32 \<Rightarrow> 'a buf_state_scheme \<Rightarrow> (nat \<times> 'a buf_state_scheme) outcome" where
  "bread dev blockno k =
     obind (bget dev blockno k) (\<lambda>(b, k).
       if b_flags (bufs k ! b) AND B_VALID = 0 then obind (iderw b k) (\<lambda>k. Ret (b, k)) else Ret (b, k))"

definition bwrite :: "nat \<Rightarrow> 'a buf_state_scheme \<Rightarrow> 'a buf_state_scheme outcome" where
  "bwrite b k =
     obind (holdingsleep (BufSleep b) k) (\<lambda>(h, k).
       if \<not> h then Panic ''bwrite''
       else iderw b (upd_buf b (b_flags_update (\<lambda>f. f OR B_DIRTY)) k))"

definition brelse :: "nat \<Rightarrow> 'a buf_state_scheme \<Rightarrow> 'a buf_state_scheme outcome" where
  "brelse b k =
     obind (holdingsleep (BufSleep b) k) (\<lambda>(h, k).
       if \<not> h then Panic ''brelse''
       else obind (releasesleep (BufSleep b) k) (\<lambda>k.
         obind (acquirek BcacheLock k) (\<lambda>k.
           let k = upd_buf b (b_refcnt_update (\<lambda>n. n - 1)) k;
               k = (if b_refcnt (bufs k ! b) = 0 then
                      let k = upd_buf (b_next (bufs k ! b)) (b_prev_update (\<lambda>_. b_prev (bufs k ! b))) k;
                          k = upd_buf (b_prev (bufs k ! b)) (b_next_update (\<lambda>_. b_next (bufs k ! b))) k;
                          k = upd_buf b (b_next_update (\<lambda>_. b_next (bufs k ! NBUF))) k;
                          k = upd_buf b (b_prev_update (\<lambda>_. NBUF)) k;
                          k = upd_buf (b_next (bufs k ! NBUF)) (b_prev_update (\<lambda>_. b)) k
                      in upd_buf NBUF (b_next_update (\<lambda>_. b)) k
                    else k)
           in releasek BcacheLock k)))"

section \<open>The driver in a process on its own\<close>

lemma buf_upd_simps [simp]:
  "procs (upd_buf b f k) = procs k" "mach (upd_buf b f k) = mach k" "spin (upd_buf b f k) = spin k"
  "cproc (upd_buf b f k) = cproc k" "pipes (upd_buf b f k) = pipes k" "sleeps (upd_buf b f k) = sleeps k"
  "bufs (upd_buf b f k) = (bufs k)[b := f (bufs k ! b)]" "idequeue (upd_buf b f k) = idequeue k"
  "havedisk1 (upd_buf b f k) = havedisk1 k" "ide (upd_buf b f k) = ide k" "disk (upd_buf b f k) = disk k"
  "writes (upd_buf b f k) = writes k"
  "unlocked (upd_buf b f k) = unlocked k" "calm (upd_buf b f k) = calm k" "serving p (upd_buf b f k) = serving p k"
  "buf_state.more (upd_buf b f k) = buf_state.more k"
  by (simp_all add: upd_buf_def unlocked_def calm_def serving_def)

lemma buf_field_simps [simp]:
  "unlocked (k\<lparr>idequeue := q\<rparr>) = unlocked k" "unlocked (k\<lparr>ide := d\<rparr>) = unlocked k" "unlocked (k\<lparr>disk := e\<rparr>) = unlocked k"
  "unlocked (k\<lparr>writes := w\<rparr>) = unlocked k" "serving p (k\<lparr>idequeue := q\<rparr>) = serving p k" "serving p (k\<lparr>ide := d\<rparr>) = serving p k"
  "serving p (k\<lparr>disk := e\<rparr>) = serving p k" "serving p (k\<lparr>writes := w\<rparr>) = serving p k"
  "calm (k\<lparr>idequeue := q\<rparr>) = calm k" "calm (k\<lparr>ide := d\<rparr>) = calm k" "calm (k\<lparr>disk := e\<rparr>) = calm k" "calm (k\<lparr>writes := w\<rparr>) = calm k"
  by (simp_all add: unlocked_def calm_def serving_def)

lemma buf_lock_simps [simp]:
  "bufs (locked_by l k) = bufs k" "idequeue (locked_by l k) = idequeue k" "havedisk1 (locked_by l k) = havedisk1 k"
  "ide (locked_by l k) = ide k" "disk (locked_by l k) = disk k" "writes (locked_by l k) = writes k"
  "upd_buf b f (locked_by l k) = locked_by l (upd_buf b f k)"
  "(locked_by l k)\<lparr>idequeue := q\<rparr> = locked_by l (k\<lparr>idequeue := q\<rparr>)" "(locked_by l k)\<lparr>ide := d\<rparr> = locked_by l (k\<lparr>ide := d\<rparr>)"
  "(locked_by l k)\<lparr>disk := e\<rparr> = locked_by l (k\<lparr>disk := e\<rparr>)" "(locked_by l k)\<lparr>writes := w\<rparr> = locked_by l (k\<lparr>writes := w\<rparr>)"
  "bufs (wakeup1 ch k) = bufs k" "idequeue (wakeup1 ch k) = idequeue k" "havedisk1 (wakeup1 ch k) = havedisk1 k"
  "ide (wakeup1 ch k) = ide k" "disk (wakeup1 ch k) = disk k" "writes (wakeup1 ch k) = writes k"
  "buf_state.more (wakeup1 ch k) = buf_state.more k"
  "bufs (upd_sleep i g k) = bufs k" "idequeue (upd_sleep i g k) = idequeue k" "havedisk1 (upd_sleep i g k) = havedisk1 k"
  "ide (upd_sleep i g k) = ide k" "disk (upd_sleep i g k) = disk k" "writes (upd_sleep i g k) = writes k"
  "buf_state.more (upd_sleep i g k) = buf_state.more k"
  by (simp_all add: locked_by_def upd_cpu_def wakeup1_def upd_buf_def upd_sleep_def)

definition ready :: "ide_dev \<Rightarrow> bool" where
  "ready d \<longleftrightarrow> status d AND (IDE_BSY OR IDE_DRDY) = IDE_DRDY \<and> status d AND (IDE_DF OR IDE_ERR) = 0"

text \<open>The registers for a block select that block.\<close>

definition select :: "u32 \<Rightarrow> u32 \<Rightarrow> ide_dev \<Rightarrow> ide_dev" where
  "select dev sector d = d\<lparr>control := 0, nsectors := 1, lba0 := ucast sector, lba1 := ucast (drop_bit 8 sector), lba2 := ucast (drop_bit 16 sector),
     drive := 0xE0 OR push_bit 4 (ucast (dev AND 1)) OR (ucast (drop_bit 24 sector) AND 0x0F)\<rparr>"

lemma bit_E0: "bit (0xE0 :: int) n \<longleftrightarrow> n \<in> {5, 6, 7}"
proof -
  have e: "(0xE0 :: int) = push_bit 5 (mask 3)" by (simp add: mask_eq_exp_minus_1)
  show ?thesis unfolding e by (auto simp: bit_simps)
qed

lemma bit_0F: "bit (0x0F :: int) n \<longleftrightarrow> n < 4"
proof -
  have e: "(0x0F :: int) = mask 4" by (simp add: mask_eq_exp_minus_1)
  show ?thesis unfolding e by (auto simp: bit_simps)
qed

lemma ide_sector_select:
  assumes "unat sector < 2 ^ 28"
  shows "ide_sector (select dev sector d) = sector"
proof (rule bit_word_eqI)
  fix n assume n: "n < LENGTH(32)"
  have "take_bit 28 sector = sector" using assms by (simp add: word_unat_eq_iff unat_mod take_bit_eq_mod)
  then have hi: "bit sector m \<Longrightarrow> m < 28" for m by (metis bit_take_bit_iff)
  have dr: "bit (drive (select dev sector d) AND 0x0F) m \<longleftrightarrow> m < 4 \<and> bit sector (24 + m)" for m
    by (auto simp: select_def bit_simps bit_0F bit_E0)
  define hi4 where "hi4 = drive (select dev sector d) AND 0x0F"
  have l: "lba0 (select dev sector d) = ucast sector" "lba1 (select dev sector d) = ucast (drop_bit 8 sector)"
    "lba2 (select dev sector d) = ucast (drop_bit 16 sector)" by (simp_all add: select_def)
  show "bit (ide_sector (select dev sector d)) n \<longleftrightarrow> bit sector n"
    unfolding ide_sector_def l hi4_def [symmetric]
    using n hi [of n] dr [of "n - 24", folded hi4_def]
    by (cases "n < 8"; cases "n < 16"; cases "n < 24") (auto simp: bit_simps)
qed

lemma ide_drive_select: "ide_drive (select dev sector d) = dev AND 1"
proof -
  have dr: "bit (drive (select dev sector d)) 4 \<longleftrightarrow> bit dev 0"
    by (auto simp: select_def bit_simps bit_0F bit_E0)
  show ?thesis unfolding ide_drive_def by (rule bit_word_eqI) (auto simp: bit_simps dr)
qed

text \<open>One request on an idle driver: the block is read into the buffer, or written to the disk.\<close>

lemma idewait_ready: "ready (ide k) \<Longrightarrow> idewait e k = Ret 0"
  by (simp add: idewait_def ready_def)

lemma ready_simps [simp]:
  "ready (select dev s d) = ready d" "ready (d\<lparr>command := c\<rparr>) = ready d" "ready (d\<lparr>wdata := w\<rparr>) = ready d"
  "status (select dev s d) = status d" "ide_sector (d\<lparr>command := c\<rparr>) = ide_sector d" "ide_drive (d\<lparr>command := c\<rparr>) = ide_drive d"
  "ide_sector (d\<lparr>wdata := w\<rparr>) = ide_sector d" "ide_drive (d\<lparr>wdata := w\<rparr>) = ide_drive d"
  by (simp_all add: ready_def select_def ide_sector_def ide_drive_def)

lemma idestart_ready:
  assumes "ready (ide k)" "unat (b_blockno (bufs k ! b)) < FSSIZE"
  shows "idestart (Some b) k = Ret (k\<lparr>ide := (let d = select (b_dev (bufs k ! b)) (b_blockno (bufs k ! b)) (ide k) in
    if b_flags (bufs k ! b) AND B_DIRTY \<noteq> 0 then d\<lparr>command := IDE_CMD_WRITE, wdata := b_data (bufs k ! b)\<rparr>
    else d\<lparr>command := IDE_CMD_READ\<rparr>)\<rparr>)"
proof -
  have "\<not> of_nat FSSIZE \<le> b_blockno (bufs k ! b)" using assms(2) by (simp add: word_le_nat_alt)
  then show ?thesis using assms(1) by (simp add: idestart_def idewait_ready select_def Let_def)
qed

lemma iderw_serving:
  assumes "serving p k" "sl_locked (sleeps k (BufSleep b)) \<noteq> 0" "sl_pid (sleeps k (BufSleep b)) = p_pid (procs k ! p)"
    and "idequeue k = []" "havedisk1 k" "ready (ide k)" "b < length (bufs k)"
    and "unat (b_blockno (bufs k ! b)) < FSSIZE" "b_dev (bufs k ! b) = 1"
  shows "b_flags (bufs k ! b) = 0 \<Longrightarrow> iderw b k = Ret (wakeup1 (BufChan b)
      (upd_buf b (\<lambda>x. x\<lparr>b_flags := B_VALID, b_data := disk k 1 (b_blockno x)\<rparr>)
        (k\<lparr>ide := (select 1 (b_blockno (bufs k ! b)) (ide k))\<lparr>command := IDE_CMD_READ\<rparr>\<rparr>)))"
    and "b_flags (bufs k ! b) AND B_DIRTY \<noteq> 0 \<Longrightarrow> iderw b k = Ret (wakeup1 (BufChan b)
      (upd_buf b (b_flags_update (\<lambda>f. (f OR B_VALID) AND NOT B_DIRTY))
        (k\<lparr>ide := (select 1 (b_blockno (bufs k ! b)) (ide k))\<lparr>command := IDE_CMD_WRITE, wdata := b_data (bufs k ! b)\<rparr>,
           disk := (disk k)(1 := (disk k 1)(b_blockno (bufs k ! b) := b_data (bufs k ! b))),
           writes := writes k @ [(1, b_blockno (bufs k ! b), b_data (bufs k ! b))]\<rparr>)))"
proof -
  note s = servingD [OF assms(1)]
  have sec: "ide_sector (select 1 (b_blockno (bufs k ! b)) d) = b_blockno (bufs k ! b)" for d
    using assms(8) by (intro ide_sector_select) simp
  have drv: "ide_drive (select 1 (b_blockno (bufs k ! b)) d) = 1" for d by (simp add: ide_drive_select)
  note facts = holdingsleep_serving [OF assms(1)] acquirek_calm wakeup_locked idestart_ready ide_complete_def
    ideintr_def idewait_ready sec drv Let_def
  show "iderw b k = Ret (wakeup1 (BufChan b)
      (upd_buf b (\<lambda>x. x\<lparr>b_flags := B_VALID, b_data := disk k 1 (b_blockno x)\<rparr>)
        (k\<lparr>ide := (select 1 (b_blockno (bufs k ! b)) (ide k))\<lparr>command := IDE_CMD_READ\<rparr>\<rparr>)))"
    if "b_flags (bufs k ! b) = 0"
    using that assms s by (simp add: iderw_def facts) (cases k, cases "bufs k ! b", simp add: upd_buf_def wakeup1_def)
  have f: "((x OR 2) AND -5) AND 6 = (2 :: u32)" for x
    by (simp add: and.assoc or_has_flag)
  show "iderw b k = Ret (wakeup1 (BufChan b)
      (upd_buf b (b_flags_update (\<lambda>f. (f OR B_VALID) AND NOT B_DIRTY))
        (k\<lparr>ide := (select 1 (b_blockno (bufs k ! b)) (ide k))\<lparr>command := IDE_CMD_WRITE, wdata := b_data (bufs k ! b)\<rparr>,
           disk := (disk k)(1 := (disk k 1)(b_blockno (bufs k ! b) := b_data (bufs k ! b))),
           writes := writes k @ [(1, b_blockno (bufs k ! b), b_data (bufs k ! b))]\<rparr>)))"
    if "b_flags (bufs k ! b) AND B_DIRTY \<noteq> 0"
  proof -
    have "b_flags (bufs k ! b) AND (B_VALID OR B_DIRTY) \<noteq> B_VALID"
    proof
      assume a: "b_flags (bufs k ! b) AND (B_VALID OR B_DIRTY) = B_VALID"
      have "b_flags (bufs k ! b) AND B_DIRTY = (b_flags (bufs k ! b) AND (B_VALID OR B_DIRTY)) AND B_DIRTY"
        by (simp add: and.assoc)
      then show False using that unfolding a by simp
    qed
    then show ?thesis using that assms s f by (simp add: iderw_def facts) (cases k, cases "bufs k ! b", simp add: upd_buf_def wakeup1_def)
  qed
qed

section \<open>The list of buffers\<close>

text \<open>Following the links from \<open>a\<close> through \<open>xs\<close> to \<open>z\<close>.\<close>

primrec chain :: "buf list \<Rightarrow> nat \<Rightarrow> nat list \<Rightarrow> nat \<Rightarrow> bool" where
  "chain bs a [] z \<longleftrightarrow> b_next (bs ! a) = z \<and> b_prev (bs ! z) = a"
| "chain bs a (x # xs) z \<longleftrightarrow> b_next (bs ! a) = x \<and> b_prev (bs ! x) = a \<and> chain bs x xs z"

definition lru :: "buf list \<Rightarrow> nat list \<Rightarrow> bool" where
  "lru bs xs \<longleftrightarrow> length bs = NBUF + 1 \<and> distinct xs \<and> set xs = {0..<NBUF} \<and> chain bs NBUF xs NBUF"

lemma chain_append: "chain bs a (us @ x # vs) z \<longleftrightarrow> chain bs a us x \<and> chain bs x vs z"
  by (induction us arbitrary: a) auto

lemma chain_cong:
  assumes "\<And>y. y \<in> set (a # xs) \<Longrightarrow> b_next (bs' ! y) = b_next (bs ! y)"
    and "\<And>y. y \<in> set (z # xs) \<Longrightarrow> b_prev (bs' ! y) = b_prev (bs ! y)"
  shows "chain bs' a xs z = chain bs a xs z"
  using assms by (induction xs arbitrary: a) auto

lemma chain_update:
  assumes "b_next x = b_next (bs ! b)" "b_prev x = b_prev (bs ! b)"
  shows "chain (bs[b := x]) a xs z = chain bs a xs z"
  using assms by (intro chain_cong) (cases "b < length bs"; auto simp: nth_list_update list_update_beyond)+

lemma lru_update:
  "b_next x = b_next (bs ! b) \<Longrightarrow> b_prev x = b_prev (bs ! b) \<Longrightarrow> lru (bs[b := x]) xs = lru bs xs"
  by (simp add: lru_def chain_update)

lemma bget_find_chain:
  assumes "chain bs a xs NBUF" "NBUF \<notin> set xs" "length xs < n"
  shows "bget_find n dev blockno (b_next (bs ! a)) bs = Ret (find (\<lambda>b. b_dev (bs ! b) = dev \<and> b_blockno (bs ! b) = blockno) xs)"
  using assms
proof (induction xs arbitrary: a n)
  case Nil
  then show ?case by (cases n) auto
next
  case (Cons x xs)
  then show ?case by (cases n) auto
qed

lemma bget_free_chain:
  assumes "chain bs NBUF xs z" "NBUF \<notin> set xs" "length xs < n"
  shows "bget_free n (b_prev (bs ! z)) bs =
    Ret (find (\<lambda>b. b_refcnt (bs ! b) = 0 \<and> b_flags (bs ! b) AND B_DIRTY = 0) (rev xs))"
  using assms
proof (induction xs arbitrary: z n rule: rev_induct)
  case Nil
  then show ?case by (cases n) auto
next
  case (snoc x xs)
  have c: "chain bs NBUF xs x" "b_prev (bs ! z) = x" using snoc.prems(1) chain_append [of bs NBUF xs x "[]" z] by auto
  obtain m where "n = Suc m" using snoc.prems(3) by (cases n) auto
  then show ?case using snoc.IH [OF c(1), of m] snoc.prems(2,3) c(2) by simp
qed

lemma find_perm_unique:
  assumes "set xs = set ys" "\<And>x y. x \<in> set xs \<Longrightarrow> y \<in> set xs \<Longrightarrow> P x \<Longrightarrow> P y \<Longrightarrow> x = y"
  shows "find P xs = find P ys"
proof (cases "find P xs")
  case None
  then show ?thesis using assms(1) by (simp add: find_None_iff) (metis find_None_iff)
next
  case (Some x)
  then have x: "x \<in> set xs" "P x" by (auto simp: find_Some_iff)
  show ?thesis
  proof (cases "find P ys")
    case None
    then show ?thesis using x assms(1) by (auto simp: find_None_iff)
  next
    case (Some y)
    then have "y \<in> set ys" "P y" by (auto simp: find_Some_iff)
    then show ?thesis using assms x \<open>find P xs = Some x\<close> Some by auto
  qed
qed

text \<open>Releasing a buffer moves it to the front.\<close>

definition to_front :: "nat \<Rightarrow> buf list \<Rightarrow> buf list" where
  "to_front b bs =
     (let bs = bs[b_next (bs ! b) := (bs ! b_next (bs ! b))\<lparr>b_prev := b_prev (bs ! b)\<rparr>];
          bs = bs[b_prev (bs ! b) := (bs ! b_prev (bs ! b))\<lparr>b_next := b_next (bs ! b)\<rparr>];
          bs = bs[b := (bs ! b)\<lparr>b_next := b_next (bs ! NBUF)\<rparr>];
          bs = bs[b := (bs ! b)\<lparr>b_prev := NBUF\<rparr>];
          bs = bs[b_next (bs ! NBUF) := (bs ! b_next (bs ! NBUF))\<lparr>b_prev := b\<rparr>]
      in bs[NBUF := (bs ! NBUF)\<lparr>b_next := b\<rparr>])"

primrec chainf :: "(nat \<Rightarrow> nat) \<Rightarrow> (nat \<Rightarrow> nat) \<Rightarrow> nat \<Rightarrow> nat list \<Rightarrow> nat \<Rightarrow> bool" where
  "chainf nx pv a [] z \<longleftrightarrow> nx a = z \<and> pv z = a"
| "chainf nx pv a (x # xs) z \<longleftrightarrow> nx a = x \<and> pv x = a \<and> chainf nx pv x xs z"

abbreviation (input) nexts :: "buf list \<Rightarrow> nat \<Rightarrow> nat" where "nexts bs \<equiv> \<lambda>y. b_next (bs ! y)"
abbreviation (input) prevs :: "buf list \<Rightarrow> nat \<Rightarrow> nat" where "prevs bs \<equiv> \<lambda>y. b_prev (bs ! y)"

lemma chain_chainf: "chain bs a xs z = chainf (nexts bs) (prevs bs) a xs z"
  by (induction xs arbitrary: a) auto

lemma chainf_frame:
  "i \<notin> set (a # xs) \<Longrightarrow> chainf (nx(i := v)) pv a xs z = chainf nx pv a xs z"
  "i \<notin> set (z # xs) \<Longrightarrow> chainf nx (pv(i := v)) a xs z = chainf nx pv a xs z"
  by (induction xs arbitrary: a) auto

lemma chainf_ends:
  "chainf nx pv a xs z \<Longrightarrow> nx a = hd (xs @ [z])" "chainf nx pv a xs z \<Longrightarrow> pv z = last (a # xs)"
  by (induction xs arbitrary: a) auto

lemma chainf_unlink:
  assumes "chainf nx pv a (us @ b # vs) z" "distinct (us @ b # vs)" "a \<notin> set (us @ b # vs)" "z \<notin> set (us @ b # vs)"
  shows "chainf (nx(pv b := nx b)) (pv(nx b := pv b)) a (us @ vs) z"
  using assms
proof (induction us arbitrary: a)
  case Nil
  then have b: "nx a = b" "pv b = a" "chainf nx pv b vs z" by auto
  show ?case
  proof (cases vs)
    case Nil
    then show ?thesis using b by auto
  next
    case (Cons v vs')
    then have v: "nx b = v" "pv v = b" "chainf nx pv v vs' z" using b(3) by auto
    have n: "a \<notin> set (v # vs')" "v \<notin> set (z # vs')" using Nil.prems Cons by auto
    have "chainf (nx(a := v)) (pv(v := a)) v vs' z"
      unfolding chainf_frame(1) [OF n(1)] chainf_frame(2) [OF n(2)] using v(3) .
    then show ?thesis using Cons b(2) v(1) by (simp del: fun_upd_apply add: fun_upd_same)
  qed
next
  case (Cons u us)
  have c: "nx a = u" "pv u = a" "chainf nx pv u (us @ b # vs) z" using Cons.prems(1) by auto
  have s: "chainf nx pv u us b" "chainf nx pv b vs z"
  proof -
    have "chainf nx pv u (us @ b # vs) z \<longleftrightarrow> chainf nx pv u us b \<and> chainf nx pv b vs z" for u
      by (induction us arbitrary: u) auto
    then show "chainf nx pv u us b" "chainf nx pv b vs z" using c(3) by auto
  qed
  have "pv b = last (u # us)" "nx b = hd (vs @ [z])" using chainf_ends s by blast+
  then have "pv b \<in> set (u # us)" "nx b \<in> set (vs @ [z])" by (metis last_in_set list.distinct(1), metis hd_in_set snoc_eq_iff_butlast)
  then have "pv b \<noteq> a" "nx b \<noteq> u" using Cons.prems by auto
  moreover have "chainf (nx(pv b := nx b)) (pv(nx b := pv b)) u (us @ vs) z"
    using Cons.prems by (intro Cons.IH [OF c(3)]) auto
  ultimately show ?case using c(1,2) by (simp del: fun_upd_apply add: fun_upd_other)
qed

lemma chainf_link:
  assumes "chainf nx pv h ys h" "b \<notin> set ys" "b \<noteq> h" "h \<notin> set ys" "distinct ys"
  shows "chainf (nx(b := nx h, h := b)) (pv(b := h, nx h := b)) h (b # ys) h"
proof (cases ys)
  case Nil
  then show ?thesis using assms by auto
next
  case (Cons y ys')
  then have y: "nx h = y" "pv y = h" "chainf nx pv y ys' h" using assms(1) by auto
  have n: "h \<notin> set (y # ys')" "b \<notin> set (y # ys')" "b \<notin> set (h # ys')" "y \<notin> set (h # ys')" using assms Cons by auto
  have "chainf (nx(b := y, h := b)) (pv(b := h, y := b)) y ys' h"
    unfolding chainf_frame(1) [OF n(1)] chainf_frame(1) [OF n(2)] chainf_frame(2) [OF n(4)] chainf_frame(2) [OF n(3)]
    using y(3) .
  moreover have "(nx(b := y, h := b)) b = y" "(pv(b := h, y := b)) b = h" using assms(3) n by auto
  ultimately show ?thesis using Cons y(1) by (simp del: fun_upd_apply add: fun_upd_same)
qed

lemma nexts_update:
  "i < length bs \<Longrightarrow> nexts (bs[i := x]) = (nexts bs)(i := b_next x)" "i < length bs \<Longrightarrow> prevs (bs[i := x]) = (prevs bs)(i := b_prev x)"
  by (auto simp: fun_eq_iff nth_list_update)

text \<open>Everything but the links.\<close>

definition content :: "buf \<Rightarrow> u32 \<times> u32 \<times> u32 \<times> u32 \<times> block" where
  "content x = (b_flags x, b_dev x, b_blockno x, b_refcnt x, b_data x)"

lemma content_update:
  "content x = content (bs ! i) \<Longrightarrow> content (bs[i := x] ! y) = content (bs ! y)"
  by (cases "i < length bs") (auto simp: nth_list_update list_update_beyond)

lemma content_links:
  "content (bs[i := (bs ! i)\<lparr>b_prev := v\<rparr>] ! y) = content (bs ! y)"
  "content (bs[i := (bs ! i)\<lparr>b_next := v\<rparr>] ! y) = content (bs ! y)"
  by (rule content_update, simp add: content_def)+

lemma to_front_content: "content (to_front b bs ! y) = content (bs ! y)"
  by (simp only: to_front_def Let_def content_links)

lemma to_front_lru:
  assumes "lru bs xs" "b < NBUF"
  shows "lru (to_front b bs) (b # remove1 b xs)"
proof -
  have l: "length bs = NBUF + 1" "distinct xs" "set xs = {0..<NBUF}" "chainf (nexts bs) (prevs bs) NBUF xs NBUF"
    using assms(1) by (simp_all add: lru_def chain_chainf)
  have "b \<in> set xs" using assms(2) l(3) by simp
  then obtain us vs where x: "xs = us @ b # vs" by (meson split_list)
  have b: "b \<notin> set us" "b \<notin> set vs" "NBUF \<notin> set us" "NBUF \<notin> set vs" "distinct (us @ vs)" "b \<noteq> NBUF"
    using l(2,3) assms(2) unfolding x by auto
  have r: "remove1 b xs = us @ vs" using b by (simp add: x remove1_append)
  have st: "set (us @ vs) = {0..<NBUF} - {b}" using l(2,3) unfolding x by auto
  note s = l(4) [unfolded x]
  let ?n = "b_next (bs ! b)" and ?p = "b_prev (bs ! b)"
  have unl: "chainf ((nexts bs)(?p := ?n)) ((prevs bs)(?n := ?p)) NBUF (us @ vs) NBUF"
    using l(2,3) b by (intro chainf_unlink [OF s]) (auto simp: x)
  have ends: "?p = last (NBUF # us)" "?n = hd (vs @ [NBUF])"
  proof -
    have "chain bs NBUF us b \<and> chain bs b vs NBUF" using s chain_append [of bs NBUF us b vs NBUF] by (simp add: chain_chainf)
    then show "?p = last (NBUF # us)" "?n = hd (vs @ [NBUF])" using chainf_ends unfolding chain_chainf by blast+
  qed
  then have "?p \<in> set (NBUF # us)" "?n \<in> set (vs @ [NBUF])" by (metis last_in_set list.distinct(1), metis hd_in_set snoc_eq_iff_butlast)
  moreover have lt: "y < NBUF" if "y \<in> set us \<or> y \<in> set vs" for y
  proof -
    have "y \<in> set xs" using that unfolding x by auto
    then show ?thesis using l(3) by simp
  qed
  ultimately have np: "?p < length bs" "?n < length bs" "?p \<noteq> b" "?n \<noteq> b" using l(1) b by fastforce+
  define nx1 pv1 where "nx1 = (nexts bs)(?p := ?n)" and "pv1 = (prevs bs)(?n := ?p)"
  have f: "nx1 NBUF = hd ((us @ vs) @ [NBUF])" using chainf_ends(1) [OF unl [folded nx1_def pv1_def]] .
  then have "nx1 NBUF \<in> set ((us @ vs) @ [NBUF])" by (metis hd_in_set snoc_eq_iff_butlast)
  then have "nx1 NBUF \<in> set us \<or> nx1 NBUF \<in> set vs \<or> nx1 NBUF = NBUF" by auto
  then have fl: "nx1 NBUF < length bs" "nx1 NBUF \<noteq> b" using lt [of "nx1 NBUF"] l(1) b(1,2,6) by (elim disjE; auto)+
  have link: "chainf (nx1(b := nx1 NBUF, NBUF := b)) (pv1(b := NBUF, nx1 NBUF := b)) NBUF (b # us @ vs) NBUF"
    using b by (intro chainf_link [OF unl [folded nx1_def pv1_def]]) auto
  define bs1 where "bs1 = bs[?n := (bs ! ?n)\<lparr>b_prev := ?p\<rparr>]"
  define bs2 where "bs2 = bs1[b_prev (bs1 ! b) := (bs1 ! b_prev (bs1 ! b))\<lparr>b_next := b_next (bs1 ! b)\<rparr>]"
  define bs3 where "bs3 = bs2[b := (bs2 ! b)\<lparr>b_next := b_next (bs2 ! NBUF)\<rparr>]"
  define bs4 where "bs4 = bs3[b := (bs3 ! b)\<lparr>b_prev := NBUF\<rparr>]"
  define bs5 where "bs5 = bs4[b_next (bs4 ! NBUF) := (bs4 ! b_next (bs4 ! NBUF))\<lparr>b_prev := b\<rparr>]"
  define bs6 where "bs6 = bs5[NBUF := (bs5 ! NBUF)\<lparr>b_next := b\<rparr>]"
  have tf: "to_front b bs = bs6"
    by (simp add: to_front_def Let_def bs6_def bs5_def bs4_def bs3_def bs2_def bs1_def)
  have e1: "bs1 ! b = bs ! b" "length bs1 = length bs" using np by (simp_all add: bs1_def)
  have n1: "nexts bs1 = nexts bs" "prevs bs1 = pv1"
    using np by (auto simp: bs1_def fun_eq_iff nth_list_update pv1_def)
  have n2: "nexts bs2 = nx1" "prevs bs2 = pv1" "length bs2 = length bs"
    using np e1 n1 by (auto simp: bs2_def fun_eq_iff nth_list_update nx1_def)
  have bl: "b < length bs" "NBUF < length bs" using assms(2) l(1) by simp_all
  have n3: "nexts bs3 = nx1(b := nx1 NBUF)" "prevs bs3 = pv1" "length bs3 = length bs"
    using bl n2 by (auto simp: bs3_def fun_eq_iff nth_list_update)
  have n4: "nexts bs4 = nx1(b := nx1 NBUF)" "prevs bs4 = pv1(b := NBUF)" "length bs4 = length bs"
    using bl n3 by (auto simp: bs4_def fun_eq_iff nth_list_update)
  have h4: "b_next (bs4 ! NBUF) = nx1 NBUF" using fun_cong [OF n4(1), of NBUF] b(6) by simp
  have n5: "nexts bs5 = nx1(b := nx1 NBUF)" "prevs bs5 = pv1(b := NBUF, nx1 NBUF := b)" "length bs5 = length bs"
    using fl(1) n4 h4 by (auto simp: bs5_def fun_eq_iff nth_list_update)
  have n6: "nexts bs6 = nx1(b := nx1 NBUF, NBUF := b)" "prevs bs6 = pv1(b := NBUF, nx1 NBUF := b)" "length bs6 = length bs"
    using bl n5 by (auto simp: bs6_def fun_eq_iff nth_list_update)
  have "chain bs6 NBUF (b # us @ vs) NBUF" unfolding chain_chainf n6 using link .
  then show ?thesis
    unfolding lru_def tf r using n6(3) l(1) b st assms(2) by auto
qed

end
