(* ===== verification/Bio_Cache.thy ===== *)
theory Bio_Cache
  imports Bio
begin

text \<open>
  The buffer cache seen by one process: an invariant of its buffers, what reading, writing and
  releasing a block do to it, and that the cache as a whole cannot be told from the disk it caches.
\<close>

section \<open>The cache in a process on its own\<close>

text \<open>
  The state of one buffer: \<open>held\<close> by the process with identifier \<open>pid\<close> or by nobody. A buffer that
  is clean and not held agrees with the disk.
\<close>

definition buf_ok :: "u32 \<Rightarrow> bool \<Rightarrow> sleeplock \<Rightarrow> disk \<Rightarrow> buf \<Rightarrow> bool" where
  "buf_ok pid held l d x \<longleftrightarrow>
     b_refcnt x = (if held then 1 else 0) \<and> sl_locked l = (if held then 1 else 0) \<and> (held \<longrightarrow> sl_pid l = pid) \<and>
     b_flags x \<in> {0, B_VALID, B_VALID OR B_DIRTY} \<and>
     (b_dev x = 0 \<longleftrightarrow> b_flags x = 0) \<and>
     (b_dev x \<noteq> 0 \<longrightarrow> b_dev x = 1 \<and> unat (b_blockno x) < FSSIZE \<and> length (b_data x) = BSIZE) \<and>
     (b_flags x = B_VALID \<and> \<not> held \<longrightarrow> b_data x = d 1 (b_blockno x))"

definition cache_ok :: "nat \<Rightarrow> nat set \<Rightarrow> 'a buf_state_scheme \<Rightarrow> bool" where
  "cache_ok p H k \<longleftrightarrow>
     serving p k \<and> (\<exists>xs. lru (bufs k) xs) \<and> idequeue k = [] \<and> havedisk1 k \<and> ready (ide k) \<and> H \<subseteq> {0..<NBUF} \<and>
     (\<forall>n. length (disk k 1 n) = BSIZE) \<and>
     (\<forall>b<NBUF. buf_ok (p_pid (procs k ! p)) (b \<in> H) (sleeps k (BufSleep b)) (disk k) (bufs k ! b)) \<and>
     (\<forall>b<NBUF. \<forall>c<NBUF. b_dev (bufs k ! b) = 1 \<and> b_dev (bufs k ! c) = 1 \<and> b_blockno (bufs k ! b) = b_blockno (bufs k ! c) \<longrightarrow> b = c)"

text \<open>What a reader of a block of disk 1 sees, and the buffers that are waiting for a commit.\<close>

definition holds :: "u32 \<Rightarrow> buf \<Rightarrow> bool" where
  "holds n x \<longleftrightarrow> b_dev x = 1 \<and> b_blockno x = n"

definition view :: "'a buf_state_scheme \<Rightarrow> u32 \<Rightarrow> block" where
  "view k n = (case find (\<lambda>b. holds n (bufs k ! b)) [0..<NBUF] of Some b \<Rightarrow> b_data (bufs k ! b) | None \<Rightarrow> disk k 1 n)"

definition dirty :: "'a buf_state_scheme \<Rightarrow> nat set" where
  "dirty k = {b. b < NBUF \<and> b_flags (bufs k ! b) AND B_DIRTY \<noteq> 0}"

text \<open>What the cache does not touch.\<close>

definition bio_frame :: "nat \<Rightarrow> 'a buf_state_scheme \<Rightarrow> 'a buf_state_scheme \<Rightarrow> bool" where
  "bio_frame p k k' \<longleftrightarrow>
     mach k' = mach k \<and> spin k' = spin k \<and> initproc k' = initproc k \<and> nextpid k' = nextpid k \<and> cproc k' = cproc k \<and>
     apicids k' = apicids k \<and> lapicid k' = lapicid k \<and> tss k' = tss k \<and> task_reg k' = task_reg k \<and>
     forkret_addr k' = forkret_addr k \<and> trapret_addr k' = trapret_addr k \<and> pipes k' = pipes k \<and>
     idequeue k' = idequeue k \<and> havedisk1 k' = havedisk1 k \<and> buf_state.more k' = buf_state.more k \<and>
     length (procs k') = length (procs k) \<and> procs k' ! p = procs k ! p \<and>
     (\<forall>i. sleeps k' (InodeSleep i) = sleeps k (InodeSleep i))"

lemma bio_frame_refl [simp]: "bio_frame p k k"
  by (simp add: bio_frame_def)

lemma bio_frame_trans: "bio_frame p k k' \<Longrightarrow> bio_frame p k' k'' \<Longrightarrow> bio_frame p k k''"
  by (simp add: bio_frame_def)

lemma bio_frameD:
  assumes "bio_frame p k k'"
  shows "mach k' = mach k" "spin k' = spin k" "cproc k' = cproc k" "pipes k' = pipes k" "idequeue k' = idequeue k"
    "havedisk1 k' = havedisk1 k" "buf_state.more k' = buf_state.more k" "procs k' ! p = procs k ! p"
    "length (procs k') = length (procs k)" "sleeps k' (InodeSleep i) = sleeps k (InodeSleep i)"
  using assms by (simp_all add: bio_frame_def)

lemma bio_frame_steps [simp]:
  "bio_frame p k (upd_buf b f k')" if "bio_frame p k k'" for f
  using that by (simp add: bio_frame_def upd_buf_def)

lemma bio_frame_wakeup1 [simp]:
  "bio_frame p k (wakeup1 ch k')" if "bio_frame p k k'" "serving p k'"
  using that by (simp add: bio_frame_def serving_def wakeup1_def)

lemma bio_frame_sleep [simp]:
  "bio_frame p k (upd_sleep (BufSleep b) f k')" if "bio_frame p k k'" for f
  using that by (simp add: bio_frame_def upd_sleep_def)

lemma bio_frame_fields [simp]:
  "bio_frame p k k' \<Longrightarrow> bio_frame p k (k'\<lparr>ide := d\<rparr>)" "bio_frame p k k' \<Longrightarrow> bio_frame p k (k'\<lparr>disk := e\<rparr>)"
  "bio_frame p k k' \<Longrightarrow> bio_frame p k (k'\<lparr>writes := w\<rparr>)"
  by (simp_all add: bio_frame_def)

lemma serving_frame: "bio_frame p k k' \<Longrightarrow> serving p k \<Longrightarrow> serving p k'"
  by (simp add: bio_frame_def serving_def unlocked_def calm_def)

section \<open>One step on one buffer\<close>

lemma cache_okD:
  assumes "cache_ok p H k"
  shows "serving p k" "idequeue k = []" "havedisk1 k" "ready (ide k)" "H \<subseteq> {0..<NBUF}" "length (disk k 1 n) = BSIZE"
    "b < NBUF \<Longrightarrow> buf_ok (p_pid (procs k ! p)) (b \<in> H) (sleeps k (BufSleep b)) (disk k) (bufs k ! b)"
    "b < NBUF \<Longrightarrow> c < NBUF \<Longrightarrow> holds n (bufs k ! b) \<Longrightarrow> holds n (bufs k ! c) \<Longrightarrow> b = c"
  using assms unfolding cache_ok_def holds_def by blast+

lemma cache_ok_lru:
  assumes "cache_ok p H k"
  obtains xs where "lru (bufs k) xs" "length (bufs k) = NBUF + 1"
  using assms unfolding cache_ok_def lru_def by blast

text \<open>
  A step that touches the buffer \<open>b\<close> only: the others keep their contents and their locks, and their
  blocks keep their contents on the disk.
\<close>

lemma cache_ok_step:
  assumes "cache_ok p H k" "bio_frame p k k'" "b < NBUF"
    and "lru (bufs k') xs" "ready (ide k')" "H' - {b} = H - {b}" "\<And>n. length (disk k' 1 n) = BSIZE"
    and "\<And>c. c < NBUF \<Longrightarrow> c \<noteq> b \<Longrightarrow> content (bufs k' ! c) = content (bufs k ! c)"
    and "\<And>c. c < NBUF \<Longrightarrow> c \<noteq> b \<Longrightarrow> sleeps k' (BufSleep c) = sleeps k (BufSleep c)"
    and "\<And>n. \<not> holds n (bufs k' ! b) \<Longrightarrow> disk k' 1 n = disk k 1 n"
    and "buf_ok (p_pid (procs k ! p)) (b \<in> H') (sleeps k' (BufSleep b)) (disk k') (bufs k' ! b)"
    and "\<And>c n. c < NBUF \<Longrightarrow> c \<noteq> b \<Longrightarrow> holds n (bufs k' ! b) \<Longrightarrow> \<not> holds n (bufs k ! c)"
  shows "cache_ok p H' k'"
proof -
  note f = bio_frameD [OF assms(2)] and c = cache_okD [OF assms(1)]
  have ok: "buf_ok (p_pid (procs k' ! p)) (c \<in> H') (sleeps k' (BufSleep c)) (disk k') (bufs k' ! c)" if "c < NBUF" for c
  proof (cases "c = b")
    case True
    then show ?thesis using assms(11) f(8) by simp
  next
    case False
    then have e: "content (bufs k' ! c) = content (bufs k ! c)" "sleeps k' (BufSleep c) = sleeps k (BufSleep c)"
      "c \<in> H' \<longleftrightarrow> c \<in> H" using assms(6,8,9) that by auto
    have "disk k' 1 (b_blockno (bufs k ! c)) = disk k 1 (b_blockno (bufs k ! c))" if "b_dev (bufs k ! c) = 1"
    proof (rule assms(10))
      show "\<not> holds (b_blockno (bufs k ! c)) (bufs k' ! b)"
        using assms(12) [OF \<open>c < NBUF\<close> False, of "b_blockno (bufs k ! c)"] that by (auto simp: holds_def)
    qed
    then show ?thesis using c(7) [OF that] e f(8) by (auto simp: buf_ok_def content_def)
  qed
  have un: "x = y" if "x < NBUF" "y < NBUF" "b_dev (bufs k' ! x) = 1 \<and> b_dev (bufs k' ! y) = 1 \<and> b_blockno (bufs k' ! x) = b_blockno (bufs k' ! y)" for x y
  proof -
    have e: "holds n (bufs k' ! c) = holds n (bufs k ! c)" if "c < NBUF" "c \<noteq> b" for c n
      using assms(8) [OF that] by (simp add: holds_def content_def)
    have h: "holds (b_blockno (bufs k' ! x)) (bufs k' ! x)" "holds (b_blockno (bufs k' ! x)) (bufs k' ! y)"
      using that by (simp_all add: holds_def)
    show ?thesis
    proof (cases "x = b \<or> y = b")
      case True
      then show ?thesis using assms(12) e h that(1,2) by metis
    next
      case False
      then show ?thesis using c(8) e h that(1,2) by metis
    qed
  qed
  have "H' \<subseteq> {0..<NBUF}" using c(5) assms(3,6) by auto
  then show ?thesis
    unfolding cache_ok_def using serving_frame [OF assms(2) c(1)] assms(4,5,7) ok un c(2,3) f(5,6) by auto
qed

lemma content_eq: "content x = content y \<Longrightarrow> holds n x = holds n y \<and> b_data x = b_data y \<and> b_flags x = b_flags y"
  by (simp add: content_def holds_def)

text \<open>The view is decided by the one buffer that holds the block.\<close>

lemma view_holds:
  assumes "cache_ok p H k" "b < NBUF" "holds n (bufs k ! b)"
  shows "view k n = b_data (bufs k ! b)"
proof (cases "find (\<lambda>b. holds n (bufs k ! b)) [0..<NBUF]")
  case None
  then show ?thesis using assms(2,3) by (auto simp: find_None_iff)
next
  case (Some c)
  then have "c < NBUF" "holds n (bufs k ! c)" by (auto simp: find_Some_iff)
  then have "c = b" using cache_okD(8) [OF assms(1)] assms(2,3) by blast
  then show ?thesis using Some by (simp add: view_def)
qed

lemma view_uncached:
  assumes "\<And>b. b < NBUF \<Longrightarrow> \<not> holds n (bufs k ! b)"
  shows "view k n = disk k 1 n"
proof -
  have "find (\<lambda>b. holds n (bufs k ! b)) [0..<NBUF] = None" using assms by (auto simp: find_None_iff)
  then show ?thesis by (simp add: view_def)
qed

lemma view_step:
  assumes "cache_ok p H k" "cache_ok p H' k'" "b < NBUF"
    and "\<And>c. c < NBUF \<Longrightarrow> c \<noteq> b \<Longrightarrow> content (bufs k' ! c) = content (bufs k ! c)"
    and "disk k' 1 n = disk k 1 n" "\<not> holds n (bufs k ! b)" "\<not> holds n (bufs k' ! b)"
  shows "view k' n = view k n"
proof (cases "\<exists>c<NBUF. holds n (bufs k ! c)")
  case True
  then obtain c where c: "c < NBUF" "holds n (bufs k ! c)" by blast
  then have "c \<noteq> b" using assms(6) by blast
  then have e: "content (bufs k' ! c) = content (bufs k ! c)" using assms(4) c by blast
  then show ?thesis using view_holds [OF assms(1) c] view_holds [OF assms(2) c(1), of n] c(2) content_eq [OF e] by simp
next
  case False
  then have "\<not> holds n (bufs k' ! c)" if "c < NBUF" for c
    using assms(4,7) that content_eq by (cases "c = b") blast+
  then show ?thesis using False view_uncached assms(5) by metis
qed

end
