(* ===== verification/Bio_Ops.thy ===== *)
theory Bio_Ops
  imports Bio_Cache
begin

text \<open>
  What \<open>bread\<close>, \<open>bwrite\<close> and \<open>brelse\<close> do to the cache, in terms of the blocks a reader sees.
\<close>

section \<open>Reading a block\<close>

lemma find_unique:
  assumes "b \<in> set xs" "P b" "\<And>c. c \<in> set xs \<Longrightarrow> P c \<Longrightarrow> c = b"
  shows "find P xs = Some b"
proof (cases "find P xs")
  case None
  then show ?thesis using assms(1,2) by (auto simp: find_None_iff)
next
  case (Some c)
  then have "c \<in> set xs" "P c" by (auto simp: find_Some_iff)
  then have "c = b" by (rule assms(3))
  then show ?thesis using Some by simp
qed

lemma bget_find_lru:
  assumes "lru bs xs"
  shows "bget_find (NBUF + 1) 1 n (b_next (bs ! NBUF)) bs = Ret (find (\<lambda>b. holds n (bs ! b)) xs)"
proof -
  have x: "length bs = NBUF + 1" "distinct xs" "set xs = {0..<NBUF}" "chain bs NBUF xs NBUF"
    using assms by (simp_all add: lru_def)
  have "length xs = NBUF" using distinct_card [OF x(2)] x(3) by simp
  moreover have "NBUF \<notin> set xs" unfolding x(3) by simp
  ultimately show ?thesis unfolding holds_def by (intro bget_find_chain [OF x(4)]) simp_all
qed

lemma bget_free_lru:
  assumes "lru bs xs"
  shows "bget_free (NBUF + 1) (b_prev (bs ! NBUF)) bs =
    Ret (find (\<lambda>b. b_refcnt (bs ! b) = 0 \<and> b_flags (bs ! b) AND B_DIRTY = 0) (rev xs))"
proof -
  have x: "length bs = NBUF + 1" "distinct xs" "set xs = {0..<NBUF}" "chain bs NBUF xs NBUF"
    using assms by (simp_all add: lru_def)
  have "length xs = NBUF" using distinct_card [OF x(2)] x(3) by simp
  moreover have "NBUF \<notin> set xs" unfolding x(3) by simp
  ultimately show ?thesis by (intro bget_free_chain [OF x(4)]) simp_all
qed

lemma bget_hit:
  assumes "cache_ok p H k" "b < NBUF" "holds n (bufs k ! b)" "b \<notin> H"
  shows "bget 1 n k = Ret (b, taken p (BufSleep b) (upd_buf b (b_refcnt_update (\<lambda>n. n + 1)) k))"
proof -
  note c = cache_okD [OF assms(1)]
  obtain xs where l: "lru (bufs k) xs" using cache_ok_lru [OF assms(1)] .
  then have x: "set xs = {0..<NBUF}" by (simp add: lru_def)
  have "find (\<lambda>b. holds n (bufs k ! b)) xs = Some b"
  proof (rule find_unique)
    show "b \<in> set xs" unfolding x using assms(2) by simp
    show "d = b" if "d \<in> set xs" "holds n (bufs k ! d)" for d
      using that(1) unfolding x by (intro c(8) [OF _ assms(2) that(2) assms(3)]) simp
  qed (rule assms(3))
  then have f: "bget_find (NBUF + 1) 1 n (b_next (bufs k ! NBUF)) (bufs k) = Ret (Some b)" using bget_find_lru [OF l] by simp
  have "sl_locked (sleeps k (BufSleep b)) = 0" using c(7) [OF assms(2)] assms(4) by (simp add: buf_ok_def)
  then show ?thesis
    using servingD [OF c(1)] f acquiresleep_free [of p "upd_buf b (b_refcnt_update (\<lambda>n. n + 1)) k" "BufSleep b"] c(1)
    by (simp add: bget_def acquirek_calm Let_def)
qed

lemma bget_miss:
  assumes "cache_ok p H k" "\<And>b. b < NBUF \<Longrightarrow> \<not> holds n (bufs k ! b)" "card (H \<union> dirty k) < NBUF"
  obtains b where "b < NBUF" "b \<notin> H" "b \<notin> dirty k"
    "bget 1 n k = Ret (b, taken p (BufSleep b) (upd_buf b (\<lambda>x. x\<lparr>b_dev := 1, b_blockno := n, b_flags := 0, b_refcnt := 1\<rparr>) k))"
proof -
  note c = cache_okD [OF assms(1)]
  obtain xs where l: "lru (bufs k) xs" using cache_ok_lru [OF assms(1)] .
  then have x: "set xs = {0..<NBUF}" by (simp add: lru_def)
  have "find (\<lambda>b. holds n (bufs k ! b)) xs = None" using x assms(2) by (auto simp: find_None_iff)
  then have f: "bget_find (NBUF + 1) 1 n (b_next (bufs k ! NBUF)) (bufs k) = Ret None" using bget_find_lru [OF l] by simp
  let ?P = "\<lambda>b. b_refcnt (bufs k ! b) = 0 \<and> b_flags (bufs k ! b) AND B_DIRTY = 0"
  have fr: "?P b \<longleftrightarrow> b \<notin> H \<and> b \<notin> dirty k" if "b < NBUF" for b
    using c(7) [OF that] that by (auto simp: buf_ok_def dirty_def split: if_splits)
  have "\<exists>b<NBUF. b \<notin> H \<union> dirty k"
  proof (rule ccontr)
    assume "\<not> ?thesis"
    then have "{0..<NBUF} \<subseteq> H \<union> dirty k" by auto
    moreover have "H \<union> dirty k \<subseteq> {0..<NBUF}" using c(5) by (auto simp: dirty_def)
    ultimately have "H \<union> dirty k = {0..<NBUF}" by (rule subset_antisym [rotated])
    then show False using assms(3) by simp
  qed
  then obtain b0 where b0: "b0 < NBUF" "?P b0" using fr by blast
  then obtain b where b: "find ?P (rev xs) = Some b"
    using x find_None_iff [of ?P "rev xs"] by (cases "find ?P (rev xs)") auto
  then have "b \<in> set xs" and P: "?P b" using find_Some_iff [of ?P "rev xs" b] by (metis nth_mem set_rev, metis)
  then have bl: "b < NBUF" using x by simp
  have g: "bget_free (NBUF + 1) (b_prev (bufs k ! NBUF)) (bufs k) = Ret (Some b)" using bget_free_lru [OF l] b by simp
  have nb: "b \<notin> H" "b \<notin> dirty k" using fr [OF bl] P by blast+
  have "sl_locked (sleeps k (BufSleep b)) = 0" using c(7) [OF bl] nb by (simp add: buf_ok_def)
  then have "bget 1 n k = Ret (b, taken p (BufSleep b) (upd_buf b (\<lambda>x. x\<lparr>b_dev := 1, b_blockno := n, b_flags := 0, b_refcnt := 1\<rparr>) k))"
    using servingD [OF c(1)] f g c(1)
      acquiresleep_free [of p "upd_buf b (\<lambda>x. x\<lparr>b_dev := 1, b_blockno := n, b_flags := 0, b_refcnt := 1\<rparr>) k" "BufSleep b"]
    by (simp add: bget_def acquirek_calm Let_def)
  then show ?thesis using bl nb that by blast
qed


text \<open>What reading block \<open>n\<close> into the buffer \<open>b\<close> gives.\<close>

definition got :: "nat \<Rightarrow> nat set \<Rightarrow> 'a buf_state_scheme \<Rightarrow> u32 \<Rightarrow> nat \<Rightarrow> 'a buf_state_scheme \<Rightarrow> bool" where
  "got p H k n b k' \<longleftrightarrow>
     cache_ok p (insert b H) k' \<and> b < NBUF \<and> b \<notin> H \<and> holds n (bufs k' ! b) \<and> b_data (bufs k' ! b) = view k n \<and>
     view k' = view k \<and> disk k' = disk k \<and> writes k' = writes k \<and> dirty k' = dirty k \<and>
     (b \<notin> dirty k \<longrightarrow> view k n = disk k 1 n) \<and>
     (\<forall>c. c \<noteq> b \<longrightarrow> content (bufs k' ! c) = content (bufs k ! c)) \<and> (b \<in> dirty k \<longrightarrow> holds n (bufs k ! b)) \<and> bio_frame p k k'"

lemma taken_simps [simp]:
  "bufs (taken p i k) = bufs k" "disk (taken p i k) = disk k" "writes (taken p i k) = writes k" "ide (taken p i k) = ide k"
  "procs (taken p i k) = procs k" "serving p (taken p i k) = serving p k" "idequeue (taken p i k) = idequeue k" "havedisk1 (taken p i k) = havedisk1 k"
  "sleeps (taken p i k) = (sleeps k)(i := (sleeps k i)\<lparr>sl_locked := 1, sl_pid := p_pid (procs k ! p)\<rparr>)"
  "bio_frame p k0 k \<Longrightarrow> bio_frame p k0 (taken p (BufSleep b) k)"
  by (simp_all add: taken_def)

lemma buf_flag_tests [simp]:
  "(B_VALID OR B_DIRTY) AND B_VALID \<noteq> 0" "(B_VALID OR B_DIRTY) AND B_DIRTY \<noteq> 0"
  by simp_all

lemma dirty_step:
  assumes "\<And>c. c < NBUF \<Longrightarrow> c \<noteq> b \<Longrightarrow> content (bufs k' ! c) = content (bufs k ! c)" "b < NBUF"
  shows "dirty k' = (if b_flags (bufs k' ! b) AND B_DIRTY \<noteq> 0 then insert b (dirty k) else dirty k - {b})"
proof (rule set_eqI)
  fix c
  show "c \<in> dirty k' \<longleftrightarrow> c \<in> (if b_flags (bufs k' ! b) AND B_DIRTY \<noteq> 0 then insert b (dirty k) else dirty k - {b})"
  proof (cases "c = b")
    case False
    then have "c < NBUF \<Longrightarrow> b_flags (bufs k' ! c) = b_flags (bufs k ! c)" using assms(1) [of c] content_eq by blast
    then show ?thesis using False by (auto simp: dirty_def)
  qed (use assms(2) in \<open>auto simp: dirty_def\<close>)
qed

lemma bread_hit:
  assumes "cache_ok p H k" "b < NBUF" "holds n (bufs k ! b)" "b \<notin> H"
  shows "\<exists>k'. bread 1 n k = Ret (b, k') \<and> got p H k n b k'"
proof -
  note c = cache_okD [OF assms(1)] and o = cache_okD(7) [OF assms(1,2)]
  obtain xs where l: "lru (bufs k) xs" "length (bufs k) = NBUF + 1" using cache_ok_lru [OF assms(1)] .
  let ?k = "taken p (BufSleep b) (upd_buf b (b_refcnt_update (\<lambda>n. n + 1)) k)"
  have bb: "bufs ?k ! b = (bufs k ! b)\<lparr>b_refcnt := b_refcnt (bufs k ! b) + 1\<rparr>" using assms(2) l(2) by simp
  have "b_flags (bufs k ! b) \<in> {B_VALID, B_VALID OR B_DIRTY}" using o assms(3) by (auto simp: buf_ok_def holds_def)
  then have "bread 1 n k = Ret (b, ?k)"
    using bget_hit [OF assms] bb by (auto simp: bread_def)
  moreover have fr: "bio_frame p k ?k" by simp
  moreover have ct: "content (bufs ?k ! d) = content (bufs k ! d)" if "d \<noteq> b" for d using that by simp
  moreover have ok: "cache_ok p (insert b H) ?k"
  proof (rule cache_ok_step [OF assms(1) fr assms(2)])
    show "lru (bufs ?k) xs" using l(1) by (simp add: lru_update)
    show "buf_ok (p_pid (procs k ! p)) (b \<in> insert b H) (sleeps ?k (BufSleep b)) (disk ?k) (bufs ?k ! b)"
      using o assms(2,4) l(2) by (simp add: buf_ok_def)
    show "\<not> holds m (bufs k ! d)" if "d < NBUF" "d \<noteq> b" "holds m (bufs ?k ! b)" for d m
      using that c(8) [OF that(1) assms(2), of m] bb by (auto simp: holds_def)
  qed (use c assms(4) in auto)
  moreover have hb: "holds m (bufs ?k ! b) = holds m (bufs k ! b)" for m using bb by (simp add: holds_def)
  moreover have vw: "view ?k m = view k m" for m
  proof (cases "holds m (bufs k ! b)")
    case True
    then show ?thesis using view_holds [OF assms(1,2) True] view_holds [OF ok assms(2), of m] hb bb by simp
  next
    case False
    then show ?thesis using ct hb by (intro view_step [OF assms(1) ok assms(2)]) auto
  qed
  moreover have "dirty ?k = dirty k" using dirty_step [of b ?k k, OF ct assms(2)] bb assms(2) by (auto simp: dirty_def)
  moreover have "view k n = disk k 1 n" if "b \<notin> dirty k"
  proof -
    have "b_flags (bufs k ! b) = B_VALID" using that o assms(2,3) by (auto simp: buf_ok_def holds_def dirty_def)
    then show ?thesis using o view_holds [OF assms(1-3)] assms(3,4) by (simp add: buf_ok_def holds_def)
  qed
  moreover have "\<forall>c. c \<noteq> b \<longrightarrow> content (bufs ?k ! c) = content (bufs k ! c)" by (intro allI impI ct)
  ultimately have "got p H k n b ?k"
    using assms view_holds [OF assms(1-3)] bb unfolding got_def by (auto simp: fun_eq_iff)
  then show ?thesis using \<open>bread 1 n k = Ret (b, ?k)\<close> by blast
qed


lemma bread_miss:
  assumes "cache_ok p H k" "\<And>b. b < NBUF \<Longrightarrow> \<not> holds n (bufs k ! b)" "card (H \<union> dirty k) < NBUF" "unat n < FSSIZE"
  shows "\<exists>b k'. bread 1 n k = Ret (b, k') \<and> got p H k n b k'"
proof -
  note c = cache_okD [OF assms(1)]
  obtain xs where l: "lru (bufs k) xs" "length (bufs k) = NBUF + 1" using cache_ok_lru [OF assms(1)] .
  obtain b where b: "b < NBUF" "b \<notin> H" "b \<notin> dirty k"
    "bget 1 n k = Ret (b, taken p (BufSleep b) (upd_buf b (\<lambda>x. x\<lparr>b_dev := 1, b_blockno := n, b_flags := 0, b_refcnt := 1\<rparr>) k))"
    using bget_miss [OF assms(1-3)] .
  let ?k1 = "taken p (BufSleep b) (upd_buf b (\<lambda>x. x\<lparr>b_dev := 1, b_blockno := n, b_flags := 0, b_refcnt := 1\<rparr>) k)"
  note o = c(7) [OF b(1)]
  have b1: "bufs ?k1 ! b = (bufs k ! b)\<lparr>b_dev := 1, b_blockno := n, b_flags := 0, b_refcnt := 1\<rparr>" using b(1) l(2) by simp
  define k' where "k' = wakeup1 (BufChan b)
      (upd_buf b (\<lambda>x. x\<lparr>b_flags := B_VALID, b_data := disk ?k1 1 (b_blockno x)\<rparr>)
        (?k1\<lparr>ide := (select 1 (b_blockno (bufs ?k1 ! b)) (ide ?k1))\<lparr>command := IDE_CMD_READ\<rparr>\<rparr>))"
  have "iderw b ?k1 = Ret k'" unfolding k'_def
    using b1 b(1) l(2) c assms(4) by (intro iderw_serving(1)) auto
  then have rd: "bread 1 n k = Ret (b, k')" using b(4) b1 by (simp add: bread_def)
  have fr: "bio_frame p k k'" unfolding k'_def using c(1) by simp
  have bb: "bufs k' ! b = (bufs k ! b)\<lparr>b_dev := 1, b_blockno := n, b_flags := B_VALID, b_refcnt := 1, b_data := disk k 1 n\<rparr>"
    using b(1) l(2) by (simp add: k'_def)
  have ct: "content (bufs k' ! d) = content (bufs k ! d)" if "d \<noteq> b" for d using that by (simp add: k'_def)
  have dk: "disk k' = disk k" "writes k' = writes k" by (simp_all add: k'_def)
  have ok: "cache_ok p (insert b H) k'"
  proof (rule cache_ok_step [OF assms(1) fr b(1)])
    show "lru (bufs k') xs" using l b(1) by (simp add: k'_def lru_update)
    show "buf_ok (p_pid (procs k ! p)) (b \<in> insert b H) (sleeps k' (BufSleep b)) (disk k') (bufs k' ! b)"
      unfolding bb using assms(4) c(6) by (simp add: buf_ok_def k'_def)
    show "\<not> holds m (bufs k ! d)" if "d < NBUF" "d \<noteq> b" "holds m (bufs k' ! b)" for d m
      using that assms(2) bb by (auto simp: holds_def)
  qed (use c ct dk b(2) in \<open>auto simp: k'_def\<close>)
  have vn: "view k n = disk k 1 n" by (rule view_uncached) (rule assms(2))
  have hb: "holds m (bufs k' ! b) \<longleftrightarrow> m = n" for m using bb by (auto simp: holds_def)
  have vw: "view k' m = view k m" for m
  proof (cases "holds m (bufs k' ! b)")
    case True
    then show ?thesis using view_holds [OF ok b(1) True] vn hb bb by simp
  next
    case False
    show ?thesis
    proof (cases "holds m (bufs k ! b)")
      case True
      have m: "b_flags (bufs k ! b) = B_VALID" using o b(1,3) True by (auto simp: buf_ok_def holds_def dirty_def)
      have "\<not> holds m (bufs k' ! d)" if "d < NBUF" for d
      proof (cases "d = b")
        case False
        then show ?thesis using ct [OF False] c(8) [OF that b(1) _ True] content_eq by blast
      qed (use \<open>\<not> holds m (bufs k' ! b)\<close> in simp)
      then have "view k' m = disk k 1 m" using view_uncached [of m k'] dk by simp
      then show ?thesis using view_holds [OF assms(1) b(1) True] o m b(2) True by (simp add: buf_ok_def holds_def)
    next
      case F: False
      then show ?thesis using ct dk False by (intro view_step [OF assms(1) ok b(1)]) auto
    qed
  qed
  have "dirty k' = dirty k" using dirty_step [of b k' k, OF ct b(1)] bb b(3) by simp
  moreover have "\<forall>c. c \<noteq> b \<longrightarrow> content (bufs k' ! c) = content (bufs k ! c)" by (intro allI impI ct)
  moreover have "view k' = view k" using vw by blast
  ultimately have "got p H k n b k'" unfolding got_def using ok b fr hb bb dk vn by auto
  then show ?thesis using rd by blast
qed

text \<open>
  A read returns unless the process already holds the block (it would wait for itself) or all
  buffers are in use or dirty.
\<close>

lemma bread_ok:
  assumes "cache_ok p H k" "unat n < FSSIZE" "\<And>b. b \<in> H \<Longrightarrow> \<not> holds n (bufs k ! b)" "card (H \<union> dirty k) < NBUF"
  obtains b k' where "bread 1 n k = Ret (b, k')" "got p H k n b k'"
proof (cases "\<exists>b<NBUF. holds n (bufs k ! b)")
  case True
  then show ?thesis using bread_hit [OF assms(1)] assms(3) that by blast
next
  case False
  then show ?thesis using bread_miss [OF assms(1) _ assms(4,2)] that by blast
qed

section \<open>Writing and releasing\<close>

text \<open>The process may change the data of a buffer it holds: that changes what is seen of its block.\<close>

lemma modify_ok:
  assumes "cache_ok p H k" "b \<in> H" "holds n (bufs k ! b)" "length d = BSIZE"
  shows "cache_ok p H (upd_buf b (b_data_update (\<lambda>_. d)) k)" "view (upd_buf b (b_data_update (\<lambda>_. d)) k) = (view k)(n := d)"
    "dirty (upd_buf b (b_data_update (\<lambda>_. d)) k) = dirty k" "bio_frame p k (upd_buf b (b_data_update (\<lambda>_. d)) k)"
proof -
  let ?k = "upd_buf b (b_data_update (\<lambda>_. d)) k"
  note c = cache_okD [OF assms(1)]
  have bl: "b < NBUF" using c(5) assms(2) by auto
  obtain xs where l: "lru (bufs k) xs" "length (bufs k) = NBUF + 1" using cache_ok_lru [OF assms(1)] .
  have bb: "bufs ?k ! b = (bufs k ! b)\<lparr>b_data := d\<rparr>" using bl l(2) by simp
  show fr: "bio_frame p k ?k" by simp
  have ct: "content (bufs ?k ! e) = content (bufs k ! e)" if "e \<noteq> b" for e using that by simp
  show ok: "cache_ok p H ?k"
  proof (rule cache_ok_step [OF assms(1) fr bl])
    show "lru (bufs ?k) xs" using l(1) by (simp add: lru_update)
    show "buf_ok (p_pid (procs k ! p)) (b \<in> H) (sleeps ?k (BufSleep b)) (disk ?k) (bufs ?k ! b)"
      using c(7) [OF bl] assms(2,4) bb by (simp add: buf_ok_def)
    show "\<not> holds m (bufs k ! e)" if "e < NBUF" "e \<noteq> b" "holds m (bufs ?k ! b)" for e m
      using that c(8) [OF that(1) bl, of m] bb by (auto simp: holds_def)
  qed (use c ct in auto)
  have hb: "holds m (bufs ?k ! b) \<longleftrightarrow> holds m (bufs k ! b)" "holds m (bufs k ! b) \<longleftrightarrow> m = n" for m
    using bb assms(3) by (auto simp: holds_def)
  have "view ?k m = ((view k)(n := d)) m" for m
  proof (cases "m = n")
    case True
    then show ?thesis using view_holds [OF ok bl, of m] hb bb by simp
  next
    case False
    then show ?thesis using hb ct by (simp add: view_step [OF assms(1) ok bl ct])
  qed
  then show "view ?k = (view k)(n := d)" by blast
  show "dirty ?k = dirty k" using dirty_step [of b ?k k, OF ct bl] bb bl by (auto simp: dirty_def)
qed


text \<open>A write puts the data of the buffer on the disk and leaves the buffer clean.\<close>

lemma bwrite_ok:
  assumes "cache_ok p H k" "b \<in> H" "holds n (bufs k ! b)"
  obtains k' where "bwrite b k = Ret k'" "cache_ok p H k'" "view k' = view k" "dirty k' = dirty k - {b}"
    "disk k' = (disk k)(1 := (disk k 1)(n := view k n))" "writes k' = writes k @ [(1, n, view k n)]"
    "\<And>c. c \<noteq> b \<Longrightarrow> content (bufs k' ! c) = content (bufs k ! c)" "bufs k' ! b = (bufs k ! b)\<lparr>b_flags := B_VALID\<rparr>"
    "bio_frame p k k'"
proof -
  note c = cache_okD [OF assms(1)]
  have bl: "b < NBUF" using c(5) assms(2) by auto
  note o = c(7) [OF bl]
  obtain xs where l: "lru (bufs k) xs" "length (bufs k) = NBUF + 1" using cache_ok_lru [OF assms(1)] .
  let ?k1 = "upd_buf b (b_flags_update (\<lambda>f. f OR B_DIRTY)) k"
  have b1: "bufs ?k1 ! b = (bufs k ! b)\<lparr>b_flags := b_flags (bufs k ! b) OR B_DIRTY\<rparr>" using bl l(2) by simp
  have nd: "b_blockno (bufs k ! b) = n" "b_dev (bufs k ! b) = 1" "unat n < FSSIZE" "b_data (bufs k ! b) = view k n"
    using assms(3) o view_holds [OF assms(1) bl assms(3)] by (auto simp: holds_def buf_ok_def)
  have fl: "b_flags (bufs k ! b) \<in> {B_VALID, B_VALID OR B_DIRTY}" using o nd(2) by (auto simp: buf_ok_def)
  define k' where "k' = wakeup1 (BufChan b)
      (upd_buf b (b_flags_update (\<lambda>f. (f OR B_VALID) AND NOT B_DIRTY))
        (?k1\<lparr>ide := (select 1 (b_blockno (bufs ?k1 ! b)) (ide ?k1))\<lparr>command := IDE_CMD_WRITE, wdata := b_data (bufs ?k1 ! b)\<rparr>,
           disk := (disk ?k1)(1 := (disk ?k1 1)(b_blockno (bufs ?k1 ! b) := b_data (bufs ?k1 ! b))),
           writes := writes ?k1 @ [(1, b_blockno (bufs ?k1 ! b), b_data (bufs ?k1 ! b))]\<rparr>))"
  have dn: "b_flags (bufs k ! b) OR B_DIRTY = B_VALID OR B_DIRTY" using fl by auto
  have "iderw b ?k1 = Ret k'" unfolding k'_def
  proof (rule iderw_serving(2))
    show "b_flags (bufs ?k1 ! b) AND B_DIRTY \<noteq> 0" unfolding b1 using dn by simp
  qed (use b1 bl l(2) c nd o assms(2) in \<open>auto simp: buf_ok_def\<close>)
  then have wr: "bwrite b k = Ret k'"
    using holdingsleep_serving [OF c(1)] o assms(2) by (simp add: bwrite_def buf_ok_def)
  have fr: "bio_frame p k k'" unfolding k'_def using c(1) by simp
  have bb: "bufs k' ! b = (bufs k ! b)\<lparr>b_flags := B_VALID\<rparr>"
    using bl l(2) dn by (simp add: k'_def)
  have ct: "content (bufs k' ! d) = content (bufs k ! d)" if "d \<noteq> b" for d using that by (simp add: k'_def)
  have dk: "disk k' = (disk k)(1 := (disk k 1)(n := view k n))" "writes k' = writes k @ [(1, n, view k n)]"
    using b1 nd by (simp_all add: k'_def)
  have hb: "holds m (bufs k' ! b) \<longleftrightarrow> m = n" "holds m (bufs k ! b) \<longleftrightarrow> m = n" for m using bb nd by (auto simp: holds_def)
  have ln: "length (view k n) = BSIZE" using o nd(2,4) by (simp add: buf_ok_def)
  have ok: "cache_ok p H k'"
  proof (rule cache_ok_step [OF assms(1) fr bl])
    show "lru (bufs k') xs" using l bl by (simp add: k'_def lru_update)
    show "buf_ok (p_pid (procs k ! p)) (b \<in> H) (sleeps k' (BufSleep b)) (disk k') (bufs k' ! b)"
      unfolding bb using o nd assms(2) by (simp add: buf_ok_def k'_def)
    show "\<not> holds m (bufs k ! d)" if "d < NBUF" "d \<noteq> b" "holds m (bufs k' ! b)" for d m
      using that c(8) [OF that(1) bl, of n] hb assms(3) by auto
  qed (use c ct dk hb ln in \<open>auto simp: k'_def\<close>)
  have "view k' m = view k m" for m
  proof (cases "m = n")
    case True
    then show ?thesis using view_holds [OF ok bl, of m] view_holds [OF assms(1) bl, of m] hb bb by simp
  next
    case False
    then show ?thesis using ct dk hb by (intro view_step [OF assms(1) ok bl]) auto
  qed
  then have "view k' = view k" by blast
  moreover have "dirty k' = dirty k - {b}" using dirty_step [of b k' k, OF ct bl] bb by simp
  ultimately show ?thesis using that wr ok dk ct bb fr by blast
qed

text \<open>A buffer that is given back is dirty, for the log to write, or agrees with the disk.\<close>

lemma brelse_ok:
  assumes "cache_ok p H k" "b \<in> H" "holds n (bufs k ! b)" "b \<in> dirty k \<or> view k n = disk k 1 n"
  obtains k' where "brelse b k = Ret k'" "cache_ok p (H - {b}) k'" "view k' = view k" "dirty k' = dirty k"
    "disk k' = disk k" "writes k' = writes k" "\<And>c. c \<noteq> b \<Longrightarrow> content (bufs k' ! c) = content (bufs k ! c)"
    "holds n (bufs k' ! b)" "bio_frame p k k'"
proof -
  note c = cache_okD [OF assms(1)]
  have bl: "b < NBUF" using c(5) assms(2) by auto
  note o = c(7) [OF bl]
  obtain xs where l: "lru (bufs k) xs" "length (bufs k) = NBUF + 1" using cache_ok_lru [OF assms(1)] .
  define k1 where "k1 = upd_buf b (b_refcnt_update (\<lambda>n. n - 1)) (given_up (BufSleep b) k)"
  define k' where "k' = k1\<lparr>bufs := to_front b (bufs k1)\<rparr>"
  have s1: "serving p (given_up (BufSleep b) k)" using c(1) by (simp add: given_up_def)
  have b1: "bufs k1 = (bufs k)[b := (bufs k ! b)\<lparr>b_refcnt := 0\<rparr>]"
    using o assms(2) by (cases "bufs k ! b") (simp add: k1_def given_up_def buf_ok_def)
  have "brelse b k = Ret k'"
  proof -
    have h: "holdingsleep (BufSleep b) k = Ret (True, k)"
      using holdingsleep_serving [OF c(1)] o assms(2) by (simp add: buf_ok_def)
    have r: "b_refcnt (bufs k1 ! b) = 0" using b1 bl l(2) by simp
    have "upd_buf NBUF (b_next_update (\<lambda>_. b)) (
      let k = upd_buf (b_next (bufs k1 ! b)) (b_prev_update (\<lambda>_. b_prev (bufs k1 ! b))) k1;
          k = upd_buf (b_prev (bufs k ! b)) (b_next_update (\<lambda>_. b_next (bufs k ! b))) k;
          k = upd_buf b (b_next_update (\<lambda>_. b_next (bufs k ! NBUF))) k;
          k = upd_buf b (b_prev_update (\<lambda>_. NBUF)) k
      in upd_buf (b_next (bufs k ! NBUF)) (b_prev_update (\<lambda>_. b)) k) = k'"
      unfolding k'_def to_front_def Let_def by (cases k1) (simp add: upd_buf_def)
    moreover have "calm k1" "lock_free (spin k1 BcacheLock)" using servingD [OF s1] by (simp_all add: k1_def)
    then have "releasek BcacheLock (locked_by BcacheLock k') = Ret k'" by (simp add: k'_def calm_def)
    ultimately show ?thesis
      using h releasesleep_serving [OF c(1)] servingD [OF s1] r r [unfolded k1_def, simplified]
      by (simp add: brelse_def acquirek_calm Let_def k1_def [symmetric])
  qed
  have fr: "bio_frame p k k'"
  proof -
    have "bio_frame p k k1" using c(1) by (simp add: k1_def given_up_def)
    then show ?thesis by (simp add: bio_frame_def k'_def)
  qed
  have bb: "content (bufs k' ! b) = content ((bufs k ! b)\<lparr>b_refcnt := 0\<rparr>)"
    using bl l(2) by (simp add: k'_def to_front_content b1)
  have ct: "content (bufs k' ! d) = content (bufs k ! d)" if "d \<noteq> b" for d
    using that by (simp add: k'_def to_front_content b1)
  have dk: "disk k' = disk k" "writes k' = writes k" by (simp_all add: k'_def k1_def given_up_def)
  have hb: "holds m (bufs k' ! b) \<longleftrightarrow> m = n" "holds m (bufs k ! b) \<longleftrightarrow> m = n" for m
    using bb assms(3) by (auto simp: holds_def content_def)
  have vn: "view k n = b_data (bufs k ! b)" using view_holds [OF assms(1) bl assms(3)] .
  have ok: "cache_ok p (H - {b}) k'"
  proof (rule cache_ok_step [OF assms(1) fr bl])
    show "lru (bufs k') (b # remove1 b xs)"
      unfolding k'_def using l(1) bl by (simp add: b1 lru_update to_front_lru)
    show "buf_ok (p_pid (procs k ! p)) (b \<in> H - {b}) (sleeps k' (BufSleep b)) (disk k') (bufs k' ! b)"
      using o assms(2,3,4) bb vn dk by (auto simp: buf_ok_def content_def holds_def dirty_def k'_def k1_def given_up_def)
    show "\<not> holds m (bufs k ! d)" if "d < NBUF" "d \<noteq> b" "holds m (bufs k' ! b)" for d m
      using that c(8) [OF that(1) bl, of n] hb assms(3) by auto
  qed (use c ct dk in \<open>auto simp: k'_def k1_def given_up_def\<close>)
  have "view k' m = view k m" for m
  proof (cases "m = n")
    case True
    then show ?thesis using view_holds [OF ok bl, of m] view_holds [OF assms(1) bl, of m] hb bb by (simp add: content_def)
  next
    case False
    then show ?thesis using ct dk hb by (intro view_step [OF assms(1) ok bl]) auto
  qed
  then have "view k' = view k" by blast
  moreover have "dirty k' = dirty k" using dirty_step [of b k' k, OF ct bl] bb bl by (auto simp: dirty_def content_def)
  moreover have "holds n (bufs k' ! b)" using hb by blast
  ultimately show ?thesis using that \<open>brelse b k = Ret k'\<close> ok dk ct fr by blast
qed


section \<open>Blocks that wait for a commit\<close>

definition dblocks :: "'a buf_state_scheme \<Rightarrow> u32 set" where
  "dblocks k = {m. \<exists>b\<in>dirty k. holds m (bufs k ! b)}"

lemma dirty_holds:
  assumes "cache_ok p H k" "b \<in> dirty k"
  shows "b < NBUF" "holds (b_blockno (bufs k ! b)) (bufs k ! b)"
proof -
  show b: "b < NBUF" using assms(2) by (simp add: dirty_def)
  have "b_flags (bufs k ! b) \<noteq> 0" using assms(2) by (auto simp: dirty_def)
  then show "holds (b_blockno (bufs k ! b)) (bufs k ! b)"
    using cache_okD(7) [OF assms(1) b] by (auto simp: buf_ok_def holds_def)
qed

lemma card_dblocks:
  assumes "cache_ok p H k"
  shows "card (dblocks k) = card (dirty k)" "finite (dblocks k)"
proof -
  let ?f = "\<lambda>b. b_blockno (bufs k ! b)"
  have fin: "finite (dirty k)" by (rule finite_subset [of _ "{0..<NBUF}"]) (auto simp: dirty_def)
  have "holds m (bufs k ! b) \<Longrightarrow> m = ?f b" for m b by (simp add: holds_def)
  then have e: "dblocks k = ?f ` dirty k" using dirty_holds(2) [OF assms] unfolding dblocks_def by blast
  have "inj_on ?f (dirty k)"
  proof (rule inj_onI)
    fix b c assume bc: "b \<in> dirty k" "c \<in> dirty k" "?f b = ?f c"
    have "holds (?f b) (bufs k ! b)" "holds (?f b) (bufs k ! c)"
      using dirty_holds(2) [OF assms bc(1)] dirty_holds(2) [OF assms bc(2)] by (simp_all add: bc(3))
    then show "b = c" using cache_okD(8) [OF assms] dirty_holds(1) [OF assms] bc(1,2) by blast
  qed
  then show "card (dblocks k) = card (dirty k)" "finite (dblocks k)" using fin by (simp_all add: e card_image)
qed

lemma dblocks_cong:
  assumes "dirty k' = dirty k" "\<And>c m. c \<in> dirty k \<Longrightarrow> holds m (bufs k' ! c) = holds m (bufs k ! c)"
  shows "dblocks k' = dblocks k"
  using assms unfolding dblocks_def by blast

lemma got_dblocks:
  assumes "got p H k n b k'"
  shows "dblocks k' = dblocks k"
proof (rule dblocks_cong)
  show "dirty k' = dirty k" using assms by (simp add: got_def)
  fix c m assume c: "c \<in> dirty k"
  show "holds m (bufs k' ! c) = holds m (bufs k ! c)"
  proof (cases "c = b")
    case True
    then have "holds n (bufs k' ! c)" "holds n (bufs k ! c)" using assms c by (simp_all add: got_def)
    then show ?thesis by (simp add: holds_def)
  next
    case False
    then have "content (bufs k' ! c) = content (bufs k ! c)" using assms by (simp add: got_def)
    then show ?thesis using content_eq by blast
  qed
qed

lemma dblocks_cached: "m \<in> dblocks k \<Longrightarrow> \<exists>b<NBUF. holds m (bufs k ! b)"
  by (auto simp: dblocks_def dirty_def)

lemma in_dblocks:
  assumes "cache_ok p H k" "b < NBUF" "holds n (bufs k ! b)"
  shows "n \<in> dblocks k \<longleftrightarrow> b \<in> dirty k"
proof
  assume "n \<in> dblocks k"
  then obtain c where c: "c \<in> dirty k" "holds n (bufs k ! c)" by (auto simp: dblocks_def)
  then have "c = b" using cache_okD(8) [OF assms(1) _ assms(2) c(2) assms(3)] dirty_holds(1) [OF assms(1) c(1)] by blast
  then show "b \<in> dirty k" using c(1) by simp
qed (use assms(3) in \<open>auto simp: dblocks_def\<close>)

text \<open>Reading a block: always possible when it is waiting for a commit, or when there is room for one more buffer.\<close>

lemma bread_block:
  assumes "cache_ok p H k" "unat n < FSSIZE" "\<And>b. b \<in> H \<Longrightarrow> \<not> holds n (bufs k ! b)"
    and "n \<in> dblocks k \<or> card H + card (dblocks k) < NBUF"
  obtains b k' where "bread 1 n k = Ret (b, k')" "got p H k n b k'" "dblocks k' = dblocks k"
proof (cases "n \<in> dblocks k")
  case True
  then obtain b where b: "b < NBUF" "holds n (bufs k ! b)" using dblocks_cached by blast
  then have "b \<notin> H" using assms(3) by blast
  then obtain k' where g: "bread 1 n k = Ret (b, k')" "got p H k n b k'" using bread_hit [OF assms(1) b] by blast
  show ?thesis by (rule that [OF g got_dblocks [OF g(2)]])
next
  case False
  have "card (H \<union> dirty k) \<le> card H + card (dirty k)" by (rule card_Un_le)
  then have "card (H \<union> dirty k) < NBUF" using assms(4) False card_dblocks [OF assms(1)] by simp
  then obtain b k' where g: "bread 1 n k = Ret (b, k')" "got p H k n b k'" using bread_ok [OF assms(1-3)] by blast
  show ?thesis by (rule that [OF g got_dblocks [OF g(2)]])
qed

lemma dblocks_write:
  assumes "cache_ok p H k" "b < NBUF" "holds n (bufs k ! b)" "dirty k' = dirty k - {b}"
    and "\<And>c. c \<noteq> b \<Longrightarrow> content (bufs k' ! c) = content (bufs k ! c)"
  shows "dblocks k' = dblocks k - {n}"
proof (rule set_eqI)
  fix m
  have e: "holds m (bufs k' ! c) = holds m (bufs k ! c)" if "c \<noteq> b" for c using content_eq [OF assms(5) [OF that]] by simp
  have "m \<in> dblocks k' \<longleftrightarrow> (\<exists>c\<in>dirty k - {b}. holds m (bufs k ! c))" unfolding dblocks_def assms(4) using e by auto
  also have "\<dots> \<longleftrightarrow> m \<in> dblocks k \<and> m \<noteq> n"
  proof
    assume "\<exists>c\<in>dirty k - {b}. holds m (bufs k ! c)"
    then obtain c where c: "c \<in> dirty k" "c \<noteq> b" "holds m (bufs k ! c)" by blast
    moreover have "m \<noteq> n" using cache_okD(8) [OF assms(1) dirty_holds(1) [OF assms(1) c(1)] assms(2) c(3)] assms(3) c(2) by blast
    ultimately show "m \<in> dblocks k \<and> m \<noteq> n" by (auto simp: dblocks_def)
  next
    assume "m \<in> dblocks k \<and> m \<noteq> n"
    moreover have "holds m (bufs k ! b) \<Longrightarrow> m = n" using assms(3) by (simp add: holds_def)
    ultimately show "\<exists>c\<in>dirty k - {b}. holds m (bufs k ! c)" by (auto simp: dblocks_def)
  qed
  finally show "m \<in> dblocks k' \<longleftrightarrow> m \<in> dblocks k - {n}" by blast
qed

text \<open>Modifying a block and writing it, and giving it back, in terms of blocks.\<close>

lemma write_block:
  assumes "cache_ok p H k" "b \<in> H" "holds n (bufs k ! b)" "length d = BSIZE"
  obtains k' where "bwrite b (upd_buf b (b_data_update (\<lambda>_. d)) k) = Ret k'" "cache_ok p H k'" "view k' = (view k)(n := d)"
    "dblocks k' = dblocks k - {n}" "disk k' = (disk k)(1 := (disk k 1)(n := d))" "writes k' = writes k @ [(1, n, d)]"
    "\<And>c m. holds m (bufs k' ! c) = holds m (bufs k ! c)" "bio_frame p k k'"
proof -
  let ?k = "upd_buf b (b_data_update (\<lambda>_. d)) k"
  have bl: "b < NBUF" using cache_okD(5) [OF assms(1)] assms(2) by auto
  have len: "b < length (bufs k)" using cache_ok_lru [OF assms(1)] bl by (metis trans_less_add1)
  note m = modify_ok [OF assms]
  have h: "holds n (bufs ?k ! b)" using assms(3) len by (simp add: holds_def)
  obtain k' where w: "bwrite b ?k = Ret k'" "cache_ok p H k'" "view k' = view ?k" "dirty k' = dirty ?k - {b}"
    "disk k' = (disk ?k)(1 := (disk ?k 1)(n := view ?k n))" "writes k' = writes ?k @ [(1, n, view ?k n)]"
    "\<And>c. c \<noteq> b \<Longrightarrow> content (bufs k' ! c) = content (bufs ?k ! c)" "bufs k' ! b = (bufs ?k ! b)\<lparr>b_flags := B_VALID\<rparr>" "bio_frame p ?k k'"
    using bwrite_ok [OF m(1) assms(2) h] by metis
  have hh: "holds j (bufs ?k ! c) = holds j (bufs k ! c)" for j c using len by (cases "c = b") (auto simp: holds_def)
  have "dblocks ?k = dblocks k" by (rule dblocks_cong [OF m(3) hh])
  then have "dblocks k' = dblocks k - {n}" using dblocks_write [OF m(1) bl h w(4,7)] by simp
  moreover have "holds j (bufs k' ! c) = holds j (bufs k ! c)" for j c
  proof (cases "c = b")
    case True
    then show ?thesis using w(8) hh [of j b] by (simp add: holds_def)
  next
    case False
    then show ?thesis using content_eq [OF w(7) [OF False]] hh by blast
  qed
  moreover have "bio_frame p k k'" using bio_frame_trans [OF m(4) w(9)] .
  ultimately show ?thesis using that w m(2) by (simp add: w(5,6))
qed

lemma release_block:
  assumes "cache_ok p H k" "b \<in> H" "holds n (bufs k ! b)" "n \<in> dblocks k \<or> view k n = disk k 1 n"
  obtains k' where "brelse b k = Ret k'" "cache_ok p (H - {b}) k'" "view k' = view k" "dblocks k' = dblocks k"
    "disk k' = disk k" "writes k' = writes k" "\<And>c m. c \<noteq> b \<Longrightarrow> holds m (bufs k' ! c) = holds m (bufs k ! c)" "bio_frame p k k'"
proof -
  have bl: "b < NBUF" using cache_okD(5) [OF assms(1)] assms(2) by auto
  have x: "b \<in> dirty k \<or> view k n = disk k 1 n" using assms(4) in_dblocks [OF assms(1) bl assms(3)] by blast
  obtain k' where w: "brelse b k = Ret k'" "cache_ok p (H - {b}) k'" "view k' = view k" "dirty k' = dirty k"
    "disk k' = disk k" "writes k' = writes k" "\<And>c. c \<noteq> b \<Longrightarrow> content (bufs k' ! c) = content (bufs k ! c)"
    "holds n (bufs k' ! b)" "bio_frame p k k'"
    using brelse_ok [OF assms(1-3) x] by metis
  have h: "holds m (bufs k' ! c) = holds m (bufs k ! c)" if "c \<noteq> b" for c m using content_eq [OF w(7) [OF that]] by blast
  have "dblocks k' = dblocks k"
  proof (rule dblocks_cong [OF w(4)])
    fix c m
    show "holds m (bufs k' ! c) = holds m (bufs k ! c)"
      using h w(8) assms(3) by (cases "c = b") (auto simp: holds_def)
  qed
  then show ?thesis using that w h by blast
qed

end
