(* ===== verification/Bio_Spec.thy ===== *)
theory Bio_Spec
  imports Bio_Ops
begin

text \<open>
  The cache after \<open>binit\<close>, and that any sequence of reads and writes of blocks through it gives what
  an array of blocks gives.
\<close>

section \<open>Initialisation\<close>

definition front :: "nat \<Rightarrow> buf list \<Rightarrow> buf list" where
  "front b bs =
     (let bs = bs[b := (bs ! b)\<lparr>b_next := b_next (bs ! NBUF)\<rparr>];
          bs = bs[b := (bs ! b)\<lparr>b_prev := NBUF\<rparr>];
          bs = bs[b_next (bs ! NBUF) := (bs ! b_next (bs ! NBUF))\<lparr>b_prev := b\<rparr>]
      in bs[NBUF := (bs ! NBUF)\<lparr>b_next := b\<rparr>])"

lemma front_links:
  assumes "length bs = NBUF + 1" "b < NBUF" "b_next (bs ! NBUF) < length bs"
  shows "nexts (front b bs) = (nexts bs)(b := b_next (bs ! NBUF), NBUF := b)"
    "prevs (front b bs) = (prevs bs)(b := NBUF, b_next (bs ! NBUF) := b)" "length (front b bs) = length bs"
proof -
  define bs3 where "bs3 = bs[b := (bs ! b)\<lparr>b_next := b_next (bs ! NBUF)\<rparr>]"
  define bs4 where "bs4 = bs3[b := (bs3 ! b)\<lparr>b_prev := NBUF\<rparr>]"
  define bs5 where "bs5 = bs4[b_next (bs4 ! NBUF) := (bs4 ! b_next (bs4 ! NBUF))\<lparr>b_prev := b\<rparr>]"
  define bs6 where "bs6 = bs5[NBUF := (bs5 ! NBUF)\<lparr>b_next := b\<rparr>]"
  have tf: "front b bs = bs6" by (simp add: front_def Let_def bs6_def bs5_def bs4_def bs3_def)
  have bl: "b < length bs" "NBUF < length bs" "b \<noteq> NBUF" using assms by simp_all
  have n3: "nexts bs3 = (nexts bs)(b := b_next (bs ! NBUF))" "prevs bs3 = prevs bs" "length bs3 = length bs"
    using bl by (auto simp: bs3_def fun_eq_iff nth_list_update)
  have n4: "nexts bs4 = (nexts bs)(b := b_next (bs ! NBUF))" "prevs bs4 = (prevs bs)(b := NBUF)" "length bs4 = length bs"
    using bl n3 by (auto simp: bs4_def fun_eq_iff nth_list_update)
  have h4: "b_next (bs4 ! NBUF) = b_next (bs ! NBUF)" using fun_cong [OF n4(1), of NBUF] bl(3) by simp
  have n5: "nexts bs5 = (nexts bs)(b := b_next (bs ! NBUF))" "prevs bs5 = (prevs bs)(b := NBUF, b_next (bs ! NBUF) := b)" "length bs5 = length bs"
    using assms(3) n4 h4 by (auto simp: bs5_def fun_eq_iff nth_list_update)
  have "nexts bs6 = (nexts bs)(b := b_next (bs ! NBUF), NBUF := b)" "prevs bs6 = (prevs bs)(b := NBUF, b_next (bs ! NBUF) := b)" "length bs6 = length bs"
    using bl n5 by (auto simp: bs6_def fun_eq_iff nth_list_update)
  then show "nexts (front b bs) = (nexts bs)(b := b_next (bs ! NBUF), NBUF := b)"
    "prevs (front b bs) = (prevs bs)(b := NBUF, b_next (bs ! NBUF) := b)" "length (front b bs) = length bs"
    unfolding tf by blast+
qed

lemma front_content: "content (front b bs ! y) = content (bs ! y)"
  by (simp only: front_def Let_def content_links)

lemma binit_step_bufs: "bufs (binit_step b k) = front b (bufs k)"
  by (simp add: binit_step_def front_def Let_def initsleeplock_def initlockk_def)

lemma binit_steps:
  assumes "m \<le> NBUF" "length (bufs k) = NBUF + 1" "chain (bufs k) NBUF [] NBUF"
  shows "length (bufs (fold binit_step [0..<m] k)) = NBUF + 1 \<and> chain (bufs (fold binit_step [0..<m] k)) NBUF (rev [0..<m]) NBUF"
  using assms(1)
proof (induction m)
  case 0
  then show ?case using assms by simp
next
  case (Suc m)
  let ?bs = "bufs (fold binit_step [0..<m] k)"
  have ih: "length ?bs = NBUF + 1" "chainf (nexts ?bs) (prevs ?bs) NBUF (rev [0..<m]) NBUF"
    using Suc by (simp_all add: chain_chainf)
  have "b_next (?bs ! NBUF) = hd (rev [0..<m] @ [NBUF])" using chainf_ends(1) [OF ih(2)] .
  then have "b_next (?bs ! NBUF) \<in> set (rev [0..<m] @ [NBUF])" by (metis hd_in_set snoc_eq_iff_butlast)
  then have nl: "b_next (?bs ! NBUF) < length ?bs" using Suc.prems ih(1) by auto
  have "chainf ((nexts ?bs)(m := nexts ?bs NBUF, NBUF := m)) ((prevs ?bs)(m := NBUF, nexts ?bs NBUF := m)) NBUF (m # rev [0..<m]) NBUF"
    using Suc.prems by (intro chainf_link [OF ih(2)]) auto
  then show ?case
    using front_links [OF ih(1) _ nl, of m] ih(1) Suc.prems by (simp add: binit_step_bufs chain_chainf)
qed

lemma content_inits: "content (bufs (fold binit_step ms k) ! y) = content (bufs k ! y)"
  by (induction ms arbitrary: k) (simp_all add: binit_step_bufs front_content)

lemma binit_step_frame:
  "procs (binit_step b k) = procs k" "mach (binit_step b k) = mach k" "cproc (binit_step b k) = cproc k"
  "apicids (binit_step b k) = apicids k" "lapicid (binit_step b k) = lapicid k"
  "idequeue (binit_step b k) = idequeue k" "havedisk1 (binit_step b k) = havedisk1 k" "ide (binit_step b k) = ide k"
  "disk (binit_step b k) = disk k" "writes (binit_step b k) = writes k"
  "sl_locked (sleeps (binit_step b k) (BufSleep c)) = (if c = b then 0 else sl_locked (sleeps k (BufSleep c)))"
  "(\<forall>l. lock_free (spin k l)) \<Longrightarrow> lock_free (spin (binit_step b k) l)"
  by (simp_all add: binit_step_def Let_def initsleeplock_def initlockk_def upd_buf_def upd_sleep_def lock_free_def initlock_def)

lemma binit_steps_frame:
  "procs (fold binit_step ms k) = procs k \<and> mach (fold binit_step ms k) = mach k \<and> cproc (fold binit_step ms k) = cproc k \<and>
   apicids (fold binit_step ms k) = apicids k \<and> lapicid (fold binit_step ms k) = lapicid k \<and>
   idequeue (fold binit_step ms k) = idequeue k \<and> havedisk1 (fold binit_step ms k) = havedisk1 k \<and> ide (fold binit_step ms k) = ide k \<and>
   disk (fold binit_step ms k) = disk k \<and> writes (fold binit_step ms k) = writes k \<and>
   (b \<in> set ms \<or> sl_locked (sleeps k (BufSleep b)) = 0 \<longrightarrow> sl_locked (sleeps (fold binit_step ms k) (BufSleep b)) = 0) \<and>
   ((\<forall>l. lock_free (spin k l)) \<longrightarrow> (\<forall>l. lock_free (spin (fold binit_step ms k) l)))"
  by (induction ms arbitrary: k) (auto simp: binit_step_frame)

text \<open>The kernel as it calls \<open>binit\<close>: buffers in zeroed memory, and the disk driver idle.\<close>

definition boot_bufs :: "nat \<Rightarrow> 'a buf_state_scheme \<Rightarrow> bool" where
  "boot_bufs p k \<longleftrightarrow> serving p k \<and> idequeue k = [] \<and> havedisk1 k \<and> ready (ide k) \<and> (\<forall>n. length (disk k 1 n) = BSIZE) \<and>
     length (bufs k) = NBUF + 1 \<and> (\<forall>b<NBUF. b_flags (bufs k ! b) = 0 \<and> b_dev (bufs k ! b) = 0 \<and> b_refcnt (bufs k ! b) = 0)"

lemma binit_ok:
  assumes "boot_bufs p k"
  shows "cache_ok p {} (binit k)" "dirty (binit k) = {}" "disk (binit k) = disk k" "view (binit k) = disk k 1"
proof -
  note a = assms [unfolded boot_bufs_def]
  define k1 where "k1 = upd_buf NBUF (b_next_update (\<lambda>_. NBUF)) (upd_buf NBUF (b_prev_update (\<lambda>_. NBUF)) (initlockk BcacheLock ''bcache'' k))"
  have e: "binit k = fold binit_step [0..<NBUF] k1" by (simp add: binit_def k1_def Let_def)
  have l1: "length (bufs k1) = NBUF + 1" "chain (bufs k1) NBUF [] NBUF"
    using a by (simp_all add: k1_def initlockk_def)
  have lr: "lru (bufs (binit k)) (rev [0..<NBUF])"
    using binit_steps [OF order_refl l1] unfolding e lru_def by (simp only: distinct_rev distinct_upt set_rev set_upt simp_thms)
  have sp: "\<forall>l. lock_free (spin k1 l)" using servingD(5) [of p k] a
    by (simp add: k1_def initlockk_def initlock_def lock_free_def)
  note f = binit_steps_frame [of "[0..<NBUF]" k1, folded e]
  have k1: "procs k1 = procs k" "mach k1 = mach k" "cproc k1 = cproc k" "apicids k1 = apicids k" "lapicid k1 = lapicid k"
    "idequeue k1 = idequeue k" "havedisk1 k1 = havedisk1 k" "ide k1 = ide k" "disk k1 = disk k"
    by (simp_all add: k1_def initlockk_def upd_buf_def)
  have sv: "serving p (binit k)" using a f sp by (simp add: serving_def unlocked_def calm_def k1)
  have ct: "content (bufs (binit k) ! b) = content (bufs k ! b)" if "b < NBUF" for b
    using that by (simp add: e content_inits) (simp add: k1_def initlockk_def)
  have z: "b_flags (bufs (binit k) ! b) = 0" "b_dev (bufs (binit k) ! b) = 0" "b_refcnt (bufs (binit k) ! b) = 0" if "b < NBUF" for b
    using ct [OF that] a that by (simp_all add: content_def)
  have sl: "sl_locked (sleeps (binit k) (BufSleep b)) = 0" if "b < NBUF" for b
    using binit_steps_frame [of "[0..<NBUF]" k1 b, folded e] that by simp
  show "cache_ok p {} (binit k)"
    unfolding cache_ok_def using sv lr a f k1 z sl by (auto simp: buf_ok_def)
  show "dirty (binit k) = {}" using z by (simp add: dirty_def)
  show d: "disk (binit k) = disk k" using f k1 by simp
  show "view (binit k) = disk k 1"
  proof (rule ext)
    fix n
    show "view (binit k) n = disk k 1 n" using view_uncached [of n "binit k"] z d by (simp add: holds_def)
  qed
qed

section \<open>The cache as an array of blocks\<close>

text \<open>What a client does with a block of disk 1: read it, or overwrite it.\<close>

datatype block_op = ReadBlock u32 | WriteBlock u32 block

fun block_call :: "block_op \<Rightarrow> 'a buf_state_scheme \<Rightarrow> (block list \<times> 'a buf_state_scheme) outcome" where
  "block_call (ReadBlock n) k =
     obind (bread 1 n k) (\<lambda>(b, k).
       let d = b_data (bufs k ! b) in obind (brelse b k) (\<lambda>k. Ret ([d], k)))"
| "block_call (WriteBlock n d) k =
     obind (bread 1 n k) (\<lambda>(b, k).
       obind (bwrite b (upd_buf b (b_data_update (\<lambda>_. d)) k)) (\<lambda>k. obind (brelse b k) (\<lambda>k. Ret ([], k))))"

primrec block_calls :: "block_op list \<Rightarrow> 'a buf_state_scheme \<Rightarrow> (block list \<times> 'a buf_state_scheme) outcome" where
  "block_calls [] k = Ret ([], k)"
| "block_calls (c # cs) k =
     obind (block_call c k) (\<lambda>(r, k). obind (block_calls cs k) (\<lambda>(rs, k). Ret (r @ rs, k)))"

text \<open>The same on an array.\<close>

fun array_call :: "block_op \<Rightarrow> (u32 \<Rightarrow> block) \<Rightarrow> block list \<times> (u32 \<Rightarrow> block)" where
  "array_call (ReadBlock n) a = ([a n], a)"
| "array_call (WriteBlock n d) a = ([], a(n := d))"

primrec array_calls :: "block_op list \<Rightarrow> (u32 \<Rightarrow> block) \<Rightarrow> block list \<times> (u32 \<Rightarrow> block)" where
  "array_calls [] a = ([], a)"
| "array_calls (c # cs) a = (let (r, a) = array_call c a; (rs, a) = array_calls cs a in (r @ rs, a))"

primrec call_ok :: "block_op \<Rightarrow> bool" where
  "call_ok (ReadBlock n) \<longleftrightarrow> unat n < FSSIZE"
| "call_ok (WriteBlock n d) \<longleftrightarrow> unat n < FSSIZE \<and> length d = BSIZE"

definition clean :: "nat \<Rightarrow> (u32 \<Rightarrow> block) \<Rightarrow> 'a buf_state_scheme \<Rightarrow> bool" where
  "clean p a k \<longleftrightarrow> cache_ok p {} k \<and> dirty k = {} \<and> view k = a \<and> disk k 1 = a"

lemma block_call_ok:
  assumes "clean p a k" "call_ok c"
  shows "\<exists>k'. block_call c k = Ret (fst (array_call c a), k') \<and> clean p (snd (array_call c a)) k'"
proof -
  have k: "cache_ok p {} k" "dirty k = {}" "view k = a" "disk k 1 = a" using assms(1) by (simp_all add: clean_def)
  show ?thesis
  proof (cases c)
    case (ReadBlock n)
    obtain b k1 where r: "bread 1 n k = Ret (b, k1)" "got p {} k n b k1"
      using bread_ok [OF k(1), of n] k(2) assms(2) ReadBlock by auto
    then have g: "cache_ok p {b} k1" "holds n (bufs k1 ! b)" "b_data (bufs k1 ! b) = a n" "view k1 = a" "disk k1 = disk k" "dirty k1 = {}"
      using k by (simp_all add: got_def)
    have x: "b \<in> {b}" "b \<in> dirty k1 \<or> view k1 n = disk k1 1 n" using g k by simp_all
    obtain k2 where "brelse b k1 = Ret k2" "cache_ok p ({b} - {b}) k2" "view k2 = view k1" "dirty k2 = dirty k1" "disk k2 = disk k1"
      using brelse_ok [OF g(1) x(1) g(2) x(2)] by metis
    then show ?thesis using r(1) ReadBlock g k by (simp add: clean_def)
  next
    case (WriteBlock n d)
    obtain b k1 where r: "bread 1 n k = Ret (b, k1)" "got p {} k n b k1"
      using bread_ok [OF k(1), of n] k(2) assms(2) WriteBlock by auto
    then have g: "cache_ok p {b} k1" "holds n (bufs k1 ! b)" "view k1 = a" "disk k1 = disk k" "dirty k1 = {}" "b < NBUF"
      using k by (simp_all add: got_def)
    let ?k = "upd_buf b (b_data_update (\<lambda>_. d)) k1"
    have ld: "length d = BSIZE" using assms(2) WriteBlock by simp
    have m: "cache_ok p {b} ?k" "view ?k = a(n := d)" "dirty ?k = {}"
      using modify_ok [OF g(1) _ g(2) ld] g by simp_all
    have "b < length (bufs k1)" using cache_ok_lru [OF g(1)] g(6) by (metis trans_less_add1)
    then have h: "holds n (bufs ?k ! b)" using g(2) by (simp add: holds_def)
    obtain k2 where w: "bwrite b ?k = Ret k2" "cache_ok p {b} k2" "view k2 = view ?k" "dirty k2 = dirty ?k - {b}"
      "disk k2 = (disk ?k)(1 := (disk ?k 1)(n := view ?k n))" "bufs k2 ! b = (bufs ?k ! b)\<lparr>b_flags := B_VALID\<rparr>"
      using bwrite_ok [OF m(1) singletonI h] by metis
    have h2: "holds n (bufs k2 ! b)" using h w(6) by (simp add: holds_def)
    have x: "b \<in> dirty k2 \<or> view k2 n = disk k2 1 n" using w(3,5) by simp
    obtain k3 where "brelse b k2 = Ret k3" "cache_ok p ({b} - {b}) k3" "view k3 = view k2" "dirty k3 = dirty k2" "disk k3 = disk k2"
      using brelse_ok [OF w(2) singletonI h2 x] by metis
    then show ?thesis using r(1) WriteBlock g k m w by (simp add: clean_def)
  qed
qed

lemma block_calls_ok:
  assumes "clean p a k" "\<forall>c\<in>set cs. call_ok c"
  shows "\<exists>k'. block_calls cs k = Ret (fst (array_calls cs a), k') \<and> clean p (snd (array_calls cs a)) k'"
  using assms
proof (induction cs arbitrary: a k)
  case (Cons c cs)
  obtain k1 where k1: "block_call c k = Ret (fst (array_call c a), k1)" "clean p (snd (array_call c a)) k1"
    using block_call_ok Cons.prems by (metis list.set_intros(1))
  then obtain k2 where "block_calls cs k1 = Ret (fst (array_calls cs (snd (array_call c a))), k2)"
    "clean p (snd (array_calls cs (snd (array_call c a)))) k2" using Cons.IH [OF k1(2)] Cons.prems(2) by (metis list.set_intros(2))
  then show ?case using k1 by (simp add: case_prod_beta Let_def)
qed simp

section \<open>Properties\<close>

text \<open>
  Claim C2. The cache is transparent: after \<open>binit\<close>, any sequence of reads and writes of blocks of the
  disk, whatever buffers are recycled on the way, returns what the same sequence returns on an array that starts as the
  disk, and leaves that array on the disk. No call panics or waits.
\<close>

theorem cache_transparent:
  assumes "boot_bufs p k" "\<forall>c\<in>set cs. call_ok c"
  shows "\<exists>k'. block_calls cs (binit k) = Ret (fst (array_calls cs (disk k 1)), k') \<and> disk k' 1 = snd (array_calls cs (disk k 1))"
proof -
  have "clean p (disk k 1) (binit k)" using binit_ok [OF assms(1)] by (simp add: clean_def)
  then show ?thesis using block_calls_ok [OF _ assms(2)] by (fastforce simp: clean_def)
qed

text \<open>The kernel at boot with one process and a disk of zeros.\<close>

definition buf0 :: buf where
  "buf0 = \<lparr>b_flags = 0, b_dev = 0, b_blockno = 0, b_refcnt = 0, b_prev = 0, b_next = 0, b_data = replicate BSIZE 0\<rparr>"

definition kernel0 :: "disk \<Rightarrow> buf_state" where
  "kernel0 d = sleep_state.extend
     (pipe_state.extend
       (pstate.extend
         (pstate0 machine0 (proc0\<lparr>p_state := RUNNING, p_pid := 1, p_kstack := 0x80203000, p_pgdir := 0x80200000\<rparr> # replicate 63 proc0))
         (pipe_state.fields (\<lambda>_. \<lparr>pdata = replicate 512 0, nread = 0, nwrite = 0, readopen = 1, writeopen = 1\<rparr>)))
       (sleep_state.fields (\<lambda>_. \<lparr>sl_locked = 0, sl_name = [], sl_pid = 0\<rparr>)))
     (buf_state.fields (replicate (NBUF + 1) buf0) [] True
        \<lparr>status = 0x40, control = 0, nsectors = 0, lba0 = 0, lba1 = 0, lba2 = 0, drive = 0, command = 0, wdata = []\<rparr> d [])"

lemma kernel0_simps:
  "procs (kernel0 d) = proc0\<lparr>p_state := RUNNING, p_pid := 1, p_kstack := 0x80203000, p_pgdir := 0x80200000\<rparr> # replicate 63 proc0"
  "bufs (kernel0 d) = replicate (NBUF + 1) buf0" "idequeue (kernel0 d) = []" "havedisk1 (kernel0 d)" "disk (kernel0 d) = d"
  "writes (kernel0 d) = []" "ready (ide (kernel0 d))" "cproc (kernel0 d) 0 = Some 0" "cpu_id (mach (kernel0 d)) = 0" "unlocked (kernel0 d)"
  by (simp_all add: kernel0_def pstate0_def pstate.defs pipe_state.defs sleep_state.defs buf_state.defs machine0_def unlocked_def calm_def
      lock_free_def can_push_def cpu_ok_def depth_def remember_if_def ready_def)

lemma boot_kernel0: "(\<And>n. length (d 1 n) = BSIZE) \<Longrightarrow> boot_bufs 0 (kernel0 d)"
  by (simp add: boot_bufs_def serving_def kernel0_simps nth_replicate buf0_def del: replicate.simps)

theorem cache_transparent_witness:
  "\<exists>k'. block_calls [WriteBlock 5 (replicate BSIZE 7), ReadBlock 4, ReadBlock 5] (binit (kernel0 (\<lambda>_ _. replicate BSIZE 1))) =
     Ret ([replicate BSIZE 1, replicate BSIZE 7], k')"
proof -
  have b: "boot_bufs 0 (kernel0 (\<lambda>_ _. replicate BSIZE 1))" by (rule boot_kernel0) (simp del: replicate.simps)
  have c: "\<forall>c\<in>set [WriteBlock 5 (replicate BSIZE 7), ReadBlock 4, ReadBlock 5]. call_ok c" by simp
  have "fst (array_calls [WriteBlock 5 (replicate BSIZE 7), ReadBlock 4, ReadBlock 5] (disk (kernel0 (\<lambda>_ _. replicate BSIZE 1)) 1)) =
      [replicate BSIZE 1, replicate BSIZE 7]" by (simp add: kernel0_simps)
  then show ?thesis using cache_transparent [OF b c] by metis
qed

end
