(* ===== verification/Bytes.thy ===== *)
theory Bytes
  imports Prelude
begin

text \<open>
  Structures inside a disk block: words of 16 and 32 bits in little-endian order at byte offsets of
  a list of bytes, and copying bytes into such a list.
\<close>

definition splice :: "'a list \<Rightarrow> nat \<Rightarrow> 'a list \<Rightarrow> 'a list" where
  "splice d off xs = take off d @ xs @ drop (off + length xs) d"

definition slice :: "'a list \<Rightarrow> nat \<Rightarrow> nat \<Rightarrow> 'a list" where
  "slice d off n = take n (drop off d)"

definition bytes16 :: "u16 \<Rightarrow> u8 list" where
  "bytes16 w = [ucast w, ucast (drop_bit 8 w)]"

definition bytes32 :: "u32 \<Rightarrow> u8 list" where
  "bytes32 w = [ucast w, ucast (drop_bit 8 w), ucast (drop_bit 16 w), ucast (drop_bit 24 w)]"

definition get16 :: "u8 list \<Rightarrow> nat \<Rightarrow> u16" where
  "get16 d i = ucast (d ! i) OR push_bit 8 (ucast (d ! (i + 1)))"

definition get32 :: "u8 list \<Rightarrow> nat \<Rightarrow> u32" where
  "get32 d i = ucast (d ! i) OR push_bit 8 (ucast (d ! (i + 1))) OR push_bit 16 (ucast (d ! (i + 2))) OR push_bit 24 (ucast (d ! (i + 3)))"

definition put16 :: "u8 list \<Rightarrow> nat \<Rightarrow> u16 \<Rightarrow> u8 list" where
  "put16 d i w = splice d i (bytes16 w)"

definition put32 :: "u8 list \<Rightarrow> nat \<Rightarrow> u32 \<Rightarrow> u8 list" where
  "put32 d i w = splice d i (bytes32 w)"

lemma length_bytes [simp]: "length (bytes16 w) = 2" "length (bytes32 v) = 4"
  by (simp_all add: bytes16_def bytes32_def)

lemma length_splice [simp]: "off + length xs \<le> length d \<Longrightarrow> length (splice d off xs) = length d"
  by (simp add: splice_def)

lemma nth_splice:
  assumes "off + length xs \<le> length d" "j < length d"
  shows "splice d off xs ! j = (if off \<le> j \<and> j < off + length xs then xs ! (j - off) else d ! j)"
  using assms by (auto simp: splice_def nth_append min_def)

lemma splice_beside:
  assumes "off + length xs \<le> length d" "j < off \<or> off + length xs \<le> j"
  shows "splice d off xs ! j = d ! j"
  using assms by (cases "j < length d") (auto simp: nth_splice, auto simp: splice_def nth_append min_def intro!: arg_cong [where f = "(!) d"])

lemma slice_splice [simp]: "off + length xs \<le> length d \<Longrightarrow> slice (splice d off xs) off (length xs) = xs"
  by (simp add: slice_def splice_def)

lemma length_slice [simp]: "off + n \<le> length d \<Longrightarrow> length (slice d off n) = n"
  by (simp add: slice_def)

lemma nth_slice: "off + n \<le> length d \<Longrightarrow> j < n \<Longrightarrow> slice d off n ! j = d ! (off + j)"
  by (simp add: slice_def)

lemma length_put [simp]:
  "i + 2 \<le> length d \<Longrightarrow> length (put16 d i w) = length d" "i + 4 \<le> length d \<Longrightarrow> length (put32 d i v) = length d"
  by (simp_all add: put16_def put32_def)

lemma get32_bytes32: "get32 (bytes32 w) 0 = w"
proof (rule bit_word_eqI)
  fix n assume n: "n < LENGTH(32)"
  show "bit (get32 (bytes32 w) 0) n = bit w n"
    using n by (cases "n < 8"; cases "n < 16"; cases "n < 24") (auto simp: get32_def bytes32_def bit_simps)
qed

lemma get16_bytes16: "get16 (bytes16 w) 0 = w"
  by (rule bit_word_eqI) (auto simp: get16_def bytes16_def bit_simps)

lemma get32_splice_same:
  assumes "off + length xs \<le> length d" "off \<le> i" "i + 4 \<le> off + length xs"
  shows "get32 (splice d off xs) i = get32 xs (i - off)"
proof -
  have "splice d off xs ! (i + m) = xs ! (i - off + m)" if "m < 4" for m
    using assms that by (simp add: nth_splice)
  from this [of 0] this [of 1] this [of 2] this [of 3] show ?thesis by (simp add: get32_def)
qed

lemma get16_splice_same:
  assumes "off + length xs \<le> length d" "off \<le> i" "i + 2 \<le> off + length xs"
  shows "get16 (splice d off xs) i = get16 xs (i - off)"
proof -
  have "splice d off xs ! (i + m) = xs ! (i - off + m)" if "m < 2" for m
    using assms that by (simp add: nth_splice)
  from this [of 0] this [of 1] show ?thesis by (simp add: get16_def)
qed

lemma get32_splice_other:
  assumes "off + length xs \<le> length d" "i + 4 \<le> off \<or> off + length xs \<le> i"
  shows "get32 (splice d off xs) i = get32 d i"
proof -
  have "splice d off xs ! (i + m) = d ! (i + m)" if "m < 4" for m
    using assms(2) that by (intro splice_beside [OF assms(1)]) auto
  from this [of 0] this [of 1] this [of 2] this [of 3] show ?thesis by (simp add: get32_def)
qed

lemma get16_splice_other:
  assumes "off + length xs \<le> length d" "i + 2 \<le> off \<or> off + length xs \<le> i"
  shows "get16 (splice d off xs) i = get16 d i"
proof -
  have "splice d off xs ! (i + m) = d ! (i + m)" if "m < 2" for m
    using assms(2) that by (intro splice_beside [OF assms(1)]) auto
  from this [of 0] this [of 1] show ?thesis by (simp add: get16_def)
qed

lemma get_put [simp]:
  "i + 4 \<le> length d \<Longrightarrow> get32 (put32 d i w) i = w" "i + 2 \<le> length d \<Longrightarrow> get16 (put16 d i v) i = v"
  by (simp_all add: put32_def put16_def get32_splice_same get16_splice_same get32_bytes32 get16_bytes16)

lemma get_put_other:
  "i + 4 \<le> length d \<Longrightarrow> j + 4 \<le> i \<or> i + 4 \<le> j \<Longrightarrow> get32 (put32 d i w) j = get32 d j"
  "i + 4 \<le> length d \<Longrightarrow> j + 2 \<le> i \<or> i + 4 \<le> j \<Longrightarrow> get16 (put32 d i w) j = get16 d j"
  "i + 2 \<le> length d \<Longrightarrow> j + 4 \<le> i \<or> i + 2 \<le> j \<Longrightarrow> get32 (put16 d i v) j = get32 d j"
  "i + 2 \<le> length d \<Longrightarrow> j + 2 \<le> i \<or> i + 2 \<le> j \<Longrightarrow> get16 (put16 d i v) j = get16 d j"
  by (simp_all add: put32_def put16_def get32_splice_other get16_splice_other)

end
