(* ===== verification/Log.thy ===== *)
theory Log
  imports Bio_Spec Bytes
begin

text \<open>
  The write-ahead log (log.c) with the super block (fs.h, fs.c) that says where it is. A transaction collects block numbers,
  the modified blocks stay in the cache; \<open>commit\<close> copies them to the log, writes the header, copies them home and clears
  the header. An access outside of an array, which the code does not check for, ends the run of the model.
\<close>

section \<open>State\<close>

record superblock =
  sb_size :: u32
  sb_nblocks :: u32
  sb_ninodes :: u32
  sb_nlog :: u32
  sb_logstart :: u32
  sb_inodestart :: u32
  sb_bmapstart :: u32

definition get_superblock :: "block \<Rightarrow> superblock" where
  "get_superblock d =
     \<lparr>sb_size = get32 d 0, sb_nblocks = get32 d 4, sb_ninodes = get32 d 8, sb_nlog = get32 d 12, sb_logstart = get32 d 16,
      sb_inodestart = get32 d 20, sb_bmapstart = get32 d 24\<rparr>"

record logheader =
  lh_n :: int
  lh_block :: "u32 list"

record klog =
  lg_start :: int
  lg_size :: int
  lg_outstanding :: int
  lg_committing :: int
  lg_dev :: int
  lg_lh :: logheader

record log_state = buf_state +
  log :: klog

definition upd_log :: "(klog \<Rightarrow> klog) \<Rightarrow> 'a log_state_scheme \<Rightarrow> 'a log_state_scheme" where
  "upd_log f k = k\<lparr>log := f (log k)\<rparr>"

definition upd_lh :: "(logheader \<Rightarrow> logheader) \<Rightarrow> 'a log_state_scheme \<Rightarrow> 'a log_state_scheme" where
  "upd_lh f = upd_log (lg_lh_update f)"

definition array_get :: "'b list \<Rightarrow> int \<Rightarrow> 'b outcome" where
  "array_get xs i = (if 0 \<le> i \<and> i < int (length xs) then Ret (xs ! nat i) else Panic ''array index'')"

definition array_set :: "'b list \<Rightarrow> int \<Rightarrow> 'b \<Rightarrow> 'b list outcome" where
  "array_set xs i x = (if 0 \<le> i \<and> i < int (length xs) then Ret (xs[nat i := x]) else Panic ''array index'')"

section \<open>Operations\<close>

definition readsb :: "u32 \<Rightarrow> 'a buf_state_scheme \<Rightarrow> (superblock \<times> 'a buf_state_scheme) outcome" where
  "readsb dev k =
     obind (bread dev 1 k) (\<lambda>(bp, k).
       let sb = get_superblock (b_data (bufs k ! bp)) in
       obind (brelse bp k) (\<lambda>k. Ret (sb, k)))"

text \<open>The loops count from 0 to \<^verbatim>\<open>log.lh.n\<close>.\<close>

definition install_step :: "int \<Rightarrow> 'a log_state_scheme \<Rightarrow> 'a log_state_scheme outcome" where
  "install_step tail k =
     (let dev = of_int (lg_dev (log k)) in
      obind (bread dev (of_int (lg_start (log k) + tail + 1)) k) (\<lambda>(lbuf, k).
        obind (array_get (lh_block (lg_lh (log k))) tail) (\<lambda>dst.
          obind (bread dev dst k) (\<lambda>(dbuf, k).
            let k = upd_buf dbuf (b_data_update (\<lambda>_. b_data (bufs k ! lbuf))) k in
            obind (bwrite dbuf k) (\<lambda>k. obind (brelse lbuf k) (brelse dbuf))))))"

definition install_trans :: "'a log_state_scheme \<Rightarrow> 'a log_state_scheme outcome" where
  "install_trans k = ofold install_step (map int [0..<nat (lh_n (lg_lh (log k)))]) k"

definition read_head_step :: "block \<Rightarrow> int \<Rightarrow> 'a log_state_scheme \<Rightarrow> 'a log_state_scheme outcome" where
  "read_head_step d i k =
     obind (array_set (lh_block (lg_lh (log k))) i (get32 d (4 + 4 * nat i))) (\<lambda>bl. Ret (upd_lh (lh_block_update (\<lambda>_. bl)) k))"

definition read_head :: "'a log_state_scheme \<Rightarrow> 'a log_state_scheme outcome" where
  "read_head k =
     obind (bread (of_int (lg_dev (log k))) (of_int (lg_start (log k))) k) (\<lambda>(b, k).
       let d = b_data (bufs k ! b);
           k = upd_lh (lh_n_update (\<lambda>_. sint (get32 d 0))) k
       in obind (ofold (read_head_step d) (map int [0..<nat (lh_n (lg_lh (log k)))]) k) (brelse b))"

definition write_head_step :: "nat \<Rightarrow> int \<Rightarrow> 'a log_state_scheme \<Rightarrow> 'a log_state_scheme outcome" where
  "write_head_step b i k =
     obind (array_get (lh_block (lg_lh (log k))) i) (\<lambda>x.
       Ret (upd_buf b (b_data_update (\<lambda>d. put32 d (4 + 4 * nat i) x)) k))"

definition write_head :: "'a log_state_scheme \<Rightarrow> 'a log_state_scheme outcome" where
  "write_head k =
     obind (bread (of_int (lg_dev (log k))) (of_int (lg_start (log k))) k) (\<lambda>(b, k).
       let k = upd_buf b (b_data_update (\<lambda>d. put32 d 0 (of_int (lh_n (lg_lh (log k)))))) k in
       obind (ofold (write_head_step b) (map int [0..<nat (lh_n (lg_lh (log k)))]) k) (\<lambda>k.
         obind (bwrite b k) (brelse b)))"

definition recover_from_log :: "'a log_state_scheme \<Rightarrow> 'a log_state_scheme outcome" where
  "recover_from_log k =
     obind (read_head k) (\<lambda>k.
       obind (install_trans k) (\<lambda>k. write_head (upd_lh (lh_n_update (\<lambda>_. 0)) k)))"

definition initlog :: "int \<Rightarrow> 'a log_state_scheme \<Rightarrow> 'a log_state_scheme outcome" where
  "initlog dev k =
     (if 4 + 4 * LOGSIZE \<ge> BSIZE then Panic ''initlog: too big logheader''
      else
        let k = initlockk LogLock ''log'' k in
        obind (readsb (of_int dev) k) (\<lambda>(sb, k).
          recover_from_log
            (upd_log (\<lambda>l. l\<lparr>lg_start := sint (sb_logstart sb), lg_size := sint (sb_nlog sb), lg_dev := dev\<rparr>) k)))"

text \<open>\<open>begin_op\<close> with the lock held, up to where it sleeps or has reserved its space.\<close>

definition begin_op_body :: "'a log_state_scheme \<Rightarrow> (unit blocking \<times> 'a log_state_scheme) outcome" where
  "begin_op_body k =
     (if lg_committing (log k) \<noteq> 0
      then obind (sleep LogChan (Some LogLock) k) (\<lambda>(e, k). Ret (Blocked LogChan e, k))
      else if lh_n (lg_lh (log k)) + (lg_outstanding (log k) + 1) * int MAXOPBLOCKS > int LOGSIZE
      then obind (sleep LogChan (Some LogLock) k) (\<lambda>(e, k). Ret (Blocked LogChan e, k))
      else obind (releasek LogLock (upd_log (lg_outstanding_update (\<lambda>n. n + 1)) k)) (\<lambda>k. Ret (Done (), k)))"

definition begin_op :: "'a log_state_scheme \<Rightarrow> (unit blocking \<times> 'a log_state_scheme) outcome" where
  "begin_op k = obind (acquirek LogLock k) begin_op_body"

definition begin_op_return :: "nat \<Rightarrow> u32 \<Rightarrow> 'a log_state_scheme \<Rightarrow> (unit blocking \<times> 'a log_state_scheme) outcome" where
  "begin_op_return cur e k = obind (sleep_return cur LogLock e k) begin_op_body"

definition write_log_step :: "int \<Rightarrow> 'a log_state_scheme \<Rightarrow> 'a log_state_scheme outcome" where
  "write_log_step tail k =
     (let dev = of_int (lg_dev (log k)) in
      obind (bread dev (of_int (lg_start (log k) + tail + 1)) k) (\<lambda>(to, k).
        obind (array_get (lh_block (lg_lh (log k))) tail) (\<lambda>src.
          obind (bread dev src k) (\<lambda>(from_b, k).
            let k = upd_buf to (b_data_update (\<lambda>_. b_data (bufs k ! from_b))) k in
            obind (bwrite to k) (\<lambda>k. obind (brelse from_b k) (brelse to))))))"

definition write_log :: "'a log_state_scheme \<Rightarrow> 'a log_state_scheme outcome" where
  "write_log k = ofold write_log_step (map int [0..<nat (lh_n (lg_lh (log k)))]) k"

definition commit :: "'a log_state_scheme \<Rightarrow> 'a log_state_scheme outcome" where
  "commit k =
     (if lh_n (lg_lh (log k)) > 0 then
        obind (write_log k) (\<lambda>k.
          obind (write_head k) (\<lambda>k.
            obind (install_trans k) (\<lambda>k. write_head (upd_lh (lh_n_update (\<lambda>_. 0)) k))))
      else Ret k)"

definition end_op :: "'a log_state_scheme \<Rightarrow> 'a log_state_scheme outcome" where
  "end_op k =
     obind (acquirek LogLock k) (\<lambda>k.
       let k = upd_log (lg_outstanding_update (\<lambda>n. n - 1)) k in
       if lg_committing (log k) \<noteq> 0 then Panic ''log.committing''
       else if lg_outstanding (log k) = 0 then
         obind (releasek LogLock (upd_log (lg_committing_update (\<lambda>_. 1)) k)) (\<lambda>k.
           obind (commit k) (\<lambda>k.
             obind (acquirek LogLock k) (\<lambda>k.
               obind (wakeup LogChan (upd_log (lg_committing_update (\<lambda>_. 0)) k)) (releasek LogLock))))
       else obind (wakeup LogChan k) (releasek LogLock))"

text \<open>\<open>log_index n bl x\<close> is where the scan of \<open>log_write\<close> stops.\<close>

definition log_index :: "int \<Rightarrow> u32 list \<Rightarrow> u32 \<Rightarrow> int" where
  "log_index n bl x = (case find (\<lambda>i. bl ! i = x) [0..<nat n] of Some i \<Rightarrow> int i | None \<Rightarrow> int (nat n))"

definition log_write :: "nat \<Rightarrow> 'a log_state_scheme \<Rightarrow> 'a log_state_scheme outcome" where
  "log_write b k =
     (let n = lh_n (lg_lh (log k)) in
      if n \<ge> int LOGSIZE \<or> n \<ge> lg_size (log k) - 1 then Panic ''too big a transaction''
      else if lg_outstanding (log k) < 1 then Panic ''log_write outside of trans''
      else obind (acquirek LogLock k) (\<lambda>k.
        let i = log_index n (lh_block (lg_lh (log k))) (b_blockno (bufs k ! b)) in
        obind (array_set (lh_block (lg_lh (log k))) i (b_blockno (bufs k ! b))) (\<lambda>bl.
          let k = upd_lh (lh_block_update (\<lambda>_. bl)) k;
              k = (if i = n then upd_lh (lh_n_update (\<lambda>m. m + 1)) k else k);
              k = upd_buf b (b_flags_update (\<lambda>f. f OR B_DIRTY)) k
          in releasek LogLock k)))"

end
