(* ===== verification/Log_Spec.thy ===== *)
theory Log_Spec
  imports Log
begin

text \<open>
  The log makes a transaction atomic: what \<open>commit\<close> and recovery write to the disk, in which order,
  and what recovery makes of a disk on which a crash has cut that sequence short.
\<close>

section \<open>Sequences of block writes\<close>

definition put_blocks :: "(u32 \<times> block) list \<Rightarrow> (u32 \<Rightarrow> block) \<Rightarrow> u32 \<Rightarrow> block" where
  "put_blocks ws f = fold (\<lambda>(m, d) f. f(m := d)) ws f"

lemma put_blocks_simps [simp]:
  "put_blocks [] f = f" "put_blocks ((m, d) # ws) f = put_blocks ws (f(m := d))"
  "put_blocks (ws @ vs) f = put_blocks vs (put_blocks ws f)"
  by (simp_all add: put_blocks_def)

lemma put_blocks_other: "m \<notin> fst ` set ws \<Longrightarrow> put_blocks ws f m = f m"
  by (induction ws arbitrary: f) (auto simp: put_blocks_def)

lemma put_blocks_same:
  assumes "(m, d) \<in> set ws" "\<And>e. (m, e) \<in> set ws \<Longrightarrow> e = d"
  shows "put_blocks ws f m = d"
  using assms
proof (induction ws arbitrary: f rule: rev_induct)
  case (snoc w ws)
  show ?case
  proof (cases "fst w = m")
    case True
    then have "snd w = d" using snoc.prems(2) [of "snd w"] by (cases w) auto
    then show ?thesis using True by (cases w) simp
  next
    case False
    then have "(m, d) \<in> set ws" using snoc.prems(1) by auto
    moreover have "e = d" if "(m, e) \<in> set ws" for e using snoc.prems(2) [of e] that by simp
    ultimately have "put_blocks ws f m = d" by (rule snoc.IH)
    then show ?thesis using False by (cases w) simp
  qed
qed simp

text \<open>\<open>k'\<close> is \<open>k\<close> after the writes \<open>ws\<close> to disk 1, with nothing held and no other change.\<close>

definition wrote :: "nat \<Rightarrow> (u32 \<times> block) list \<Rightarrow> 'a buf_state_scheme \<Rightarrow> 'a buf_state_scheme \<Rightarrow> bool" where
  "wrote p ws k k' \<longleftrightarrow> cache_ok p {} k' \<and> disk k' = (disk k)(1 := put_blocks ws (disk k 1)) \<and> view k' = put_blocks ws (view k) \<and>
     writes k' = writes k @ map (\<lambda>(m, d). (1, m, d)) ws \<and> bio_frame p k k'"

lemma wrote_nil [simp]: "wrote p [] k k \<longleftrightarrow> cache_ok p {} k"
  by (simp add: wrote_def)

lemma wrote_trans: "wrote p ws k k' \<Longrightarrow> wrote p vs k' k'' \<Longrightarrow> wrote p (ws @ vs) k k''"
  by (auto simp: wrote_def intro: bio_frame_trans)

lemma wroteD:
  assumes "wrote p ws k k'"
  shows "cache_ok p {} k'" "disk k' 1 = put_blocks ws (disk k 1)" "view k' = put_blocks ws (view k)" "bio_frame p k k'"
  using assms by (simp_all add: wrote_def)

lemma bio_frame_log:
  fixes k k' :: "'a log_state_scheme"
  assumes "bio_frame p k k'"
  shows "log k' = log k" "log_state.more k' = log_state.more k"
  using bio_frameD(7) [OF assms] by (cases k, cases k', simp)+

section \<open>Copying a block\<close>

lemma read_pair:
  assumes "cache_ok p {} k" "unat A < FSSIZE" "unat B < FSSIZE" "A \<noteq> B" "card (dblocks k) < NBUF"
    and "B \<in> dblocks k \<or> card (dblocks k) + 1 < NBUF"
  obtains a b k1 k2 where "bread 1 A k = Ret (a, k1)" "bread 1 B k1 = Ret (b, k2)" "cache_ok p {a, b} k2" "a \<noteq> b"
    "holds A (bufs k2 ! a)" "holds B (bufs k2 ! b)" "view k2 = view k" "dblocks k2 = dblocks k" "disk k2 = disk k"
    "writes k2 = writes k" "bio_frame p k k1" "bio_frame p k k2"
proof -
  obtain a k1 where r1: "bread 1 A k = Ret (a, k1)" and g1: "got p {} k A a k1" and d1: "dblocks k1 = dblocks k"
    using bread_block [OF assms(1,2)] assms(5) by (metis add_0 card.empty empty_iff)
  have c1: "cache_ok p {a} k1" "holds A (bufs k1 ! a)" "view k1 = view k" "disk k1 = disk k" "writes k1 = writes k" "bio_frame p k k1"
    using g1 by (simp_all add: got_def)
  have na: "\<not> holds B (bufs k1 ! c)" if "c \<in> {a}" for c using that c1(2) assms(4) by (simp add: holds_def)
  have room: "B \<in> dblocks k1 \<or> card {a} + card (dblocks k1) < NBUF" using assms(6) d1 by auto
  obtain b k2 where r2: "bread 1 B k1 = Ret (b, k2)" and g2: "got p {a} k1 B b k2" and d2: "dblocks k2 = dblocks k1"
    using bread_block [OF c1(1) assms(3) na room] by metis
  have c2: "cache_ok p {b, a} k2" "b \<noteq> a" "holds B (bufs k2 ! b)" "view k2 = view k1" "disk k2 = disk k1" "writes k2 = writes k1"
    "bio_frame p k1 k2" "content (bufs k2 ! a) = content (bufs k1 ! a)"
    using g2 by (auto simp: got_def)
  have "holds A (bufs k2 ! a)" using content_eq [OF c2(8)] c1(2) by blast
  then show ?thesis
    using that [OF r1 r2 _ _ _ c2(3)] c1 c2 d1 d2 bio_frame_trans [OF c1(6) c2(7)] by (simp add: insert_commute)
qed

lemma copy_pair:
  assumes "cache_ok p {s, d} k" "s \<noteq> d" "holds A (bufs k ! s)" "holds B (bufs k ! d)" "A \<in> dblocks k \<or> view k A = disk k 1 A"
  obtains k' where
    "obind (bwrite d (upd_buf d (b_data_update (\<lambda>_. b_data (bufs k ! s))) k)) (\<lambda>k. obind (brelse s k) (brelse d)) = Ret k'"
    "wrote p [(B, view k A)] k k'" "dblocks k' = dblocks k - {B}"
proof -
  note c = cache_okD [OF assms(1)]
  have sl: "s < NBUF" "d < NBUF" using c(5) by auto
  have AB: "A \<noteq> B" using c(8) [OF sl assms(3)] assms(2,4) by blast
  have dat: "b_data (bufs k ! s) = view k A" using view_holds [OF assms(1) sl(1) assms(3)] by simp
  have len: "length (view k A) = BSIZE"
    using c(7) [OF sl(1)] assms(3) dat by (auto simp: buf_ok_def holds_def)
  obtain k1 where w: "bwrite d (upd_buf d (b_data_update (\<lambda>_. view k A)) k) = Ret k1" "cache_ok p {s, d} k1"
    "view k1 = (view k)(B := view k A)" "dblocks k1 = dblocks k - {B}" "disk k1 = (disk k)(1 := (disk k 1)(B := view k A))"
    "writes k1 = writes k @ [(1, B, view k A)]" "\<And>c m. holds m (bufs k1 ! c) = holds m (bufs k ! c)" "bio_frame p k k1"
    using write_block [OF assms(1) _ assms(4) len] by (metis insertCI)
  have h1: "holds A (bufs k1 ! s)" "holds B (bufs k1 ! d)" using w(7) assms(3,4) by simp_all
  have x1: "A \<in> dblocks k1 \<or> view k1 A = disk k1 1 A" using w(3,4,5) AB assms(5) by auto
  obtain k2 where r: "brelse s k1 = Ret k2" "cache_ok p ({s, d} - {s}) k2" "view k2 = view k1" "dblocks k2 = dblocks k1"
    "disk k2 = disk k1" "writes k2 = writes k1" "\<And>c m. c \<noteq> s \<Longrightarrow> holds m (bufs k2 ! c) = holds m (bufs k1 ! c)" "bio_frame p k1 k2"
    using release_block [OF w(2) _ h1(1) x1] by (metis insertCI)
  have h2: "holds B (bufs k2 ! d)" using r(7) assms(2) h1(2) by metis
  have x2: "B \<in> dblocks k2 \<or> view k2 B = disk k2 1 B" using r w by simp
  have e: "{s, d} - {s} = {d}" using assms(2) by auto
  obtain k3 where q: "brelse d k2 = Ret k3" "cache_ok p ({d} - {d}) k3" "view k3 = view k2" "dblocks k3 = dblocks k2"
    "disk k3 = disk k2" "writes k3 = writes k2" "bio_frame p k2 k3"
    using release_block [OF r(2) [unfolded e] singletonI h2 x2] by metis
  have "bio_frame p k k3" using w(8) r(8) q(7) bio_frame_trans by metis
  then have "wrote p [(B, view k A)] k k3" using q r w by (simp add: wrote_def)
  then show ?thesis using that w(1) r(1,4) q(1,4) w(4) dat by simp
qed


section \<open>The log in memory and on the disk\<close>

definition log_wf :: "klog \<Rightarrow> bool" where
  "log_wf l \<longleftrightarrow> lg_dev l = 1 \<and> 0 \<le> lg_start l \<and> lg_start l + lg_size l \<le> int FSSIZE \<and> lg_size l \<le> int LOGSIZE \<and>
     length (lh_block (lg_lh l)) = LOGSIZE \<and> 0 \<le> lh_n (lg_lh l) \<and> lh_n (lg_lh l) < lg_size l"

definition hdr_block :: "klog \<Rightarrow> u32" where
  "hdr_block l = of_int (lg_start l)"

definition log_block :: "klog \<Rightarrow> nat \<Rightarrow> u32" where
  "log_block l i = of_int (lg_start l + int i + 1)"

definition in_log :: "klog \<Rightarrow> u32 \<Rightarrow> bool" where
  "in_log l m \<longleftrightarrow> nat (lg_start l) \<le> unat m \<and> unat m < nat (lg_start l + lg_size l)"

definition logged :: "klog \<Rightarrow> u32 list" where
  "logged l = take (nat (lh_n (lg_lh l))) (lh_block (lg_lh l))"

lemma unat_of_int_u32: "0 \<le> x \<Longrightarrow> x < 4294967296 \<Longrightarrow> unat (of_int x :: u32) = nat x"
  by (simp add: unsigned_of_int take_bit_int_eq_self)

lemma log_blocks:
  assumes "log_wf l"
  shows "unat (hdr_block l) = nat (lg_start l)" "int i + 1 < lg_size l \<Longrightarrow> unat (log_block l i) = nat (lg_start l) + i + 1"
    "unat (hdr_block l) < FSSIZE" "int i + 1 < lg_size l \<Longrightarrow> unat (log_block l i) < FSSIZE"
    "in_log l (hdr_block l)" "int i + 1 < lg_size l \<Longrightarrow> in_log l (log_block l i)"
proof -
  have w: "0 \<le> lg_start l" "lg_start l + lg_size l \<le> int FSSIZE" "0 < lg_size l" using assms by (auto simp: log_wf_def)
  show h: "unat (hdr_block l) = nat (lg_start l)" using unat_of_int_u32 [of "lg_start l"] w by (simp add: hdr_block_def)
  then show "unat (hdr_block l) < FSSIZE" "in_log l (hdr_block l)" using w by (auto simp: in_log_def)
  assume i: "int i + 1 < lg_size l"
  show b: "unat (log_block l i) = nat (lg_start l) + i + 1" unfolding log_block_def using i w by (subst unat_of_int_u32) auto
  then show "unat (log_block l i) < FSSIZE" "in_log l (log_block l i)" using w i by (auto simp: in_log_def)
qed

lemma log_block_inj:
  assumes "log_wf l" "int i + 1 < lg_size l"
  shows "log_block l i \<noteq> hdr_block l" "int j + 1 < lg_size l \<Longrightarrow> log_block l i = log_block l j \<longleftrightarrow> i = j"
  using log_blocks(1,2) [OF assms(1)] assms(2) by (metis add_cancel_right_right add.assoc add_is_0 zero_neq_one, metis add_left_cancel add_right_cancel)

lemma logged_simps:
  assumes "log_wf l"
  shows "length (logged l) = nat (lh_n (lg_lh l))" "i < nat (lh_n (lg_lh l)) \<Longrightarrow> logged l ! i = lh_block (lg_lh l) ! i"
    "i < nat (lh_n (lg_lh l)) \<Longrightarrow> array_get (lh_block (lg_lh l)) (int i) = Ret (logged l ! i)"
    "i < nat (lh_n (lg_lh l)) \<Longrightarrow> int i + 1 < lg_size l" "nat (lh_n (lg_lh l)) < NBUF"
  using assms by (auto simp: logged_def log_wf_def array_get_def)

definition home_block :: "klog \<Rightarrow> u32 \<Rightarrow> bool" where
  "home_block l m \<longleftrightarrow> unat m < FSSIZE \<and> \<not> in_log l m"

lemma write_log_ok:
  fixes k :: "'a log_state_scheme"
  assumes "cache_ok p {} k" "log_wf (log k)" "\<forall>m\<in>set (logged (log k)). home_block (log k) m"
    and "set (logged (log k)) \<subseteq> dblocks k" "card (dblocks k) < NBUF" "\<forall>m\<in>dblocks k. \<not> in_log (log k) m"
    and "t \<le> nat (lh_n (lg_lh (log k)))"
  shows "\<exists>k'. ofold write_log_step (map int [0..<t]) k = Ret k' \<and>
    wrote p (map (\<lambda>i. (log_block (log k) i, view k (logged (log k) ! i))) [0..<t]) k k' \<and> dblocks k' = dblocks k"
  using assms(7)
proof (induction t)
  case 0
  then show ?case using assms(1) by simp
next
  case (Suc t)
  let ?l = "log k"
  let ?ws = "map (\<lambda>i. (log_block ?l i, view k (logged ?l ! i))) [0..<t]"
  obtain k1 where k1: "ofold write_log_step (map int [0..<t]) k = Ret k1" "wrote p ?ws k k1" "dblocks k1 = dblocks k"
    using Suc by auto
  note w = wroteD [OF k1(2)]
  have l1: "log k1 = ?l" using bio_frame_log [OF w(4)] by simp
  have t: "t < nat (lh_n (lg_lh ?l))" using Suc.prems by simp
  note lt = logged_simps(4) [OF assms(2) t]
  let ?A = "log_block ?l t" and ?B = "logged ?l ! t"
  have B: "?B \<in> set (logged ?l)" using t logged_simps(1) [OF assms(2)] by simp
  then have hB: "unat ?B < FSSIZE" "\<not> in_log ?l ?B" "?B \<in> dblocks k" using assms(3,4) by (auto simp: home_block_def)
  have AB: "?A \<noteq> ?B" using log_blocks(6) [OF assms(2) lt] hB(2) by metis
  obtain a b k2 k3 where r: "bread 1 ?A k1 = Ret (a, k2)" "bread 1 ?B k2 = Ret (b, k3)" "cache_ok p {a, b} k3" "a \<noteq> b"
    "holds ?A (bufs k3 ! a)" "holds ?B (bufs k3 ! b)" "view k3 = view k1" "dblocks k3 = dblocks k1" "disk k3 = disk k1"
    "writes k3 = writes k1" "bio_frame p k1 k2" "bio_frame p k1 k3"
    using read_pair [OF w(1) log_blocks(4) [OF assms(2) lt] hB(1) AB] assms(5) hB(3) unfolding k1(3) by metis
  have l2: "log k2 = ?l" using bio_frame_log [OF r(11)] l1 by simp
  have Bd: "?B \<in> dblocks k3" using r(8) k1(3) hB(3) by simp
  have ba: "cache_ok p {b, a} k3" using r(3) by (simp add: insert_commute)
  obtain k4 where c: "obind (bwrite a (upd_buf a (b_data_update (\<lambda>_. b_data (bufs k3 ! b))) k3)) (\<lambda>k. obind (brelse b k) (brelse a)) = Ret k4"
    "wrote p [(?A, view k3 ?B)] k3 k4" "dblocks k4 = dblocks k3 - {?A}"
    using copy_pair [OF ba r(4) [symmetric] r(6,5) disjI1 [OF Bd]] .
  have v1: "view k1 ?B = view k ?B"
  proof -
    have "?B \<notin> fst ` set ?ws"
    proof
      assume "?B \<in> fst ` set ?ws"
      then obtain i where i: "i < t" "?B = log_block ?l i" by auto
      then show False using log_blocks(6) [OF assms(2) logged_simps(4) [OF assms(2)], of i] t hB(2) by auto
    qed
    then show ?thesis by (simp add: w(3) put_blocks_other)
  qed
  have fr: "wrote p [(?A, view k ?B)] k1 k4"
    using c(2) r(7,9,10) bio_frame_trans [OF r(12)] by (simp add: wrote_def v1)
  have "write_log_step (int t) k1 = Ret k4"
    using r(1,2) c(1) l1 l2 logged_simps(3) [OF assms(2) t] assms(2)
    by (simp add: write_log_step_def log_block_def log_wf_def)
  then have "ofold write_log_step (map int [0..<Suc t]) k = Ret k4" using k1(1) by (simp add: ofold_append)
  moreover have "wrote p (map (\<lambda>i. (log_block ?l i, view k (logged ?l ! i))) [0..<Suc t]) k k4"
    using wrote_trans [OF k1(2) fr] by simp
  moreover have "?A \<notin> dblocks k" using assms(6) log_blocks(6) [OF assms(2) lt] by blast
  then have "dblocks k4 = dblocks k" using c(3) r(8) k1(3) by simp
  ultimately show ?case by blast
qed


text \<open>A block that is neither held nor waiting agrees with the disk.\<close>

lemma view_disk:
  assumes "cache_ok p {} k" "m \<notin> dblocks k"
  shows "view k m = disk k 1 m"
proof (cases "\<exists>b<NBUF. holds m (bufs k ! b)")
  case True
  then obtain b where b: "b < NBUF" "holds m (bufs k ! b)" by blast
  then have "b \<notin> dirty k" using in_dblocks [OF assms(1) b] assms(2) by simp
  then show ?thesis using cache_okD(7) [OF assms(1) b(1)] view_holds [OF assms(1) b] b
    by (auto simp: buf_ok_def holds_def dirty_def)
next
  case False
  then show ?thesis using view_uncached by blast
qed

lemma install_ok:
  fixes k :: "'a log_state_scheme"
  assumes "cache_ok p {} k" "log_wf (log k)" "\<forall>m\<in>set (logged (log k)). home_block (log k) m" "\<forall>m\<in>dblocks k. \<not> in_log (log k) m"
    and "dblocks k = {} \<or> set (logged (log k)) \<subseteq> dblocks k \<and> distinct (logged (log k)) \<and> card (dblocks k) < NBUF"
    and "t \<le> nat (lh_n (lg_lh (log k)))"
  shows "\<exists>k'. ofold install_step (map int [0..<t]) k = Ret k' \<and>
    wrote p (map (\<lambda>i. (logged (log k) ! i, view k (log_block (log k) i))) [0..<t]) k k' \<and>
    dblocks k' = dblocks k - set (take t (logged (log k)))"
  using assms(6)
proof (induction t)
  case 0
  then show ?case using assms(1) by simp
next
  case (Suc t)
  let ?l = "log k"
  let ?ws = "map (\<lambda>i. (logged ?l ! i, view k (log_block ?l i))) [0..<t]"
  obtain k1 where k1: "ofold install_step (map int [0..<t]) k = Ret k1" "wrote p ?ws k k1"
    "dblocks k1 = dblocks k - set (take t (logged ?l))" using Suc by auto
  note w = wroteD [OF k1(2)]
  have l1: "log k1 = ?l" using bio_frame_log [OF w(4)] by simp
  have t: "t < nat (lh_n (lg_lh ?l))" "t < length (logged ?l)" using Suc.prems logged_simps(1) [OF assms(2)] by simp_all
  note lt = logged_simps(4) [OF assms(2) t(1)]
  let ?A = "log_block ?l t" and ?B = "logged ?l ! t"
  have hB: "unat ?B < FSSIZE" "\<not> in_log ?l ?B" using assms(3) t(2) by (auto simp: home_block_def)
  have A: "in_log ?l ?A" using log_blocks(6) [OF assms(2) lt] .
  have AB: "?A \<noteq> ?B" using A hB(2) by metis
  have sub: "dblocks k1 \<subseteq> dblocks k" using k1(3) by blast
  have fin: "finite (dblocks k)" using card_dblocks(2) [OF assms(1)] .
  have room: "card (dblocks k1) < NBUF" "?B \<in> dblocks k1 \<or> card (dblocks k1) + 1 < NBUF"
  proof -
    have "card (dblocks k) < NBUF" using assms(5) by auto
    then show "card (dblocks k1) < NBUF" using card_mono [OF fin sub] by simp
    show "?B \<in> dblocks k1 \<or> card (dblocks k1) + 1 < NBUF"
    proof (cases "dblocks k = {}")
      case False
      then have "set (logged ?l) \<subseteq> dblocks k" "distinct (logged ?l)" using assms(5) by auto
      then have "?B \<in> dblocks k" "distinct (logged ?l)" using nth_mem [OF t(2)] by blast+
      moreover have "?B \<notin> set (take t (logged ?l))"
        using \<open>distinct (logged ?l)\<close> t(2) by (auto simp: in_set_conv_nth nth_eq_iff_index_eq)
      ultimately show ?thesis using k1(3) by blast
    qed (use sub in auto)
  qed
  obtain a b k2 k3 where r: "bread 1 ?A k1 = Ret (a, k2)" "bread 1 ?B k2 = Ret (b, k3)" "cache_ok p {a, b} k3" "a \<noteq> b"
    "holds ?A (bufs k3 ! a)" "holds ?B (bufs k3 ! b)" "view k3 = view k1" "dblocks k3 = dblocks k1" "disk k3 = disk k1"
    "writes k3 = writes k1" "bio_frame p k1 k2" "bio_frame p k1 k3"
    using read_pair [OF w(1) log_blocks(4) [OF assms(2) lt] hB(1) AB room] by metis
  have l2: "log k2 = ?l" using bio_frame_log [OF r(11)] l1 by simp
  have nA: "?A \<notin> dblocks k1" using sub assms(4) A by blast
  have x: "?A \<in> dblocks k3 \<or> view k3 ?A = disk k3 1 ?A" using view_disk [OF w(1) nA] r(7,9) by simp
  obtain k4 where c: "obind (bwrite b (upd_buf b (b_data_update (\<lambda>_. b_data (bufs k3 ! a))) k3)) (\<lambda>k. obind (brelse a k) (brelse b)) = Ret k4"
    "wrote p [(?B, view k3 ?A)] k3 k4" "dblocks k4 = dblocks k3 - {?B}"
    using copy_pair [OF r(3-6) x] .
  have v1: "view k1 ?A = view k ?A"
  proof -
    have "?A \<notin> fst ` set ?ws"
    proof
      assume "?A \<in> fst ` set ?ws"
      then obtain i where i: "i < t" "?A = logged ?l ! i" by auto
      then have "\<not> in_log ?l ?A" using assms(3) t(2) by (simp add: home_block_def)
      then show False using A by simp
    qed
    then show ?thesis by (simp add: w(3) put_blocks_other)
  qed
  have fr: "wrote p [(?B, view k ?A)] k1 k4"
    using c(2) r(7,9,10) bio_frame_trans [OF r(12)] by (simp add: wrote_def v1)
  have "install_step (int t) k1 = Ret k4"
    using r(1,2) c(1) l1 l2 logged_simps(3) [OF assms(2) t(1)] assms(2)
    by (simp add: install_step_def log_block_def log_wf_def)
  then have "ofold install_step (map int [0..<Suc t]) k = Ret k4" using k1(1) by (simp add: ofold_append)
  moreover have "wrote p (map (\<lambda>i. (logged ?l ! i, view k (log_block ?l i))) [0..<Suc t]) k k4"
    using wrote_trans [OF k1(2) fr] by simp
  moreover have "dblocks k4 = dblocks k - set (take (Suc t) (logged ?l))"
    using c(3) r(8) k1(3) t(2) by (auto simp: take_Suc_conv_app_nth)
  ultimately show ?case by blast
qed

section \<open>The header block\<close>

definition head_bytes :: "logheader \<Rightarrow> nat \<Rightarrow> block \<Rightarrow> block" where
  "head_bytes lh t d = fold (\<lambda>i d. put32 d (4 + 4 * i) (lh_block lh ! i)) [0..<t] (put32 d 0 (of_int (lh_n lh)))"

lemma head_bytes_simps:
  assumes "length d = BSIZE" "t \<le> LOGSIZE"
  shows "length (head_bytes lh t d) = BSIZE" "get32 (head_bytes lh t d) 0 = of_int (lh_n lh)"
    "i < t \<Longrightarrow> get32 (head_bytes lh t d) (4 + 4 * i) = lh_block lh ! i"
proof -
  have "length (head_bytes lh t d) = BSIZE \<and> get32 (head_bytes lh t d) 0 = of_int (lh_n lh) \<and>
    (\<forall>i<t. get32 (head_bytes lh t d) (4 + 4 * i) = lh_block lh ! i)"
    using assms(2)
  proof (induction t)
    case 0
    then show ?case using assms(1) by (simp add: head_bytes_def)
  next
    case (Suc t)
    let ?d = "head_bytes lh t d"
    have e: "head_bytes lh (Suc t) d = put32 ?d (4 + 4 * t) (lh_block lh ! t)" by (simp add: head_bytes_def)
    have l: "length ?d = BSIZE" "4 + 4 * t + 4 \<le> length ?d" using Suc by auto
    have "get32 (put32 ?d (4 + 4 * t) x) (4 + 4 * i) = get32 ?d (4 + 4 * i)" if "i < t" for i x
      using l that by (intro get_put_other(1)) auto
    then show ?case using Suc l get_put_other(1) [OF l(2), of 0] get_put(1) [OF l(2)] unfolding e by (auto simp: less_Suc_eq)
  qed
  then show "length (head_bytes lh t d) = BSIZE" "get32 (head_bytes lh t d) 0 = of_int (lh_n lh)"
    "i < t \<Longrightarrow> get32 (head_bytes lh t d) (4 + 4 * i) = lh_block lh ! i" by auto
qed

lemma upd_buf_twice: "b < length (bufs k) \<Longrightarrow> upd_buf b f (upd_buf b g k) = upd_buf b (\<lambda>x. f (g x)) k"
  by (simp add: upd_buf_def)

lemma upd_buf_eq: "f (bufs k ! b) = g (bufs k ! b) \<Longrightarrow> upd_buf b f k = upd_buf b g k"
  by (simp add: upd_buf_def)

lemma write_head_steps:
  fixes k :: "'a log_state_scheme"
  assumes "b < length (bufs k)" "t \<le> length (lh_block (lg_lh (log k)))"
  shows "ofold (write_head_step b) (map int [0..<t])
      (upd_buf b (b_data_update (\<lambda>d. put32 d 0 (of_int (lh_n (lg_lh (log k)))))) k) =
    Ret (upd_buf b (b_data_update (head_bytes (lg_lh (log k)) t)) k)"
  using assms(2)
proof (induction t)
  case 0
  have e: "head_bytes lh 0 = (\<lambda>d. put32 d 0 (of_int (lh_n lh)))" for lh by (simp add: head_bytes_def fun_eq_iff)
  show ?case by (simp add: e)
next
  case (Suc t)
  have l: "log (upd_buf b f k) = log k" for f by (simp add: upd_buf_def)
  have "write_head_step b (int t) (upd_buf b (b_data_update (head_bytes (lg_lh (log k)) t)) k) =
    Ret (upd_buf b (b_data_update (head_bytes (lg_lh (log k)) (Suc t))) k)"
    using Suc.prems assms(1) by (simp add: write_head_step_def array_get_def l upd_buf_twice)
      (rule upd_buf_eq, cases "bufs k ! b", simp add: head_bytes_def)
  then show ?case using Suc by (simp add: ofold_append)
qed

lemma write_head_ok:
  fixes k :: "'a log_state_scheme"
  assumes "cache_ok p {} k" "log_wf (log k)" "card (dblocks k) < NBUF"
  shows "\<exists>k'. write_head k = Ret k' \<and> dblocks k' = dblocks k - {hdr_block (log k)} \<and>
    wrote p [(hdr_block (log k), head_bytes (lg_lh (log k)) (nat (lh_n (lg_lh (log k)))) (view k (hdr_block (log k))))] k k'"
proof -
  let ?l = "log k" and ?h = "hdr_block (log k)"
  let ?d = "head_bytes (lg_lh ?l) (nat (lh_n (lg_lh ?l))) (view k ?h)"
  obtain b k1 where r: "bread 1 ?h k = Ret (b, k1)" and g: "got p {} k ?h b k1" and d1: "dblocks k1 = dblocks k"
    using bread_block [OF assms(1) log_blocks(3) [OF assms(2)]] assms(3) by (metis add_0 card.empty empty_iff)
  have c: "cache_ok p {b} k1" "b < NBUF" "holds ?h (bufs k1 ! b)" "b_data (bufs k1 ! b) = view k ?h" "view k1 = view k"
    "disk k1 = disk k" "writes k1 = writes k" "bio_frame p k k1"
    using g by (simp_all add: got_def)
  have l1: "log k1 = ?l" using bio_frame_log [OF c(8)] by simp
  have bl: "b < length (bufs k1)" using cache_ok_lru [OF c(1)] c(2) by (metis trans_less_add1)
  have len: "length (view k ?h) = BSIZE"
    using cache_okD(7) [OF c(1,2)] c(3,4) by (auto simp: buf_ok_def holds_def)
  have n: "nat (lh_n (lg_lh ?l)) \<le> length (lh_block (lg_lh ?l))" "nat (lh_n (lg_lh ?l)) \<le> LOGSIZE"
    using assms(2) by (auto simp: log_wf_def)
  have "upd_buf b (b_data_update (head_bytes (lg_lh ?l) (nat (lh_n (lg_lh ?l))))) k1 = upd_buf b (b_data_update (\<lambda>_. ?d)) k1"
    by (rule upd_buf_eq) (cases "bufs k1 ! b", use c(4) in simp)
  then have st: "ofold (write_head_step b) (map int [0..<nat (lh_n (lg_lh ?l))])
      (upd_buf b (b_data_update (\<lambda>d. put32 d 0 (of_int (lh_n (lg_lh ?l))))) k1) = Ret (upd_buf b (b_data_update (\<lambda>_. ?d)) k1)"
    using write_head_steps [OF bl, of "nat (lh_n (lg_lh ?l))"] n(1) l1 by simp
  obtain k2 where w: "bwrite b (upd_buf b (b_data_update (\<lambda>_. ?d)) k1) = Ret k2" "cache_ok p {b} k2" "view k2 = (view k1)(?h := ?d)"
    "dblocks k2 = dblocks k1 - {?h}" "disk k2 = (disk k1)(1 := (disk k1 1)(?h := ?d))" "writes k2 = writes k1 @ [(1, ?h, ?d)]"
    "\<And>c m. holds m (bufs k2 ! c) = holds m (bufs k1 ! c)" "bio_frame p k1 k2"
    using write_block [OF c(1) singletonI c(3) head_bytes_simps(1) [OF len n(2)]] by metis
  have h2: "holds ?h (bufs k2 ! b)" using w(7) c(3) by simp
  have x2: "?h \<in> dblocks k2 \<or> view k2 ?h = disk k2 1 ?h" using w(3,5) by simp
  obtain k3 where q: "brelse b k2 = Ret k3" "cache_ok p ({b} - {b}) k3" "view k3 = view k2" "dblocks k3 = dblocks k2"
    "disk k3 = disk k2" "writes k3 = writes k2" "bio_frame p k2 k3"
    using release_block [OF w(2) singletonI h2 x2] by metis
  have l1': "log (upd_buf b f k1) = ?l" for f using l1 by (simp add: upd_buf_def)
  have "write_head k = Ret k3"
    using r w(1) q(1) st assms(2) l1 l1' by (simp add: write_head_def hdr_block_def log_wf_def)
  moreover have "bio_frame p k k3" using c(8) w(8) q(7) bio_frame_trans by metis
  ultimately show ?thesis using q w c d1 by (auto simp: wrote_def)
qed

end
