(* ===== verification/Log_Crash.thy ===== *)
theory Log_Crash
  imports Log_Spec
begin

text \<open>
  Commit and recovery as sequences of block writes, and what a crash between any two of them leaves
  behind: after recovery, all of the transaction or none of it.
\<close>

section \<open>Commit\<close>

lemma view_bufs: "bufs k' = bufs k \<Longrightarrow> disk k' = disk k \<Longrightarrow> view k' = view k"
  by (simp add: view_def fun_eq_iff split: option.split)

lemma dblocks_bufs: "bufs k' = bufs k \<Longrightarrow> dblocks k' = dblocks k"
  by (simp add: dblocks_def dirty_def)

lemma upd_lh_simps [simp]:
  "log (upd_lh f k) = (log k)\<lparr>lg_lh := f (lg_lh (log k))\<rparr>" "bufs (upd_lh f k) = bufs k" "disk (upd_lh f k) = disk k"
  "writes (upd_lh f k) = writes k" "sleeps (upd_lh f k) = sleeps k" "procs (upd_lh f k) = procs k" "ide (upd_lh f k) = ide k"
  "idequeue (upd_lh f k) = idequeue k" "havedisk1 (upd_lh f k) = havedisk1 k" "serving p (upd_lh f k) = serving p k"
  "mach (upd_lh f k) = mach k" "spin (upd_lh f k) = spin k" "calm (upd_lh f k) = calm k" "unlocked (upd_lh f k) = unlocked k"
  by (simp_all add: upd_lh_def upd_log_def serving_def unlocked_def calm_def)

lemma cache_upd_lh [simp]:
  "cache_ok p H (upd_lh f k) = cache_ok p H k" "view (upd_lh f k) = view k" "dblocks (upd_lh f k) = dblocks k"
  by (simp_all add: cache_ok_def view_def fun_eq_iff dblocks_def dirty_def split: option.split)

lemma bio_frame_upd_lh: "bio_frame p k k' \<Longrightarrow> bio_frame p (upd_lh f k) (upd_lh f k')"
  using bio_frame_log [of p k k'] bio_frameD(7) [of p k k']
  by (cases k, cases k') (simp add: bio_frame_def upd_lh_def upd_log_def)

lemma wrote_upd_lh: "wrote p ws k k' \<Longrightarrow> wrote p ws (upd_lh f k) (upd_lh f k')"
  by (simp add: wrote_def bio_frame_upd_lh)

text \<open>A transaction in memory: the blocks that were written are in the cache and in the list of the log.\<close>

definition trans_ok :: "nat \<Rightarrow> 'a log_state_scheme \<Rightarrow> bool" where
  "trans_ok p k \<longleftrightarrow> cache_ok p {} k \<and> log_wf (log k) \<and> distinct (logged (log k)) \<and>
     (\<forall>m\<in>set (logged (log k)). home_block (log k) m) \<and> dblocks k = set (logged (log k))"

definition log_copies :: "klog \<Rightarrow> (u32 \<Rightarrow> block) \<Rightarrow> (u32 \<times> block) list" where
  "log_copies l v = map (\<lambda>i. (log_block l i, v (logged l ! i))) [0..<nat (lh_n (lg_lh l))]"

definition home_copies :: "klog \<Rightarrow> (u32 \<Rightarrow> block) \<Rightarrow> (u32 \<times> block) list" where
  "home_copies l v = map (\<lambda>i. (logged l ! i, v (logged l ! i))) [0..<nat (lh_n (lg_lh l))]"

definition full_head :: "klog \<Rightarrow> (u32 \<Rightarrow> block) \<Rightarrow> block" where
  "full_head l v = head_bytes (lg_lh l) (nat (lh_n (lg_lh l))) (v (hdr_block l))"

definition empty_head :: "klog \<Rightarrow> (u32 \<Rightarrow> block) \<Rightarrow> block" where
  "empty_head l v = put32 (full_head l v) 0 0"

definition commit_writes :: "klog \<Rightarrow> (u32 \<Rightarrow> block) \<Rightarrow> (u32 \<times> block) list" where
  "commit_writes l v = log_copies l v @ [(hdr_block l, full_head l v)] @ home_copies l v @ [(hdr_block l, empty_head l v)]"

lemma log_copies_home:
  assumes "log_wf l" "\<forall>m\<in>set (logged l). home_block l m"
  shows "m \<in> fst ` set (log_copies l v) \<Longrightarrow> in_log l m \<and> m \<noteq> hdr_block l" "m \<in> fst ` set (home_copies l v) \<longleftrightarrow> m \<in> set (logged l)"
    "m \<in> fst ` set (home_copies l v) \<Longrightarrow> \<not> in_log l m"
proof -
  show "in_log l m \<and> m \<noteq> hdr_block l" if m: "m \<in> fst ` set (log_copies l v)"
  proof -
    obtain i where i: "i < nat (lh_n (lg_lh l))" "m = log_block l i" using m by (auto simp: log_copies_def)
    note lt = logged_simps(4) [OF assms(1) i(1)]
    show ?thesis unfolding i(2) using log_blocks(6) [OF assms(1) lt] log_block_inj(1) [OF assms(1) lt] by blast
  qed
  show e: "m \<in> fst ` set (home_copies l v) \<longleftrightarrow> m \<in> set (logged l)"
    using logged_simps(1) [OF assms(1)] by (auto simp: home_copies_def in_set_conv_nth image_iff)
  show "\<not> in_log l m" if "m \<in> fst ` set (home_copies l v)" using that assms(2) e by (auto simp: home_block_def)
qed

lemma put_log_copies:
  assumes "log_wf l" "i < nat (lh_n (lg_lh l))"
  shows "put_blocks (log_copies l v) f (log_block l i) = v (logged l ! i)"
proof (rule put_blocks_same)
  show "(log_block l i, v (logged l ! i)) \<in> set (log_copies l v)" using assms(2) by (auto simp: log_copies_def)
  fix e assume "(log_block l i, e) \<in> set (log_copies l v)"
  then obtain j where j: "j < nat (lh_n (lg_lh l))" "log_block l i = log_block l j" "e = v (logged l ! j)" by (auto simp: log_copies_def)
  then have "i = j" using log_block_inj(2) [OF assms(1) logged_simps(4) [OF assms] logged_simps(4) [OF assms(1) j(1)]] by simp
  then show "e = v (logged l ! i)" using j(3) by simp
qed

lemma put_home_copies: "log_wf l \<Longrightarrow> m \<in> set (logged l) \<Longrightarrow> put_blocks (home_copies l v) f m = v m"
  by (rule put_blocks_same) (auto simp: home_copies_def in_set_conv_nth logged_simps(1) image_iff)

lemma trans_card: "trans_ok p k \<Longrightarrow> card (dblocks k) < NBUF"
  using logged_simps(1,5) [of "log k"] by (auto simp: trans_ok_def distinct_card)

lemma commit_ok:
  fixes k :: "'a log_state_scheme"
  assumes "trans_ok p k" "0 < lh_n (lg_lh (log k))"
  shows "\<exists>k'. commit k = Ret k' \<and> dblocks k' = {} \<and> wrote p (commit_writes (log k) (view k)) (upd_lh (lh_n_update (\<lambda>_. 0)) k) k'"
proof -
  let ?l = "log k" and ?v = "view k" and ?n = "nat (lh_n (lg_lh (log k)))"
  have a: "cache_ok p {} k" "log_wf ?l" "distinct (logged ?l)" "\<forall>m\<in>set (logged ?l). home_block ?l m" "dblocks k = set (logged ?l)"
    using assms(1) by (simp_all add: trans_ok_def)
  note cd = trans_card [OF assms(1)]
  have nl: "\<forall>m\<in>dblocks k. \<not> in_log ?l m" using a(4,5) by (auto simp: home_block_def)
  obtain k1 where k1: "write_log k = Ret k1" "wrote p (log_copies ?l ?v) k k1" "dblocks k1 = dblocks k"
    using write_log_ok [OF a(1,2,4) _ cd nl order_refl] a(5) by (auto simp: write_log_def log_copies_def)
  note w1 = wroteD [OF k1(2)]
  have l1: "log k1 = ?l" using bio_frame_log [OF w1(4)] by simp
  have vh: "view k1 (hdr_block ?l) = ?v (hdr_block ?l)"
    unfolding w1(3) by (rule put_blocks_other) (use log_copies_home(1) [OF a(2,4)] in blast)
  have hd: "hdr_block ?l \<notin> dblocks k" using nl log_blocks(5) [OF a(2)] by blast
  obtain k2 where k2: "write_head k1 = Ret k2" "dblocks k2 = dblocks k" "wrote p [(hdr_block ?l, full_head ?l ?v)] k1 k2"
    using write_head_ok [of p k1] w1(1) cd a(2) k1(3) hd vh unfolding l1 full_head_def by auto
  note w2 = wroteD [OF k2(3)]
  have l2: "log k2 = ?l" using bio_frame_log [OF w2(4)] l1 by simp
  obtain k3 where k3: "install_trans k2 = Ret k3" "dblocks k3 = {}"
    "wrote p (map (\<lambda>i. (logged ?l ! i, view k2 (log_block ?l i))) [0..<?n]) k2 k3"
    using install_ok [of p k2 ?n] w2(1) a nl cd k2(2) logged_simps(1) [OF a(2)] unfolding l2 by (auto simp: install_trans_def l2)
  have v2: "view k2 (log_block ?l i) = ?v (logged ?l ! i)" if "i < ?n" for i
    using put_log_copies [OF a(2) that] log_block_inj(1) [OF a(2) logged_simps(4) [OF a(2) that]] by (simp add: w2(3) w1(3))
  have "map (\<lambda>i. (logged ?l ! i, view k2 (log_block ?l i))) [0..<?n] = home_copies ?l ?v"
    unfolding home_copies_def using v2 by simp
  then have k3w: "wrote p (home_copies ?l ?v) k2 k3" using k3(3) by simp
  note w3 = wroteD [OF k3w]
  have l3: "log k3 = ?l" using bio_frame_log [OF w3(4)] l2 by simp
  have v3: "view k3 (hdr_block ?l) = full_head ?l ?v"
  proof -
    have "hdr_block ?l \<notin> fst ` set (home_copies ?l ?v)" using log_copies_home(3) [OF a(2,4)] log_blocks(5) [OF a(2)] by blast
    then show ?thesis by (simp add: w3(3) put_blocks_other w2(3))
  qed
  let ?z = "upd_lh (lh_n_update (\<lambda>_. 0)) k3"
  have z: "log_wf (log ?z)" "hdr_block (log ?z) = hdr_block ?l" using a(2) by (simp_all add: l3 log_wf_def hdr_block_def)
  obtain k4 where k4: "write_head ?z = Ret k4" "dblocks k4 = {}" "wrote p [(hdr_block ?l, empty_head ?l ?v)] ?z k4"
    using write_head_ok [of p ?z] w3(1) z k3(2) v3 by (auto simp: head_bytes_def empty_head_def)
  have "wrote p (log_copies ?l ?v @ [(hdr_block ?l, full_head ?l ?v)] @ home_copies ?l ?v) k k3"
    using wrote_trans [OF k1(2) wrote_trans [OF k2(3) k3w]] .
  from wrote_trans [OF wrote_upd_lh [OF this] k4(3)]
  have "wrote p (commit_writes ?l ?v) (upd_lh (lh_n_update (\<lambda>_. 0)) k) k4" by (simp add: commit_writes_def)
  moreover have "commit k = Ret k4" using assms(2) k1(1) k2(1) k3(1) k4(1) by (simp add: commit_def)
  ultimately show ?thesis using k4(2) by blast
qed


section \<open>Recovery\<close>

text \<open>The header that a block holds, read over an old one.\<close>

definition disk_head :: "block \<Rightarrow> logheader \<Rightarrow> logheader" where
  "disk_head d lh =
     (let n = sint (get32 d 0) in
      \<lparr>lh_n = n, lh_block = map (\<lambda>i. get32 d (4 + 4 * i)) [0..<nat n] @ drop (nat n) (lh_block lh)\<rparr>)"

lemma read_head_steps:
  fixes k :: "'a log_state_scheme"
  assumes "t \<le> length (lh_block (lg_lh (log k)))"
  shows "ofold (read_head_step d) (map int [0..<t]) k =
    Ret (upd_lh (\<lambda>lh. lh\<lparr>lh_block := map (\<lambda>i. get32 d (4 + 4 * i)) [0..<t] @ drop t (lh_block lh)\<rparr>) k)"
  using assms
proof (induction t)
  case 0
  then show ?case by (simp add: upd_lh_def upd_log_def)
next
  case (Suc t)
  let ?bl = "lh_block (lg_lh (log k))"
  have "(map (\<lambda>i. get32 d (4 + 4 * i)) [0..<t] @ drop t ?bl)[t := x] = map (\<lambda>i. get32 d (4 + 4 * i)) [0..<t] @ x # drop (Suc t) ?bl" for x
    using Suc.prems by (simp add: list_update_append Cons_nth_drop_Suc [symmetric])
  then have "read_head_step d (int t) (upd_lh (\<lambda>lh. lh\<lparr>lh_block := map (\<lambda>i. get32 d (4 + 4 * i)) [0..<t] @ drop t (lh_block lh)\<rparr>) k) =
    Ret (upd_lh (\<lambda>lh. lh\<lparr>lh_block := map (\<lambda>i. get32 d (4 + 4 * i)) [0..<Suc t] @ drop (Suc t) (lh_block lh)\<rparr>) k)"
    using Suc.prems by (simp add: read_head_step_def array_set_def) (simp add: upd_lh_def upd_log_def)
  then show ?case using Suc by (simp add: ofold_append)
qed

lemma read_head_ok:
  fixes k :: "'a log_state_scheme"
  assumes "cache_ok p {} k" "dblocks k = {}" "lg_dev (log k) = 1" "unat (hdr_block (log k)) < FSSIZE"
    and "nat (sint (get32 (view k (hdr_block (log k))) 0)) \<le> length (lh_block (lg_lh (log k)))"
  shows "\<exists>k'. read_head k = Ret k' \<and> dblocks k' = {} \<and> wrote p [] (upd_lh (disk_head (view k (hdr_block (log k)))) k) k'"
proof -
  let ?h = "hdr_block (log k)" and ?d = "view k (hdr_block (log k))"
  obtain b k1 where r: "bread 1 ?h k = Ret (b, k1)" and g: "got p {} k ?h b k1" and d1: "dblocks k1 = {}"
    using bread_block [OF assms(1,4)] assms(2) by (metis add_0 card.empty empty_iff zero_less_numeral mult_pos_pos)
  have c: "cache_ok p {b} k1" "b < NBUF" "holds ?h (bufs k1 ! b)" "b_data (bufs k1 ! b) = ?d" "view k1 = view k"
    "disk k1 = disk k" "writes k1 = writes k" "bio_frame p k k1"
    using g by (simp_all add: got_def)
  have l1: "log k1 = log k" using bio_frame_log [OF c(8)] by simp
  let ?k = "upd_lh (disk_head ?d) k1"
  have st: "ofold (read_head_step ?d) (map int [0..<nat (sint (get32 ?d 0))]) (upd_lh (lh_n_update (\<lambda>_. sint (get32 ?d 0))) k1) = Ret ?k"
    using read_head_steps [of "nat (sint (get32 ?d 0))" "upd_lh (lh_n_update (\<lambda>_. sint (get32 ?d 0))) k1" ?d] assms(5) l1
    by (simp add: upd_lh_def upd_log_def disk_head_def Let_def)
  have x: "?h \<in> dblocks ?k \<or> view ?k ?h = disk ?k 1 ?h" using view_disk [OF assms(1)] assms(2) c by simp
  have ck: "cache_ok p {b} ?k" "holds ?h (bufs ?k ! b)" using c by simp_all
  obtain k2 where q: "brelse b ?k = Ret k2" "cache_ok p ({b} - {b}) k2" "view k2 = view ?k" "dblocks k2 = dblocks ?k"
    "disk k2 = disk ?k" "writes k2 = writes ?k" "bio_frame p ?k k2"
    using release_block [OF ck(1) singletonI ck(2) x] by metis
  have "read_head k = Ret k2" using r st q(1) c(4) assms(3) by (simp add: read_head_def hdr_block_def)
  moreover have "wrote p [] (upd_lh (disk_head ?d) k) k2"
    using q c bio_frame_trans [OF bio_frame_upd_lh [OF c(8)] q(7)] by (simp add: wrote_def)
  ultimately show ?thesis using q(4) d1 by auto
qed

definition recovery_writes :: "klog \<Rightarrow> (u32 \<Rightarrow> block) \<Rightarrow> (u32 \<times> block) list" where
  "recovery_writes l v = map (\<lambda>i. (logged l ! i, v (log_block l i))) [0..<nat (lh_n (lg_lh l))]"

lemma recover_ok:
  fixes k :: "'a log_state_scheme"
  assumes "cache_ok p {} k" "dblocks k = {}" "length (lh_block (lg_lh (log k))) = LOGSIZE"
    and "l = (log k)\<lparr>lg_lh := disk_head (view k (hdr_block (log k))) (lg_lh (log k))\<rparr>" "log_wf l"
    and "\<forall>m\<in>set (logged l). home_block l m"
  shows "\<exists>k' d. recover_from_log k = Ret k' \<and> dblocks k' = {} \<and> cache_ok p {} k' \<and>
    disk k' 1 = (put_blocks (recovery_writes l (view k)) (disk k 1))(hdr_block l := d)"
proof -
  have hb: "hdr_block l = hdr_block (log k)" by (simp add: assms(4) hdr_block_def)
  have hd: "lg_dev (log k) = 1" "unat (hdr_block (log k)) < FSSIZE"
    "nat (sint (get32 (view k (hdr_block (log k))) 0)) \<le> length (lh_block (lg_lh (log k)))"
    using assms(5) log_blocks(3) [OF assms(5)] assms(3) hb by (auto simp: assms(4) log_wf_def disk_head_def Let_def)
  obtain k1 where k1: "read_head k = Ret k1" "dblocks k1 = {}" "wrote p [] (upd_lh (disk_head (view k (hdr_block (log k)))) k) k1"
    using read_head_ok [OF assms(1,2) hd] by blast
  note w1 = wroteD [OF k1(3)]
  have l1: "log k1 = l" using bio_frame_log(1) [OF w1(4)] by (simp add: assms(4))
  have v1: "view k1 = view k" "disk k1 1 = disk k 1" using w1(2,3) by simp_all
  obtain k2 where k2: "install_trans k1 = Ret k2" "dblocks k2 = {}" "wrote p (recovery_writes l (view k)) k1 k2"
    using install_ok [of p k1 "nat (lh_n (lg_lh l))"] w1(1) assms(5,6) k1(2) unfolding l1 v1(1)
    by (auto simp: install_trans_def l1 recovery_writes_def)
  note w2 = wroteD [OF k2(3)]
  have l2: "log k2 = l" using bio_frame_log [OF w2(4)] l1 by simp
  let ?z = "upd_lh (lh_n_update (\<lambda>_. 0)) k2"
  have z: "log_wf (log ?z)" "hdr_block (log ?z) = hdr_block l" using assms(5) by (simp_all add: l2 log_wf_def hdr_block_def)
  obtain k3 d where k3: "write_head ?z = Ret k3" "dblocks k3 = {}" "wrote p [(hdr_block l, d)] ?z k3"
    using write_head_ok [of p ?z] w2(1) z k2(2) by auto
  have "disk k3 1 = (put_blocks (recovery_writes l (view k)) (disk k 1))(hdr_block l := d)"
    using wroteD(2) [OF k3(3)] w2(2) v1 by simp
  moreover have "recover_from_log k = Ret k3" using k1(1) k2(1) k3(1) by (simp add: recover_from_log_def)
  ultimately show ?thesis using k3(2) wroteD(1) [OF k3(3)] by blast
qed


section \<open>A crash during commit\<close>

text \<open>The log as recovery finds it on a disk, with the geometry of \<open>l\<close>.\<close>

definition found :: "klog \<Rightarrow> logheader \<Rightarrow> (u32 \<Rightarrow> block) \<Rightarrow> klog" where
  "found l lh f = \<lparr>lg_start = lg_start l, lg_size = lg_size l, lg_outstanding = 0, lg_committing = 0, lg_dev = 1,
     lg_lh = disk_head (f (hdr_block l)) lh\<rparr>"

lemma found_simps [simp]:
  "hdr_block (found l lh f) = hdr_block l" "log_block (found l lh f) = log_block l" "in_log (found l lh f) = in_log l"
  "home_block (found l lh f) = home_block l"
  by (auto simp: found_def hdr_block_def log_block_def in_log_def home_block_def fun_eq_iff)

lemma found_empty:
  assumes "log_wf l" "length (lh_block lh) = LOGSIZE" "sint (get32 (f (hdr_block l)) 0) = 0"
  shows "log_wf (found l lh f)" "logged (found l lh f) = []" "recovery_writes (found l lh f) v = []"
  using assms by (auto simp: found_def log_wf_def disk_head_def logged_def recovery_writes_def)

lemma sint_small: "0 \<le> x \<Longrightarrow> x \<le> int LOGSIZE \<Longrightarrow> sint (of_int x :: u32) = x"
  by (simp add: sint_sbintrunc' signed_take_bit_int_eq_self)

lemma found_full:
  assumes "log_wf l" "length (lh_block lh) = LOGSIZE" "f (hdr_block l) = full_head l v" "length (v (hdr_block l)) = BSIZE"
  shows "log_wf (found l lh f)" "logged (found l lh f) = logged l"
    "recovery_writes (found l lh f) g = map (\<lambda>i. (logged l ! i, g (log_block l i))) [0..<nat (lh_n (lg_lh l))]"
proof -
  let ?n = "lh_n (lg_lh l)"
  have n: "0 \<le> ?n" "?n \<le> int LOGSIZE" "nat ?n \<le> LOGSIZE" "length (lh_block (lg_lh l)) = LOGSIZE" using assms(1) by (auto simp: log_wf_def)
  note h = head_bytes_simps [OF assms(4) n(3), where lh = "lg_lh l", folded full_head_def]
  have s: "sint (get32 (f (hdr_block l)) 0) = ?n" using h(2) assms(3) sint_small [OF n(1,2)] by simp
  have "map (\<lambda>i. get32 (f (hdr_block l)) (4 + 4 * i)) [0..<nat ?n] = logged l"
    using h(3) assms(3) logged_simps(1,2) [OF assms(1)] by (intro nth_equalityI) auto
  then have d: "disk_head (f (hdr_block l)) lh = \<lparr>lh_n = ?n, lh_block = logged l @ drop (nat ?n) (lh_block lh)\<rparr>"
    by (simp add: disk_head_def s Let_def)
  show w: "log_wf (found l lh f)" using assms(1,2) n logged_simps(1) [OF assms(1)] by (auto simp: found_def log_wf_def d)
  show lg: "logged (found l lh f) = logged l" using logged_simps(1) [OF assms(1)] by (simp add: found_def d logged_def)
  show "recovery_writes (found l lh f) g = map (\<lambda>i. (logged l ! i, g (log_block l i))) [0..<nat ?n]"
    unfolding recovery_writes_def lg by (simp add: found_def d log_block_def)
qed

lemma crash_disk:
  fixes v f j
  assumes "log_wf l" "\<forall>m\<in>set (logged l). home_block l m" "\<forall>m. m \<notin> set (logged l) \<longrightarrow> v m = f m" "length (v (hdr_block l)) = BSIZE"
    and "sint (get32 (f (hdr_block l)) 0) = 0" "length (lh_block lh) = LOGSIZE"
  defines "g \<equiv> put_blocks (take j (commit_writes l v)) f"
  shows "log_wf (found l lh g)" "\<forall>m\<in>set (logged (found l lh g)). home_block l m"
    "\<not> in_log l m \<Longrightarrow> put_blocks (recovery_writes (found l lh g) g) g m = (if j \<le> nat (lh_n (lg_lh l)) then f m else v m)"
    "\<not> in_log l m \<Longrightarrow> m \<notin> set (logged l) \<Longrightarrow> g m = f m"
proof -
  let ?n = "nat (lh_n (lg_lh l))" and ?h = "hdr_block l"
  have len: "length (log_copies l v) = ?n" "length (home_copies l v) = ?n" by (simp_all add: log_copies_def home_copies_def)
  have hl: "?h \<notin> fst ` set (log_copies l v)" "?h \<notin> fst ` set (home_copies l v)"
    using log_copies_home(1,3) [OF assms(1,2)] log_blocks(5) [OF assms(1)] by blast+
  have hin: "in_log l ?h" using log_blocks(5) [OF assms(1)] .
  have lc: "put_blocks (log_copies l v) e m = e m" if "\<not> in_log l m" for e m
    using log_copies_home(1) [OF assms(1,2)] that by (intro put_blocks_other) blast
  have "log_wf (found l lh g) \<and> (\<forall>m\<in>set (logged (found l lh g)). home_block l m) \<and>
    (\<forall>m. \<not> in_log l m \<longrightarrow> put_blocks (recovery_writes (found l lh g) g) g m = (if j \<le> ?n then f m else v m) \<and>
      (m \<notin> set (logged l) \<longrightarrow> g m = f m))"
  proof -
    consider "j \<le> ?n" | "?n < j" "j \<le> ?n + 1 + ?n" | "?n + 1 + ?n < j" by linarith
    then show ?thesis
    proof cases
      case 1
      then have g: "g = put_blocks (take j (log_copies l v)) f" using len by (simp add: g_def commit_writes_def)
      have sub: "fst ` set (take j (log_copies l v)) \<subseteq> fst ` set (log_copies l v)" by (meson image_mono set_take_subset)
      have "g ?h = f ?h" unfolding g using sub hl(1) by (intro put_blocks_other) blast
      note e = found_empty [where f = g, OF assms(1,6), unfolded this, OF assms(5)]
      have "g m = f m" if "\<not> in_log l m" for m
        unfolding g using sub log_copies_home(1) [OF assms(1,2)] that by (intro put_blocks_other) blast
      then show ?thesis using e 1 by simp
    next
      case 2
      define ms where "ms = take (j - Suc ?n) (home_copies l v)"
      have g: "g = put_blocks ms ((put_blocks (log_copies l v) f)(?h := full_head l v))"
        using 2 len by (simp add: g_def commit_writes_def ms_def take_Cons')
      have sub: "fst ` set ms \<subseteq> fst ` set (home_copies l v)" unfolding ms_def by (meson image_mono set_take_subset)
      have "?h \<notin> fst ` set ms" using sub hl(2) by blast
      then have gh: "g ?h = full_head l v" by (simp add: g put_blocks_other)
      note e = found_full [where f = g and v = v, OF assms(1,6) gh assms(4)]
      have gl: "g (log_block l i) = v (logged l ! i)" if "i < ?n" for i
      proof -
        note lt = logged_simps(4) [OF assms(1) that]
        have "log_block l i \<notin> fst ` set ms" using sub log_copies_home(3) [OF assms(1,2)] log_blocks(6) [OF assms(1) lt] by blast
        then show ?thesis
          using put_log_copies [OF assms(1) that] log_block_inj(1) [OF assms(1) lt] by (simp add: g put_blocks_other)
      qed
      have rw: "recovery_writes (found l lh g) g = home_copies l v" unfolding e(3) home_copies_def using gl by simp
      have "put_blocks (home_copies l v) g m = v m" if "\<not> in_log l m" for m
      proof (cases "m \<in> set (logged l)")
        case True
        then show ?thesis by (rule put_home_copies [OF assms(1)])
      next
        case False
        then have m: "m \<notin> fst ` set (home_copies l v)" using log_copies_home(2) [OF assms(1,2)] by blast
        moreover have "m \<notin> fst ` set ms" using m sub by blast
        moreover have "m \<noteq> ?h" using that hin by auto
        ultimately show ?thesis using assms(3) False lc [OF that] by (simp add: put_blocks_other g)
      qed
      moreover have "g m = f m" if "\<not> in_log l m" "m \<notin> set (logged l)" for m
      proof -
        have "m \<notin> fst ` set ms" using log_copies_home(2) [OF assms(1,2)] sub that(2) by blast
        moreover have "m \<noteq> ?h" using that hin by auto
        ultimately show ?thesis using lc [OF that(1)] by (simp add: put_blocks_other g)
      qed
      ultimately show ?thesis using e(1,2) 2 assms(2) by (simp add: rw)
    next
      case 3
      then have g: "g = (put_blocks (home_copies l v) ((put_blocks (log_copies l v) f)(?h := full_head l v)))(?h := empty_head l v)"
        using len by (simp add: g_def commit_writes_def take_Cons')
      have "length (full_head l v) = BSIZE"
        using head_bytes_simps(1) [OF assms(4), of ?n] assms(1) by (auto simp: full_head_def log_wf_def)
      then have "sint (get32 (g ?h) 0) = 0" by (simp add: g empty_head_def)
      note e = found_empty [where f = g, OF assms(1,6) this]
      have "g m = v m \<and> (m \<notin> set (logged l) \<longrightarrow> g m = f m)" if "\<not> in_log l m" for m
      proof (cases "m \<in> set (logged l)")
        case True
        then show ?thesis using put_home_copies [OF assms(1) True] that hin by (auto simp: g)
      next
        case False
        then have "m \<notin> fst ` set (home_copies l v)" using log_copies_home(2) [OF assms(1,2)] by blast
        moreover have "m \<noteq> ?h" using that hin by auto
        ultimately show ?thesis using assms(3) False lc [OF that] by (simp add: put_blocks_other g)
      qed
      then show ?thesis using e 3 assms(3) by simp
    qed
  qed
  then show "log_wf (found l lh g)" "\<forall>m\<in>set (logged (found l lh g)). home_block l m"
    "\<not> in_log l m \<Longrightarrow> put_blocks (recovery_writes (found l lh g) g) g m = (if j \<le> ?n then f m else v m)"
    "\<not> in_log l m \<Longrightarrow> m \<notin> set (logged l) \<Longrightarrow> g m = f m" by blast+
qed


section \<open>Inside a transaction\<close>

lemma log_locked [simp]:
  "log (locked_by l k) = log k" "upd_lh f (locked_by l k) = locked_by l (upd_lh f k)"
  "upd_log g (locked_by l k) = locked_by l (upd_log g k)"
  "log (upd_buf b h k) = log k"
  "log (upd_log g k) = g (log k)" "log (wakeup1 ch k) = log k"
  by (simp_all add: locked_by_def upd_cpu_def upd_lh_def upd_log_def upd_buf_def wakeup1_def)

text \<open>What \<open>log_write\<close> makes of the list of blocks.\<close>

definition log_add :: "u32 \<Rightarrow> logheader \<Rightarrow> logheader" where
  "log_add m lh =
     (if m \<in> set (take (nat (lh_n lh)) (lh_block lh)) then lh
      else \<lparr>lh_n = lh_n lh + 1, lh_block = (lh_block lh)[nat (lh_n lh) := m]\<rparr>)"

lemma log_add_logged:
  assumes "log_wf l" "lh_n (lg_lh l) < lg_size l - 1"
  shows "logged (l\<lparr>lg_lh := log_add m (lg_lh l)\<rparr>) = (if m \<in> set (logged l) then logged l else logged l @ [m])"
    "log_wf (l\<lparr>lg_lh := log_add m (lg_lh l)\<rparr>)"
proof -
  have n: "0 \<le> lh_n (lg_lh l)" "nat (lh_n (lg_lh l)) < length (lh_block (lg_lh l))" using assms by (auto simp: log_wf_def)
  have "take (Suc (nat (lh_n (lg_lh l)))) ((lh_block (lg_lh l))[nat (lh_n (lg_lh l)) := m]) = take (nat (lh_n (lg_lh l))) (lh_block (lg_lh l)) @ [m]"
    using n(2) by (simp add: take_Suc_conv_app_nth)
  then show "logged (l\<lparr>lg_lh := log_add m (lg_lh l)\<rparr>) = (if m \<in> set (logged l) then logged l else logged l @ [m])"
    using n by (simp add: logged_def log_add_def nat_add_distrib)
  show "log_wf (l\<lparr>lg_lh := log_add m (lg_lh l)\<rparr>)" using assms by (auto simp: log_wf_def log_add_def)
qed

text \<open>Marking a held block as waiting for the commit.\<close>

lemma mark_ok:
  assumes "cache_ok p H k" "b \<in> H" "holds n (bufs k ! b)"
  shows "cache_ok p H (upd_buf b (b_flags_update (\<lambda>f. f OR B_DIRTY)) k)" "view (upd_buf b (b_flags_update (\<lambda>f. f OR B_DIRTY)) k) = view k"
    "dblocks (upd_buf b (b_flags_update (\<lambda>f. f OR B_DIRTY)) k) = insert n (dblocks k)"
    "holds m (bufs (upd_buf b (b_flags_update (\<lambda>f. f OR B_DIRTY)) k) ! c) = holds m (bufs k ! c)"
proof -
  let ?k = "upd_buf b (b_flags_update (\<lambda>f. f OR B_DIRTY)) k"
  note c = cache_okD [OF assms(1)]
  have bl: "b < NBUF" using c(5) assms(2) by auto
  obtain xs where l: "lru (bufs k) xs" "length (bufs k) = NBUF + 1" using cache_ok_lru [OF assms(1)] .
  have bb: "bufs ?k ! b = (bufs k ! b)\<lparr>b_flags := b_flags (bufs k ! b) OR B_DIRTY\<rparr>" using bl l(2) by simp
  have fr: "bio_frame p k ?k" by simp
  have ct: "content (bufs ?k ! e) = content (bufs k ! e)" if "e \<noteq> b" for e using that by simp
  have fl: "b_flags (bufs k ! b) OR B_DIRTY = B_VALID OR B_DIRTY"
    using c(7) [OF bl] assms(3) by (auto simp: buf_ok_def holds_def)
  show ok: "cache_ok p H ?k"
  proof (rule cache_ok_step [OF assms(1) fr bl])
    show "lru (bufs ?k) xs" using l(1) by (simp add: lru_update)
    show "buf_ok (p_pid (procs k ! p)) (b \<in> H) (sleeps ?k (BufSleep b)) (disk ?k) (bufs ?k ! b)"
      using c(7) [OF bl] assms(2,3) bb fl by (simp add: buf_ok_def holds_def)
    show "\<not> holds m (bufs k ! e)" if "e < NBUF" "e \<noteq> b" "holds m (bufs ?k ! b)" for e m
      using that c(8) [OF that(1) bl, of m] bb by (auto simp: holds_def)
  qed (use c ct in auto)
  show hb: "holds m (bufs ?k ! c) = holds m (bufs k ! c)" for m c using bb by (cases "c = b") (auto simp: holds_def)
  have "view ?k m = view k m" for m
  proof (cases "holds m (bufs k ! b)")
    case True
    then have "holds m (bufs ?k ! b)" using hb by blast
    then show ?thesis using view_holds [OF ok bl] view_holds [OF assms(1) bl True] bb by simp
  next
    case False
    then show ?thesis using hb ct by (intro view_step [OF assms(1) ok bl]) auto
  qed
  then show "view ?k = view k" by blast
  have "dirty ?k = insert b (dirty k)" using dirty_step [of b ?k k, OF ct bl] bb fl by simp
  then show "dblocks ?k = insert n (dblocks k)"
    using assms(3) hb unfolding dblocks_def by (auto simp: holds_def)
qed

definition in_trans :: "nat \<Rightarrow> nat set \<Rightarrow> 'a log_state_scheme \<Rightarrow> bool" where
  "in_trans p H k \<longleftrightarrow> cache_ok p H k \<and> log_wf (log k) \<and> distinct (logged (log k)) \<and>
     (\<forall>m\<in>set (logged (log k)). home_block (log k) m) \<and> dblocks k = set (logged (log k))"

lemma trans_in_trans: "trans_ok p k = in_trans p {} k"
  by (simp add: trans_ok_def in_trans_def)

lemma upd_lh_eq: "upd_lh f k = upd_lh (\<lambda>_. f (lg_lh (log k))) k"
  by (cases "log k") (simp add: upd_lh_def upd_log_def)

lemma upd_lh_twice: "upd_lh (\<lambda>_. x) (upd_lh f k) = upd_lh (\<lambda>_. x) k"
  by (simp add: upd_lh_def upd_log_def)

lemma find_index:
  assumes "n \<le> length bl"
  shows "find (\<lambda>i. bl ! i = x) [0..<n] = None \<longleftrightarrow> x \<notin> set (take n bl)"
    "find (\<lambda>i. bl ! i = x) [0..<n] = Some i \<Longrightarrow> i < n \<and> bl ! i = x"
  using assms by (auto simp: find_None_iff find_Some_iff in_set_conv_nth)

lemma log_write_ok:
  fixes k :: "'a log_state_scheme"
  assumes "in_trans p H k" "b \<in> H" "holds m (bufs k ! b)" "home_block (log k) m"
    and "lh_n (lg_lh (log k)) < lg_size (log k) - 1" "1 \<le> lg_outstanding (log k)"
  shows "log_write b k = Ret (upd_buf b (b_flags_update (\<lambda>f. f OR B_DIRTY)) (upd_lh (log_add m) k))"
    "in_trans p H (upd_buf b (b_flags_update (\<lambda>f. f OR B_DIRTY)) (upd_lh (log_add m) k))"
    "view (upd_buf b (b_flags_update (\<lambda>f. f OR B_DIRTY)) (upd_lh (log_add m) k)) = view k"
proof -
  let ?l = "log k" and ?n = "lh_n (lg_lh (log k))" and ?bl = "lh_block (lg_lh (log k))"
  have a: "cache_ok p H k" "log_wf ?l" "distinct (logged ?l)" "\<forall>m\<in>set (logged ?l). home_block ?l m" "dblocks k = set (logged ?l)"
    using assms(1) by (simp_all add: in_trans_def)
  have wf: "0 \<le> ?n" "?n < lg_size ?l" "lg_size ?l \<le> int LOGSIZE" "length ?bl = LOGSIZE" "nat ?n \<le> length ?bl"
    using a(2) by (auto simp: log_wf_def)
  note s = servingD [OF cache_okD(1) [OF a(1)]]
  have bn: "b_blockno (bufs k ! b) = m" using assms(3) by (simp add: holds_def)
  let ?i = "log_index ?n ?bl m"
  have "array_set ?bl ?i m = Ret (lh_block (log_add m (lg_lh ?l))) \<and>
    (if ?i = ?n then ?n + 1 else ?n) = lh_n (log_add m (lg_lh ?l))"
  proof (cases "find (\<lambda>i. ?bl ! i = m) [0..<nat ?n]")
    case None
    then have "m \<notin> set (take (nat ?n) ?bl)" using find_index(1) [OF wf(5)] by blast
    then show ?thesis using None wf assms(5) by (simp add: log_index_def array_set_def log_add_def)
  next
    case (Some i)
    then have i: "i < nat ?n" "?bl ! i = m" using find_index(2) [OF wf(5)] by blast+
    then have "m \<in> set (take (nat ?n) ?bl)" using find_index(1) [OF wf(5), of m] Some by auto
    then show ?thesis using Some i wf by (auto simp: log_index_def array_set_def log_add_def)
  qed
  then have st: "array_set ?bl ?i m = Ret (lh_block (log_add m (lg_lh ?l)))"
    "(if ?i = ?n then ?n + 1 else ?n) = lh_n (log_add m (lg_lh ?l))" by blast+
  let ?k = "upd_buf b (b_flags_update (\<lambda>f. f OR B_DIRTY)) (upd_lh (log_add m) k)"
  have e: "upd_lh (log_add m) k = (if ?i = ?n then upd_lh (lh_n_update (\<lambda>m. m + 1)) (upd_lh (lh_block_update (\<lambda>_. lh_block (log_add m (lg_lh ?l)))) k)
    else upd_lh (lh_block_update (\<lambda>_. lh_block (log_add m (lg_lh ?l)))) k)"
  proof -
    have sur: "lh' = lh\<lparr>lh_block := lh_block lh', lh_n := lh_n lh'\<rparr>" for lh lh' :: logheader by (cases lh, cases lh') simp
    have "log_add m (lg_lh ?l) = (lg_lh ?l)\<lparr>lh_block := lh_block (log_add m (lg_lh ?l)), lh_n := if ?i = ?n then ?n + 1 else ?n\<rparr>"
      using sur [of "log_add m (lg_lh ?l)" "lg_lh ?l"] unfolding st(2) .
    then have c: "log_add m (lg_lh ?l) = (if ?i = ?n then lh_n_update (\<lambda>m. m + 1) ((lg_lh ?l)\<lparr>lh_block := lh_block (log_add m (lg_lh ?l))\<rparr>)
      else (lg_lh ?l)\<lparr>lh_block := lh_block (log_add m (lg_lh ?l))\<rparr>)" by (cases "lg_lh ?l") (simp split: if_splits)
    show ?thesis
      by (rule upd_lh_eq [THEN trans], subst c) (simp add: upd_lh_eq [of "lh_n_update (\<lambda>m. m + 1)"] upd_lh_eq [of "lh_block_update f" for f] upd_lh_twice)
  qed
  show "log_write b k = Ret ?k"
    unfolding e using wf assms(5,6) s bn st(1) by (auto simp: log_write_def acquirek_calm Let_def)
  have ck: "cache_ok p H (upd_lh (log_add m) k)" "holds m (bufs (upd_lh (log_add m) k) ! b)" using a(1) assms(3) by simp_all
  note mk = mark_ok [OF ck(1) assms(2) ck(2)]
  show "view ?k = view k" using mk(2) by simp
  have hb: "home_block (l\<lparr>lg_lh := x\<rparr>) = home_block l" for l x by (simp add: home_block_def in_log_def fun_eq_iff)
  show "in_trans p H ?k"
    using mk(1,3) log_add_logged [OF a(2) assms(5), of m] a(3,4,5) assms(4) by (auto simp: in_trans_def hb)
qed

text \<open>
  The two ways a transaction uses a block: reading it, and changing it under the log. \<open>H\<close> are buffers
  that are held meanwhile.
\<close>

lemma in_transD:
  assumes "in_trans p H k"
  shows "cache_ok p H k" "log_wf (log k)" "dblocks k = set (logged (log k))" "card (dblocks k) < NBUF"
  using assms logged_simps(1,5) [of "log k"] by (auto simp: in_trans_def distinct_card)

lemma in_trans_frame:
  assumes "in_trans p H k" "bio_frame p k k'" "cache_ok p H' k'" "dblocks k' = dblocks k"
  shows "in_trans p H' k'"
  using assms bio_frame_log(1) [OF assms(2)] by (simp add: in_trans_def)

lemma trans_bread:
  fixes k :: "'a log_state_scheme"
  assumes "in_trans p H k" "unat m < FSSIZE" "\<And>b. b \<in> H \<Longrightarrow> \<not> holds m (bufs k ! b)" "m \<in> dblocks k \<or> card H + card (dblocks k) < NBUF"
  obtains b k' where "bread 1 m k = Ret (b, k')" "in_trans p (insert b H) k'" "b \<notin> H" "holds m (bufs k' ! b)" "b_data (bufs k' ! b) = view k m"
    "view k' = view k" "disk k' = disk k" "writes k' = writes k" "dblocks k' = dblocks k" "bio_frame p k k'"
    "\<And>c x. c \<in> H \<Longrightarrow> holds x (bufs k' ! c) = holds x (bufs k ! c)"
proof -
  obtain b k' where r: "bread 1 m k = Ret (b, k')" and g: "got p H k m b k'" and d: "dblocks k' = dblocks k"
    using bread_block [OF in_transD(1) [OF assms(1)] assms(2-4)] by metis
  have c: "cache_ok p (insert b H) k'" "b \<notin> H" "holds m (bufs k' ! b)" "b_data (bufs k' ! b) = view k m" "view k' = view k"
    "disk k' = disk k" "writes k' = writes k" "bio_frame p k k'" "\<And>c. c \<noteq> b \<Longrightarrow> content (bufs k' ! c) = content (bufs k ! c)"
    using g by (simp_all add: got_def)
  have "holds x (bufs k' ! e) = holds x (bufs k ! e)" if "e \<in> H" for e x
    using content_eq [OF c(9) [of e]] that c(2) by blast
  then show ?thesis using that [OF r in_trans_frame [OF assms(1) c(8,1) d] c(2-7) d c(8)] by blast
qed

lemma trans_brelse:
  fixes k :: "'a log_state_scheme"
  assumes "in_trans p H k" "b \<in> H" "holds m (bufs k ! b)" "m \<in> dblocks k \<or> view k m = disk k 1 m"
  obtains k' where "brelse b k = Ret k'" "in_trans p (H - {b}) k'" "view k' = view k" "disk k' = disk k" "writes k' = writes k"
    "bio_frame p k k'" "\<And>c x. c \<noteq> b \<Longrightarrow> holds x (bufs k' ! c) = holds x (bufs k ! c)"
proof -
  obtain k' where r: "brelse b k = Ret k'" "cache_ok p (H - {b}) k'" "view k' = view k" "dblocks k' = dblocks k"
    "disk k' = disk k" "writes k' = writes k" "\<And>c m. c \<noteq> b \<Longrightarrow> holds m (bufs k' ! c) = holds m (bufs k ! c)" "bio_frame p k k'"
    using release_block [OF in_transD(1) [OF assms(1)] assms(2-4)] by metis
  show ?thesis by (rule that [OF r(1) in_trans_frame [OF assms(1) r(8,2,4)] r(3,5,6,8) r(7)])
qed

lemma trans_read:
  fixes k :: "'a log_state_scheme"
  assumes "in_trans p H k" "unat m < FSSIZE" "\<And>b. b \<in> H \<Longrightarrow> \<not> holds m (bufs k ! b)" "m \<in> dblocks k \<or> card H + card (dblocks k) < NBUF"
    and "m \<in> dblocks k \<or> view k m = disk k 1 m"
  obtains k' where "\<And>r. obind (bread 1 m k) (\<lambda>(b, k). let x = r (b_data (bufs k ! b)) in obind (brelse b k) (\<lambda>k. Ret (x, k))) = Ret (r (view k m), k')"
    "in_trans p H k'" "view k' = view k" "disk k' = disk k" "writes k' = writes k" "bio_frame p k k'"
    "\<And>c x. c \<in> H \<Longrightarrow> holds x (bufs k' ! c) = holds x (bufs k ! c)"
proof -
  obtain b k1 where r: "bread 1 m k = Ret (b, k1)" "in_trans p (insert b H) k1" "b \<notin> H" "holds m (bufs k1 ! b)" "b_data (bufs k1 ! b) = view k m"
    "view k1 = view k" "disk k1 = disk k" "writes k1 = writes k" "dblocks k1 = dblocks k" "bio_frame p k k1"
    "\<And>c x. c \<in> H \<Longrightarrow> holds x (bufs k1 ! c) = holds x (bufs k ! c)"
    using trans_bread [OF assms(1-4)] by metis
  have x: "m \<in> dblocks k1 \<or> view k1 m = disk k1 1 m" using assms(5) r by simp
  obtain k2 where q: "brelse b k1 = Ret k2" "in_trans p (insert b H - {b}) k2" "view k2 = view k1" "disk k2 = disk k1" "writes k2 = writes k1"
    "bio_frame p k1 k2" "\<And>c x. c \<noteq> b \<Longrightarrow> holds x (bufs k2 ! c) = holds x (bufs k1 ! c)"
    using trans_brelse [OF r(2) insertI1 r(4) x] by metis
  have e: "insert b H - {b} = H" using r(3) by blast
  have h: "holds x (bufs k2 ! c) = holds x (bufs k ! c)" if "c \<in> H" for c x
    using q(7) [of c x] r(11) [OF that, of x] r(3) that by blast
  show ?thesis
  proof (rule that)
    show "obind (bread 1 m k) (\<lambda>(b, k). let x = r (b_data (bufs k ! b)) in obind (brelse b k) (\<lambda>k. Ret (x, k))) = Ret (r (view k m), k2)" for r
      by (simp add: r(1) q(1) r(5))
    show "in_trans p H k2" using q(2) unfolding e .
    show "bio_frame p k k2" using bio_frame_trans [OF r(10) q(6)] .
  qed (simp_all add: q r h)
qed

text \<open>A held buffer is changed, marked for the log and released.\<close>

lemma trans_modify:
  fixes k :: "'a log_state_scheme"
  assumes "in_trans p H k" "b \<in> H" "holds m (bufs k ! b)" "home_block (log k) m"
    and "lh_n (lg_lh (log k)) < lg_size (log k) - 1" "1 \<le> lg_outstanding (log k)" "length (f (view k m)) = BSIZE"
  obtains k2 k' where "log_write b (upd_buf b (b_data_update f) k) = Ret k2" "brelse b k2 = Ret k'"
    "in_trans p (H - {b}) k'" "view k' = (view k)(m := f (view k m))" "disk k' = disk k" "writes k' = writes k"
    "bio_frame p (upd_lh (log_add m) k) k'" "\<And>c x. c \<noteq> b \<Longrightarrow> holds x (bufs k' ! c) = holds x (bufs k ! c)"
proof -
  let ?d = "f (view k m)" and ?k = "upd_buf b (b_data_update (\<lambda>_. f (view k m))) k"
  obtain xs where l: "lru (bufs k) xs" "length (bufs k) = NBUF + 1" using cache_ok_lru [OF in_transD(1) [OF assms(1)]] .
  have b: "b < NBUF" "b < length (bufs k)" using cache_okD(5) [OF in_transD(1) [OF assms(1)]] assms(2) l(2) by auto
  have e: "upd_buf b (b_data_update f) k = ?k"
    by (rule upd_buf_eq) (cases "bufs k ! b", use view_holds [OF in_transD(1) [OF assms(1)] b(1) assms(3)] in simp)
  note m = modify_ok [OF in_transD(1) [OF assms(1)] assms(2,3,7)]
  have hm: "holds x (bufs ?k ! c) = holds x (bufs k ! c)" for x c using b(2) by (cases "c = b") (auto simp: holds_def)
  have "dblocks ?k = dblocks k" by (rule dblocks_cong [OF m(3) hm])
  then have ik: "in_trans p H ?k" using in_trans_frame [OF assms(1) m(4,1)] by blast
  have lk: "log ?k = log k" by simp
  have hk: "holds m (bufs ?k ! b)" using hm assms(3) by blast
  define k2 where "k2 = upd_buf b (b_flags_update (\<lambda>f. f OR B_DIRTY)) (upd_lh (log_add m) ?k)"
  have w: "log_write b ?k = Ret k2" "in_trans p H k2" "view k2 = view ?k"
    unfolding k2_def using log_write_ok [OF ik assms(2) hk] assms(4,5,6) unfolding lk by blast+
  have ck: "cache_ok p H (upd_lh (log_add m) ?k)" "holds m (bufs (upd_lh (log_add m) ?k) ! b)"
    using in_transD(1) [OF ik] hk by simp_all
  note mk = mark_ok(3,4) [OF ck(1) assms(2) ck(2), folded k2_def]
  have h2: "holds m (bufs k2 ! b)" "m \<in> dblocks k2 \<or> view k2 m = disk k2 1 m" using mk ck(2) by blast+
  obtain k3 where q: "brelse b k2 = Ret k3" "in_trans p (H - {b}) k3" "view k3 = view k2" "disk k3 = disk k2" "writes k3 = writes k2"
    "bio_frame p k2 k3" "\<And>c x. c \<noteq> b \<Longrightarrow> holds x (bufs k3 ! c) = holds x (bufs k2 ! c)"
    using trans_brelse [OF w(2) assms(2) h2] by metis
  have "bio_frame p (upd_lh (log_add m) k) k3"
    using bio_frame_trans [OF _ q(6)] bio_frame_upd_lh [OF m(4)] unfolding k2_def by simp
  moreover have "holds x (bufs k3 ! c) = holds x (bufs k ! c)" if c: "c \<noteq> b" for c x
    using q(7) [OF c, of x] mk(2) [of x c] hm [of x c] by simp
  moreover have "view k3 = (view k)(m := f (view k m))" "disk k3 = disk k" "writes k3 = writes k"
    using q(3-5) w(3) m(2) by (simp_all add: k2_def)
  ultimately show ?thesis using that [of k2 k3, OF _ q(1,2)] w(1) unfolding e by blast
qed

lemma trans_update:
  fixes k :: "'a log_state_scheme"
  assumes "in_trans p H k" "home_block (log k) m" "\<And>b. b \<in> H \<Longrightarrow> \<not> holds m (bufs k ! b)" "m \<in> dblocks k \<or> card H + card (dblocks k) < NBUF"
    and "lh_n (lg_lh (log k)) < lg_size (log k) - 1" "1 \<le> lg_outstanding (log k)" "length (f (view k m)) = BSIZE"
  obtains k' where "obind (bread 1 m k) (\<lambda>(b, k). obind (log_write b (upd_buf b (b_data_update f) k)) (brelse b)) = Ret k'"
    "in_trans p H k'" "view k' = (view k)(m := f (view k m))" "disk k' = disk k" "writes k' = writes k" "bio_frame p (upd_lh (log_add m) k) k'"
    "\<And>c x. c \<in> H \<Longrightarrow> holds x (bufs k' ! c) = holds x (bufs k ! c)"
proof -
  have u: "unat m < FSSIZE" using assms(2) by (simp add: home_block_def)
  obtain b k1 where r: "bread 1 m k = Ret (b, k1)" "in_trans p (insert b H) k1" "b \<notin> H" "holds m (bufs k1 ! b)" "b_data (bufs k1 ! b) = view k m"
    "view k1 = view k" "disk k1 = disk k" "writes k1 = writes k" "dblocks k1 = dblocks k" "bio_frame p k k1"
    "\<And>c x. c \<in> H \<Longrightarrow> holds x (bufs k1 ! c) = holds x (bufs k ! c)"
    using trans_bread [OF assms(1) u assms(3,4)] by metis
  have l1: "log k1 = log k" using bio_frame_log [OF r(10)] by simp
  have a: "home_block (log k1) m" "lh_n (lg_lh (log k1)) < lg_size (log k1) - 1" "1 \<le> lg_outstanding (log k1)" "length (f (view k1 m)) = BSIZE"
    using assms(2,5-7) by (simp_all add: l1 r(6))
  obtain k2 k3 where q: "log_write b (upd_buf b (b_data_update f) k1) = Ret k2" "brelse b k2 = Ret k3"
    "in_trans p (insert b H - {b}) k3" "view k3 = (view k1)(m := f (view k1 m))" "disk k3 = disk k1" "writes k3 = writes k1"
    "bio_frame p (upd_lh (log_add m) k1) k3" "\<And>c x. c \<noteq> b \<Longrightarrow> holds x (bufs k3 ! c) = holds x (bufs k1 ! c)"
    by (rule trans_modify [where f = f, OF r(2) insertI1 r(4) a]) (rule that)
  have fr: "bio_frame p (upd_lh (log_add m) k) k3" using bio_frame_trans [OF bio_frame_upd_lh [OF r(10)] q(7)] .
  have eH: "insert b H - {b} = H" using r(3) by blast
  have h: "holds x (bufs k3 ! c) = holds x (bufs k ! c)" if c: "c \<in> H" for c x using q(8) [of c x] r(3) r(11) [OF c, of x] c by auto
  show ?thesis
  proof (rule that)
    show "obind (bread 1 m k) (\<lambda>(b, k). obind (log_write b (upd_buf b (b_data_update f) k)) (brelse b)) = Ret k3" by (simp add: r(1) q(1,2))
    show "in_trans p H k3" using q(3) unfolding eH .
  qed (simp_all add: fr h q r)
qed
section \<open>Properties\<close>

text \<open>The super block of a disk describes the log \<open>l\<close>.\<close>

definition describes :: "block \<Rightarrow> klog \<Rightarrow> bool" where
  "describes d l \<longleftrightarrow> sint (sb_logstart (get_superblock d)) = lg_start l \<and> sint (sb_nlog (get_superblock d)) = lg_size l"

lemma readsb_ok:
  assumes "cache_ok p {} k" "dblocks k = {}"
  shows "\<exists>k'. readsb 1 k = Ret (get_superblock (view k 1), k') \<and> dblocks k' = {} \<and> wrote p [] k k'"
proof -
  have one: "unat (1 :: u32) < FSSIZE" by simp
  obtain b k1 where r: "bread 1 1 k = Ret (b, k1)" and g: "got p {} k 1 b k1" and d1: "dblocks k1 = {}"
    using bread_block [OF assms(1) one] assms(2) by (metis add_0 card.empty empty_iff zero_less_numeral mult_pos_pos)
  have c: "cache_ok p {b} k1" "holds 1 (bufs k1 ! b)" "b_data (bufs k1 ! b) = view k 1" "view k1 = view k"
    "disk k1 = disk k" "writes k1 = writes k" "bio_frame p k k1"
    using g by (simp_all add: got_def)
  have x: "1 \<in> dblocks k1 \<or> view k1 1 = disk k1 1 1" using view_disk [OF assms(1)] assms(2) c by simp
  obtain k2 where q: "brelse b k1 = Ret k2" "cache_ok p ({b} - {b}) k2" "view k2 = view k1" "dblocks k2 = dblocks k1"
    "disk k2 = disk k1" "writes k2 = writes k1" "bio_frame p k1 k2"
    using release_block [OF c(1) singletonI c(2) x] by metis
  have "readsb 1 k = Ret (get_superblock (view k 1), k2)" using r q(1) c(3) by (simp add: readsb_def)
  moreover have "wrote p [] k k2" using q c bio_frame_trans [OF c(7) q(7)] by (simp add: wrote_def)
  ultimately show ?thesis using q(4) d1 by auto
qed

lemma log_binit: "log (binit k) = log k"
proof -
  have "log (fold binit_step ms j) = log j" for ms and j :: "'a log_state_scheme"
    by (induction ms arbitrary: j)
      (simp_all add: binit_step_def Let_def initsleeplock_def initlockk_def upd_buf_def upd_sleep_def)
  then show ?thesis by (simp add: binit_def Let_def initlockk_def upd_buf_def)
qed

lemma klog_cong:
  assumes "lg_lh l = lg_lh l'" "lg_start l = lg_start l'" "lg_size l = lg_size l'" "lg_dev l = lg_dev l'"
  shows "log_wf l = log_wf l'" "logged l = logged l'" "home_block l = home_block l'" "recovery_writes l = recovery_writes l'"
    "hdr_block l = hdr_block l'"
  using assms by (simp_all add: log_wf_def logged_def home_block_def recovery_writes_def in_log_def log_block_def hdr_block_def fun_eq_iff)

lemma initlog_ok:
  fixes k :: "'a log_state_scheme"
  assumes "boot_bufs q k" "describes (disk k 1 1) l" "length (lh_block (lg_lh (log k))) = LOGSIZE"
    and "log_wf (found l (lg_lh (log k)) (disk k 1))" "\<forall>m\<in>set (logged (found l (lg_lh (log k)) (disk k 1))). home_block l m"
  shows "\<exists>k' d. initlog 1 (binit k) = Ret k' \<and>
    disk k' 1 = (put_blocks (recovery_writes (found l (lg_lh (log k)) (disk k 1)) (disk k 1)) (disk k 1))(hdr_block l := d)"
proof -
  define k0 where "k0 = initlockk LogLock ''log'' (binit k)"
  note b = binit_ok [OF assms(1)]
  note lb = log_binit [of k]
  have i: "cache_ok q {} k0" "dblocks k0 = {}" "view k0 = disk k 1" "disk k0 1 = disk k 1" "log k0 = log k"
  proof -
    have "spin k0 l' = spin (binit k) l' \<or> lock_free (spin k0 l')" for l'
      by (simp add: k0_def initlockk_def initlock_def lock_free_def)
    then have "serving q k0" using cache_okD(1) [OF b(1)] servingD(5) [OF cache_okD(1) [OF b(1)]]
      by (simp add: k0_def initlockk_def serving_def unlocked_def calm_def initlock_def lock_free_def)
    then show "cache_ok q {} k0" using b(1) by (simp add: cache_ok_def k0_def initlockk_def)
    have s: "bufs k0 = bufs (binit k)" "disk k0 = disk (binit k)" by (simp_all add: k0_def initlockk_def)
    have "dblocks (binit k) = {}" using b(2) by (simp add: dblocks_def)
    then show "view k0 = disk k 1" "dblocks k0 = {}" "disk k0 1 = disk k 1"
      using b view_bufs [OF s] dblocks_bufs [OF s(1)] s(2) by simp_all
    show "log k0 = log k" by (simp add: k0_def initlockk_def lb)
  qed
  obtain k1 where r: "readsb 1 k0 = Ret (get_superblock (disk k 1 1), k1)" "dblocks k1 = {}" "wrote q [] k0 k1"
    using readsb_ok [OF i(1,2)] i(3) by auto
  note w = wroteD [OF r(3)]
  have l1: "log k1 = log k" using bio_frame_log(1) [OF w(4)] i(5) by simp
  let ?k = "upd_log (\<lambda>g. g\<lparr>lg_start := lg_start l, lg_size := lg_size l, lg_dev := 1\<rparr>) k1"
  have s: "bufs ?k = bufs k1" "disk ?k = disk k1" by (simp_all add: upd_log_def)
  have u: "cache_ok q {} ?k" "dblocks ?k = {}" "view ?k = disk k 1" "disk ?k 1 = disk k 1"
    using w(1,2,3) r(2) i(3,4) view_bufs [OF s] dblocks_bufs [OF s(1)] s(2)
    by (simp_all add: cache_ok_def) (simp_all add: upd_log_def serving_def unlocked_def calm_def)
  let ?l = "(log ?k)\<lparr>lg_lh := disk_head (view ?k (hdr_block (log ?k))) (lg_lh (log ?k))\<rparr>" and ?f = "found l (lg_lh (log k)) (disk k 1)"
  have hb: "hdr_block (log ?k) = hdr_block l" by (simp add: upd_log_def hdr_block_def)
  have e: "lg_lh ?l = lg_lh ?f" "lg_start ?l = lg_start ?f" "lg_size ?l = lg_size ?f" "lg_dev ?l = lg_dev ?f"
    unfolding hb u(3) by (simp_all add: upd_log_def found_def l1)
  note e2 = klog_cong [OF e]
  have len: "length (lh_block (lg_lh (log ?k))) = LOGSIZE" using assms(3) by (simp add: upd_log_def l1)
  have wf: "log_wf ?l" "\<forall>m\<in>set (logged ?l). home_block ?l m" unfolding e2 using assms(4,5) by simp_all
  obtain k2 d where "recover_from_log ?k = Ret k2"
    "disk k2 1 = (put_blocks (recovery_writes ?f (view ?k)) (disk ?k 1))(hdr_block ?f := d)"
    using recover_ok [OF u(1,2) len refl wf] unfolding e2 by blast
  moreover have "initlog 1 (binit k) = recover_from_log ?k"
    using r(1) assms(2) by (simp add: initlog_def k0_def [symmetric] describes_def)
  ultimately show ?thesis unfolding u(3,4) by auto
qed

text \<open>
  Claim C1. A transaction is atomic under crashes. Suppose the log on the disk is empty and a transaction is
  committed, and the machine stops after the first \<open>j\<close> of the block writes of \<open>commit\<close>, for any \<open>j\<close>. When it boots again from that disk,
  recovery succeeds, and every block outside the log then has its old contents if the header had not been
  written, and the contents that the transaction gave it if it had.
\<close>

theorem commit_crash_atomic:
  fixes k k' :: "'a log_state_scheme" and kb :: "'b log_state_scheme"
  assumes "trans_ok p k" "0 < lh_n (lg_lh (log k))" "sint (get32 (disk k 1 (hdr_block (log k))) 0) = 0"
    and "describes (disk k 1 1) (log k)" "home_block (log k) 1" "1 \<notin> set (logged (log k))"
    and "commit k = Ret k'" "writes k' = writes k @ ws"
    and "boot_bufs q kb" "disk kb 1 = put_blocks (map snd (take j ws)) (disk k 1)" "length (lh_block (lg_lh (log kb))) = LOGSIZE"
  shows "\<exists>kr. initlog 1 (binit kb) = Ret kr \<and>
    (\<forall>m. \<not> in_log (log k) m \<longrightarrow> disk kr 1 m = (if j \<le> nat (lh_n (lg_lh (log k))) then disk k 1 m else view k m))"
proof -
  let ?l = "log k" and ?lh = "lg_lh (log kb)"
  have t: "cache_ok p {} k" "log_wf ?l" "\<forall>m\<in>set (logged ?l). home_block ?l m" "dblocks k = set (logged ?l)"
    using assms(1) by (simp_all add: trans_ok_def)
  have hin: "in_log ?l (hdr_block ?l)" using log_blocks(5) [OF t(2)] .
  have vd: "view k m = disk k 1 m" if "m \<notin> set (logged ?l)" for m using view_disk [OF t(1)] that t(4) by simp
  have hh: "hdr_block ?l \<notin> set (logged ?l)" using t(3) hin by (auto simp: home_block_def)
  have len: "length (view k (hdr_block ?l)) = BSIZE" using vd [OF hh] cache_okD(6) [OF t(1)] by simp
  obtain k1 where c: "commit k = Ret k1" "wrote p (commit_writes ?l (view k)) (upd_lh (lh_n_update (\<lambda>_. 0)) k) k1"
    using commit_ok [OF assms(1,2)] by blast
  then have "map (\<lambda>(m, d). (1, m, d)) (commit_writes ?l (view k)) = ws" using assms(7,8) by (simp add: wrote_def)
  then have "map snd ws = commit_writes ?l (view k)" by (auto simp: case_prod_beta comp_def)
  then have g: "disk kb 1 = put_blocks (take j (commit_writes ?l (view k))) (disk k 1)" using assms(10) by (metis take_map)
  have vd': "\<forall>m. m \<notin> set (logged ?l) \<longrightarrow> view k m = disk k 1 m" using vd by blast
  note cr = crash_disk [where v = "view k" and f = "disk k 1" and j = j, OF t(2,3) vd' len assms(3,11), folded g]
  have "\<not> in_log ?l 1" using assms(5) by (simp add: home_block_def)
  then have "disk kb 1 1 = disk k 1 1" using cr(4) assms(6) by blast
  then have ds: "describes (disk kb 1 1) ?l" using assms(4) by simp
  obtain kr d where kr: "initlog 1 (binit kb) = Ret kr"
    "disk kr 1 = (put_blocks (recovery_writes (found ?l ?lh (disk kb 1)) (disk kb 1)) (disk kb 1))(hdr_block ?l := d)"
    using initlog_ok [OF assms(9) ds assms(11) cr(1,2)] by blast
  have "disk kr 1 m = (if j \<le> nat (lh_n (lg_lh ?l)) then disk k 1 m else view k m)" if "\<not> in_log ?l m" for m
  proof -
    have "m \<noteq> hdr_block ?l" using that hin by auto
    then show ?thesis using cr(3) [OF that] by (simp add: kr(2))
  qed
  then show ?thesis using kr(1) by blast
qed


text \<open>A machine with a log of 30 blocks from block 2 on, one call in progress, and a file system of zeros.\<close>

definition log0 :: klog where
  "log0 = \<lparr>lg_start = 2, lg_size = 30, lg_outstanding = 1, lg_committing = 0, lg_dev = 1, lg_lh = \<lparr>lh_n = 0, lh_block = replicate LOGSIZE 0\<rparr>\<rparr>"

definition kernel1 :: "disk \<Rightarrow> klog \<Rightarrow> log_state" where
  "kernel1 d l = buf_state.extend (kernel0 d) (log_state.fields l)"

definition disk0 :: "u32 \<Rightarrow> block" where
  "disk0 m = (if m = 1 then put32 (put32 (replicate BSIZE 0) 12 30) 16 2 else replicate BSIZE 0)"

lemma kernel1_simps:
  "procs (kernel1 d l) = procs (kernel0 d)" "bufs (kernel1 d l) = bufs (kernel0 d)" "idequeue (kernel1 d l) = idequeue (kernel0 d)"
  "havedisk1 (kernel1 d l) = havedisk1 (kernel0 d)" "disk (kernel1 d l) = disk (kernel0 d)" "ide (kernel1 d l) = ide (kernel0 d)"
  "serving p (kernel1 d l) = serving p (kernel0 d)" "log (kernel1 d l) = l"
  by (simp_all add: kernel1_def buf_state.defs log_state.defs serving_def unlocked_def calm_def)

lemma boot_kernel1: "(\<And>n. length (d 1 n) = BSIZE) \<Longrightarrow> boot_bufs 0 (kernel1 d l)"
  using boot_kernel0 [of d] by (simp add: boot_bufs_def kernel1_simps)

lemma disk0_simps: "length (disk0 m) = BSIZE" "describes (disk0 1) log0" "m \<noteq> 1 \<Longrightarrow> disk0 m = replicate BSIZE 0"
proof -
  show "length (disk0 m) = BSIZE" by (simp add: disk0_def)
  have "get32 (disk0 1) 16 = 2" "get32 (disk0 1) 12 = 30" by (simp_all add: disk0_def get_put_other(1))
  then show "describes (disk0 1) log0" by (simp add: describes_def get_superblock_def log0_def)
  show "m \<noteq> 1 \<Longrightarrow> disk0 m = replicate BSIZE 0" by (simp add: disk0_def)
qed

lemma example_trans: "in_trans 0 {} (binit (kernel1 (\<lambda>_. disk0) log0))" "view (binit (kernel1 (\<lambda>_. disk0) log0)) = disk0"
  "disk (binit (kernel1 (\<lambda>_. disk0) log0)) 1 = disk0" "log (binit (kernel1 (\<lambda>_. disk0) log0)) = log0"
proof -
  note b = binit_ok [OF boot_kernel1 [of "\<lambda>_. disk0" log0, OF disk0_simps(1)]]
  show l: "log (binit (kernel1 (\<lambda>_. disk0) log0)) = log0" by (simp add: log_binit kernel1_simps)
  show "view (binit (kernel1 (\<lambda>_. disk0) log0)) = disk0" "disk (binit (kernel1 (\<lambda>_. disk0) log0)) 1 = disk0"
    using b(3,4) by (simp_all add: kernel1_simps kernel0_simps)
  show "in_trans 0 {} (binit (kernel1 (\<lambda>_. disk0) log0))"
    using b(1,2) unfolding in_trans_def l by (simp add: log_wf_def log0_def logged_def dblocks_def)
qed

lemma put_blocks_length:
  assumes "\<And>m. length (f m) = n" "\<And>m d. (m, d) \<in> set ws \<Longrightarrow> length d = n"
  shows "length (put_blocks ws f m) = n"
  using assms
proof (induction ws arbitrary: f)
  case (Cons w ws)
  obtain a d where w: "w = (a, d)" by (cases w)
  have "length ((f(a := d)) x) = n" for x using Cons.prems(1) [of x] Cons.prems(2) [of a d] w by simp
  moreover have "length e = n" if "(x, e) \<in> set ws" for x e using Cons.prems(2) [of x e] that by simp
  ultimately have "length (put_blocks ws (f(a := d)) m) = n" by (rule Cons.IH)
  then show ?case by (simp add: w)
qed simp

lemma commit_writes_length:
  assumes "log_wf l" "\<And>m. length (v m) = BSIZE" "(m, d) \<in> set (commit_writes l v)"
  shows "length d = BSIZE"
proof -
  have "length (full_head l v) = BSIZE"
    using head_bytes_simps(1) [OF assms(2), of "nat (lh_n (lg_lh l))"] assms(1) by (auto simp: full_head_def log_wf_def)
  then show ?thesis using assms(2,3) by (auto simp: commit_writes_def log_copies_def home_copies_def empty_head_def)
qed

theorem commit_crash_atomic_witness:
  "\<exists>(k :: log_state) k' ws kr. commit k = Ret k' \<and> writes k' = writes k @ ws \<and>
     initlog 1 (binit (kernel1 (\<lambda>_. put_blocks (map snd (take 2 ws)) (disk k 1)) log0)) = Ret kr \<and>
     disk k 1 100 = replicate BSIZE 0 \<and> disk kr 1 100 = replicate BSIZE 7"
proof -
  let ?k0 = "binit (kernel1 (\<lambda>_. disk0) log0)"
  note e = example_trans
  have hm: "home_block (log ?k0) 100" unfolding e(4) by (simp add: home_block_def in_log_def log0_def)
  have room: "(100 :: u32) \<in> dblocks ?k0 \<or> card ({} :: nat set) + card (dblocks ?k0) < NBUF" using in_transD(4) [OF e(1)] by simp
  have c: "lh_n (lg_lh (log ?k0)) < lg_size (log ?k0) - 1" "1 \<le> lg_outstanding (log ?k0)" unfolding e(4) by (simp_all add: log0_def)
  obtain k :: log_state where k: "in_trans 0 {} k" "view k = (view ?k0)(100 := replicate BSIZE 7)" "disk k = disk ?k0"
    "bio_frame 0 (upd_lh (log_add 100) ?k0) k"
  proof (rule trans_update [where f = "\<lambda>_. replicate BSIZE 7", OF e(1) hm _ room c])
    show "length (replicate BSIZE (7 :: u8)) = BSIZE" by simp
  qed (use that in auto)
  have l: "log k = log0\<lparr>lg_lh := log_add 100 (lg_lh log0)\<rparr>" using bio_frame_log(1) [OF k(4)] by (simp add: e(4))
  then have lg: "logged (log k) = [100]" "lh_n (lg_lh (log k)) = 1" "lg_start (log k) = 2" "lg_size (log k) = 30"
    by (simp_all add: log0_def log_add_def logged_def) (simp add: numeral_eq_Suc)
  have t: "trans_ok 0 k" using k(1) by (simp add: trans_in_trans)
  have n: "0 < lh_n (lg_lh (log k))" using lg by simp
  obtain k' where k': "commit k = Ret k'" "wrote 0 (commit_writes (log k) (view k)) (upd_lh (lh_n_update (\<lambda>_. 0)) k) k'"
    using commit_ok [OF t n] by blast
  define ws where "ws = map (\<lambda>(m, d). (1 :: u32, m, d)) (commit_writes (log k) (view k))"
  have ws: "writes k' = writes k @ ws" using k'(2) by (simp add: wrote_def ws_def)
  have sn: "map snd ws = commit_writes (log k) (view k)" by (auto simp: ws_def case_prod_beta comp_def)
  define g where "g = put_blocks (map snd (take 2 ws)) (disk k 1)"
  have vl: "length (view k m) = BSIZE" for m using k(2) e(2) disk0_simps(1) by simp
  have dl: "length (disk k 1 m) = BSIZE" for m using k(3) e(3) disk0_simps(1) by simp
  have gl: "length (g m) = BSIZE" for m unfolding g_def take_map [symmetric] sn
    by (rule put_blocks_length [OF dl]) (meson commit_writes_length in_set_takeD in_transD(2) k(1) vl)
  have bt: "boot_bufs 0 (kernel1 (\<lambda>_. g) log0)" by (rule boot_kernel1 [OF gl])
  have dk: "disk (kernel1 (\<lambda>_. g) log0) 1 = put_blocks (map snd (take 2 ws)) (disk k 1)"
    by (simp add: kernel1_simps kernel0_simps g_def)
  have h: "hdr_block (log k) = 2" by (simp add: hdr_block_def lg)
  have z: "sint (get32 (disk k 1 (hdr_block (log k))) 0) = 0" unfolding h k(3) e(3) by (simp add: disk0_def get32_def)
  have ds: "describes (disk k 1 1) (log k)" using disk0_simps(2) unfolding k(3) e(3) by (simp add: describes_def lg) (simp add: log0_def)
  have h1: "home_block (log k) 1" "1 \<notin> set (logged (log k))" by (simp_all add: home_block_def in_log_def lg)
  have ln: "length (lh_block (lg_lh (log (kernel1 (\<lambda>_. g) log0)))) = LOGSIZE" by (simp add: kernel1_simps log0_def)
  obtain kr where kr: "initlog 1 (binit (kernel1 (\<lambda>_. g) log0)) = Ret kr"
    "\<forall>m. \<not> in_log (log k) m \<longrightarrow> disk kr 1 m = (if 2 \<le> nat (lh_n (lg_lh (log k))) then disk k 1 m else view k m)"
    using commit_crash_atomic [OF t n z ds h1 k'(1) ws bt dk ln] by blast
  have "\<not> in_log (log k) 100" by (simp add: in_log_def lg)
  then have "disk kr 1 100 = view k 100" using kr(2) lg by simp
  then have "disk kr 1 100 = replicate BSIZE 7" using k(2) by simp
  moreover have "disk k 1 100 = replicate BSIZE 0" using k(3) e(3) disk0_simps(3) by simp
  ultimately show ?thesis using k'(1) ws kr(1) unfolding g_def by blast
qed

end
