(* ===== verification/Printf.thy ===== *)
theory Printf
  imports Prelude "HOL-Library.Char_ord"
begin

text \<open>
  Formatted output, of the kernel (\<^verbatim>\<open>printint\<close> and \<^verbatim>\<open>cprintf\<close> of console.c) and of user programs (printf.c), and
  the number reader of ulib.c. What is put out character by character is collected in a string.
\<close>

section \<open>Numbers\<close>

definition digits_lower :: string where "digits_lower = ''0123456789abcdef''"

definition digits_upper :: string where "digits_upper = ''0123456789ABCDEF''"

text \<open>
  The characters of the loop \<^verbatim>\<open>do ... while((x /= base) != 0)\<close>, last digit first. The callers pass the bases 10 and 16; with a
  smaller base than 2 the loop of the code does not end, and the first digit is all the model gives.
\<close>

function digit_loop :: "string \<Rightarrow> u32 \<Rightarrow> u32 \<Rightarrow> string" where
  "digit_loop digits base x =
     digits ! unat (x mod base) # (if x div base = 0 \<or> base < 2 then [] else digit_loop digits base (x div base))"
  by pat_completeness auto
termination
proof (relation "measure (\<lambda>(ds, b, x). unat x)", goal_cases)
  case (2 digits base x)
  then have "x \<noteq> 0" "2 \<le> unat base" by (auto simp: word_less_nat_alt)
  then have "unat x div unat base < unat x" by (intro div_less_dividend) (simp_all add: unat_gt_0)
  then show ?case by (simp add: unat_div)
qed simp

declare digit_loop.simps [simp del]

text \<open>The kernel's routine, and that of user programs.\<close>

definition printint :: "u32 \<Rightarrow> u32 \<Rightarrow> bool \<Rightarrow> string" where
  "printint xx base sign =
     (let neg = (sign \<and> sint xx < 0);
          x = (if neg then - xx else xx);
          buf = digit_loop digits_lower base x;
          buf = (if neg then buf @ ''-'' else buf)
      in rev buf)"

definition printint_user :: "u32 \<Rightarrow> u32 \<Rightarrow> bool \<Rightarrow> string" where
  "printint_user xx base sg =
     (let (neg, x) = (if sg \<and> sint xx < 0 then (True, - xx) else (False, xx));
          buf = digit_loop digits_upper base x;
          buf = (if neg then buf @ ''-'' else buf)
      in rev buf)"

text \<open>Reading a number: \<open>n * 10 + c - '0'\<close> in 32 bits, up to the first character that is no digit.\<close>

primrec atoi_loop :: "string \<Rightarrow> u32 \<Rightarrow> u32" where
  "atoi_loop [] n = n"
| "atoi_loop (c # s) n =
     (if CHR ''0'' \<le> c \<and> c \<le> CHR ''9'' then atoi_loop s (n * 10 + of_nat (of_char c) - of_nat (of_char CHR ''0'')) else n)"

definition atoi :: "string \<Rightarrow> u32" where
  "atoi s = atoi_loop s 0"

section \<open>Formats\<close>

text \<open>
  An argument is a word or a pointer to a string. A format that asks for a string and is given a word other than 0, or
  the other way round, or has more conversions than arguments, is outside of the model.
\<close>

datatype farg = Word u32 | Str string

primrec farg_word :: "farg \<Rightarrow> u32 option" where
  "farg_word (Word w) = Some w"
| "farg_word (Str s) = None"

primrec farg_string :: "farg \<Rightarrow> string option" where
  "farg_string (Word w) = (if w = 0 then Some ''(null)'' else None)"
| "farg_string (Str s) = Some s"

fun cprintf_text :: "string \<Rightarrow> farg list \<Rightarrow> string option" where
  "cprintf_text [] args = Some []"
| "cprintf_text (c # fmt) args =
     (if c \<noteq> CHR ''%'' then map_option ((#) c) (cprintf_text fmt args)
      else case fmt of [] \<Rightarrow> Some []
      | c # fmt \<Rightarrow>
          if c = CHR ''d'' then
            (case args of [] \<Rightarrow> None | a # args \<Rightarrow>
               Option.bind (farg_word a) (\<lambda>w. map_option ((@) (printint w 10 True)) (cprintf_text fmt args)))
          else if c = CHR ''x'' \<or> c = CHR ''p'' then
            (case args of [] \<Rightarrow> None | a # args \<Rightarrow>
               Option.bind (farg_word a) (\<lambda>w. map_option ((@) (printint w 16 False)) (cprintf_text fmt args)))
          else if c = CHR ''s'' then
            (case args of [] \<Rightarrow> None | a # args \<Rightarrow>
               Option.bind (farg_string a) (\<lambda>s. map_option ((@) s) (cprintf_text fmt args)))
          else if c = CHR ''%'' then map_option ((#) (CHR ''%'')) (cprintf_text fmt args)
          else map_option (\<lambda>t. CHR ''%'' # c # t) (cprintf_text fmt args))"

text \<open>\<open>printf\<close> of user programs, with its state: whether a \<^verbatim>\<open>%\<close> has just been read.\<close>

primrec printf_loop :: "string \<Rightarrow> bool \<Rightarrow> farg list \<Rightarrow> string option" where
  "printf_loop [] st args = Some []"
| "printf_loop (c # fmt) st args =
     (if \<not> st then
        (if c = CHR ''%'' then printf_loop fmt True args else map_option ((#) c) (printf_loop fmt False args))
      else if c = CHR ''d'' then
        (case args of [] \<Rightarrow> None | a # args \<Rightarrow>
           Option.bind (farg_word a) (\<lambda>w. map_option ((@) (printint_user w 10 True)) (printf_loop fmt False args)))
      else if c = CHR ''x'' \<or> c = CHR ''p'' then
        (case args of [] \<Rightarrow> None | a # args \<Rightarrow>
           Option.bind (farg_word a) (\<lambda>w. map_option ((@) (printint_user w 16 False)) (printf_loop fmt False args)))
      else if c = CHR ''s'' then
        (case args of [] \<Rightarrow> None | a # args \<Rightarrow>
           Option.bind (farg_string a) (\<lambda>s. map_option ((@) s) (printf_loop fmt False args)))
      else if c = CHR ''c'' then
        (case args of [] \<Rightarrow> None | a # args \<Rightarrow>
           Option.bind (farg_word a) (\<lambda>w. map_option ((#) (char_of (unat w))) (printf_loop fmt False args)))
      else if c = CHR ''%'' then map_option ((#) c) (printf_loop fmt False args)
      else map_option (\<lambda>t. CHR ''%'' # c # t) (printf_loop fmt False args))"

definition printf :: "string \<Rightarrow> farg list \<Rightarrow> string option" where
  "printf fmt args = printf_loop fmt False args"


section \<open>Numbers and their digits\<close>

lemma digit_chars:
  assumes "d < 10"
  shows "CHR ''0'' \<le> digits_lower ! d" "digits_lower ! d \<le> CHR ''9''" "(of_char (digits_lower ! d) :: nat) = 48 + d"
    "digits_upper ! d = digits_lower ! d"
proof -
  have "d \<in> {0, 1, 2, 3, 4, 5, 6, 7, 8, 9}" using assms by auto
  then show "CHR ''0'' \<le> digits_lower ! d" "digits_lower ! d \<le> CHR ''9''" "(of_char (digits_lower ! d) :: nat) = 48 + d"
    "digits_upper ! d = digits_lower ! d"
    by (auto simp: digits_lower_def digits_upper_def less_eq_char_def)
qed

text \<open>The number a reader of decimal digits has after each character.\<close>

lemma atoi_loop_append:
  assumes "\<And>c. c \<in> set s \<Longrightarrow> CHR ''0'' \<le> c \<and> c \<le> CHR ''9''"
  shows "atoi_loop (s @ t) n = atoi_loop t (atoi_loop s n)"
  using assms by (induction s arbitrary: n) auto

lemma digit_loop_chars:
  assumes "digits = digits_lower \<or> digits = digits_upper" "c \<in> set (digit_loop digits 10 x)"
  shows "CHR ''0'' \<le> c \<and> c \<le> CHR ''9''"
  using assms
proof (induction digits "10 :: u32" x rule: digit_loop.induct)
  case (1 digits x)
  have "unat (x mod 10) < 10" by (simp add: unat_mod)
  then have "CHR ''0'' \<le> digits ! unat (x mod 10) \<and> digits ! unat (x mod 10) \<le> CHR ''9''"
    using 1(2) digit_chars [of "unat (x mod 10)"] by auto
  then show ?case using 1 by (subst (asm) (2) digit_loop.simps) (auto split: if_splits)
qed

lemma atoi_digit_loop:
  assumes "digits = digits_lower \<or> digits = digits_upper"
  shows "atoi_loop (rev (digit_loop digits 10 x)) 0 = x"
  using assms
proof (induction digits "10 :: u32" x rule: digit_loop.induct)
  case (1 digits x)
  let ?d = "digits ! unat (x mod 10)"
  have "unat (x mod 10) < 10" by (simp add: unat_mod)
  then have d: "CHR ''0'' \<le> ?d" "?d \<le> CHR ''9''" "(of_char ?d :: nat) = 48 + unat (x mod 10)"
    using 1(2) digit_chars [of "unat (x mod 10)"] by auto
  have w: "(of_nat (of_char ?d) :: u32) - of_nat (of_char CHR ''0'') = x mod 10" using d(3) by simp
  have m: "(x div 10) * 10 + x mod 10 = x" by (rule div_mult_mod_eq)
  show ?case
  proof (cases "x div 10 = 0")
    case True
    then show ?thesis using d w m by (subst digit_loop.simps) (simp add: add_diff_eq [symmetric])
  next
    case False
    then have "atoi_loop (rev (digit_loop digits 10 (x div 10))) 0 = x div 10" using 1 by simp
    moreover have "digit_loop digits 10 x = ?d # digit_loop digits 10 (x div 10)" using False by (subst digit_loop.simps) simp
    moreover have "atoi_loop (rev (digit_loop digits 10 (x div 10)) @ [?d]) 0 =
      atoi_loop [?d] (atoi_loop (rev (digit_loop digits 10 (x div 10))) 0)"
      by (rule atoi_loop_append) (use digit_loop_chars [OF 1(2)] in auto)
    ultimately show ?thesis using d(1,2) w m by (simp add: add_diff_eq [symmetric])
  qed
qed

lemma digit_loop_length:
  assumes "2 \<le> unat base" "unat x < unat base ^ Suc n"
  shows "length (digit_loop digits base x) \<le> Suc n"
  using assms(2)
proof (induction n arbitrary: x)
  case 0
  then have "x div base = 0" by (simp add: word_unat_eq_iff unat_div)
  then show ?case by (subst digit_loop.simps) simp
next
  case (Suc n)
  have "unat (x div base) < unat base ^ Suc n" using Suc.prems by (simp add: unat_div less_mult_imp_div_less mult.commute)
  then have "length (digit_loop digits base (x div base)) \<le> Suc n" by (rule Suc.IH)
  then show ?case by (subst digit_loop.simps) simp
qed

section \<open>Properties\<close>

text \<open>
  Claim C28. Printing and reading numbers are inverse: \<open>atoi\<close> of what \<open>printf("%d")\<close> prints for a number that is not negative
  is the number, and what it prints for a negative number is a minus sign and the digits of its absolute value, for the most negative one too.
\<close>

theorem atoi_printint:
  "if 0 \<le> sint n then atoi (printint_user n 10 True) = n
   else \<exists>ds. printint_user n 10 True = CHR ''-'' # ds \<and> atoi ds = - n"
  by (simp add: atoi_def printint_user_def atoi_digit_loop)

text \<open>
  Claim C29. The 16 bytes that both number printers have on the stack are enough: in base 10 with a sign they use at
  most 11, in base 16 at most 8.
\<close>

theorem printint_fits:
  "length (printint x 10 sg) \<le> 11 \<and> length (printint x 16 sg) \<le> 9 \<and> length (printint x 16 False) \<le> 8 \<and>
   length (printint_user x 10 sg) \<le> 11 \<and> length (printint_user x 16 sg) \<le> 9 \<and> length (printint_user x 16 False) \<le> 8"
proof -
  have a: "length (digit_loop ds 10 y) \<le> Suc 9" for ds y by (rule digit_loop_length) (simp_all add: less_le_trans [OF unat_lt_2p32])
  have b: "length (digit_loop ds 16 y) \<le> Suc 7" for ds y by (rule digit_loop_length) (simp_all add: less_le_trans [OF unat_lt_2p32])
  show ?thesis using a b le_SucI [OF a] le_SucI [OF b] by (simp add: printint_def printint_user_def Let_def)
qed

end
