(* ===== verification/Inode.thy ===== *)
theory Inode
  imports Log_Crash Printf
begin

text \<open>
  Disk blocks and inodes (the first half of fs.c): the bitmap of free blocks, the inodes on the disk, the table of
  inodes in memory, and the block map of an inode. The sleep lock of an inode is named by its index in the table.
\<close>

section \<open>State\<close>

abbreviation (input) ROOTINO :: u32 where "ROOTINO \<equiv> 1"
abbreviation (input) NDIRECT :: nat where "NDIRECT \<equiv> 12"
abbreviation (input) NINDIRECT :: nat where "NINDIRECT \<equiv> 128"
abbreviation (input) MAXFILE :: nat where "MAXFILE \<equiv> NDIRECT + NINDIRECT"
abbreviation (input) IPB :: nat where "IPB \<equiv> 8"
abbreviation (input) BPB :: nat where "BPB \<equiv> 4096"
abbreviation (input) T_DIR :: u16 where "T_DIR \<equiv> 1"
abbreviation (input) T_FILE :: u16 where "T_FILE \<equiv> 2"
abbreviation (input) T_DEV :: u16 where "T_DEV \<equiv> 3"

record dinode =
  d_type :: u16
  d_major :: u16
  d_minor :: u16
  d_nlink :: u16
  d_size :: u32
  d_addrs :: "u32 list"

record inode =
  i_dev :: u32
  i_inum :: u32
  i_ref :: int
  i_valid :: int
  i_type :: u16
  i_major :: u16
  i_minor :: u16
  i_nlink :: u16
  i_size :: u32
  i_addrs :: "u32 list"

record inode_state = log_state +
  sb :: superblock
  inodes :: "inode list"

definition upd_inode :: "nat \<Rightarrow> (inode \<Rightarrow> inode) \<Rightarrow> 'a inode_state_scheme \<Rightarrow> 'a inode_state_scheme" where
  "upd_inode i f k = k\<lparr>inodes := (inodes k)[i := f (inodes k ! i)]\<rparr>"

definition IBLOCK :: "u32 \<Rightarrow> superblock \<Rightarrow> u32" where
  "IBLOCK i s = i div of_nat IPB + sb_inodestart s"

definition BBLOCK :: "u32 \<Rightarrow> superblock \<Rightarrow> u32" where
  "BBLOCK b s = b div of_nat BPB + sb_bmapstart s"

text \<open>The \<open>n\<close>th 64-byte inode of a block.\<close>

definition get_dinode :: "block \<Rightarrow> nat \<Rightarrow> dinode" where
  "get_dinode d n =
     \<lparr>d_type = get16 d (64 * n), d_major = get16 d (64 * n + 2), d_minor = get16 d (64 * n + 4), d_nlink = get16 d (64 * n + 6),
      d_size = get32 d (64 * n + 8), d_addrs = map (\<lambda>i. get32 d (64 * n + 12 + 4 * i)) [0..<NDIRECT + 1]\<rparr>"

definition dinode_bytes :: "dinode \<Rightarrow> u8 list" where
  "dinode_bytes x = bytes16 (d_type x) @ bytes16 (d_major x) @ bytes16 (d_minor x) @ bytes16 (d_nlink x) @ bytes32 (d_size x) @
     concat (map bytes32 (d_addrs x))"

definition put_dinode :: "block \<Rightarrow> nat \<Rightarrow> dinode \<Rightarrow> block" where
  "put_dinode d n x = splice d (64 * n) (dinode_bytes x)"

definition kprintf :: "string \<Rightarrow> farg list \<Rightarrow> 'a pstate_scheme \<Rightarrow> 'a pstate_scheme" where
  "kprintf fmt args k = (case cprintf_text fmt args of Some t \<Rightarrow> k\<lparr>mach := cprintf t (mach k)\<rparr> | None \<Rightarrow> k)"

section \<open>Blocks\<close>

definition bzero :: "u32 \<Rightarrow> u32 \<Rightarrow> 'a inode_state_scheme \<Rightarrow> 'a inode_state_scheme outcome" where
  "bzero dev bno k =
     obind (bread dev bno k) (\<lambda>(bp, k).
       obind (log_write bp (upd_buf bp (b_data_update (\<lambda>_. replicate BSIZE 0)) k)) (brelse bp))"

definition bit_free :: "block \<Rightarrow> nat \<Rightarrow> bool" where
  "bit_free d bi \<longleftrightarrow> d ! (bi div 8) AND push_bit (bi mod 8) 1 = 0"

definition set_bit_used :: "nat \<Rightarrow> block \<Rightarrow> block" where
  "set_bit_used bi d = d[bi div 8 := d ! (bi div 8) OR push_bit (bi mod 8) 1]"

definition set_bit_free :: "nat \<Rightarrow> block \<Rightarrow> block" where
  "set_bit_free bi d = d[bi div 8 := d ! (bi div 8) AND NOT (push_bit (bi mod 8) 1)]"

text \<open>\<open>balloc\<close> goes through the groups of \<^verbatim>\<open>BPB\<close> blocks that share a block of the bitmap.\<close>

primrec balloc_loop :: "u32 \<Rightarrow> nat list \<Rightarrow> 'a inode_state_scheme \<Rightarrow> (u32 \<times> 'a inode_state_scheme) outcome" where
  "balloc_loop dev [] k = Panic ''balloc: out of blocks''"
| "balloc_loop dev (b # bs) k =
     obind (bread dev (BBLOCK (of_nat b) (sb k)) k) (\<lambda>(bp, k).
       case find (bit_free (b_data (bufs k ! bp))) [0..<min BPB (unat (sb_size (sb k)) - b)] of
         Some bi \<Rightarrow>
           obind (log_write bp (upd_buf bp (b_data_update (set_bit_used bi)) k)) (\<lambda>k.
             obind (brelse bp k) (\<lambda>k.
               obind (bzero dev (of_nat (b + bi)) k) (\<lambda>k. Ret (of_nat (b + bi), k))))
       | None \<Rightarrow> obind (brelse bp k) (balloc_loop dev bs))"

definition balloc :: "u32 \<Rightarrow> 'a inode_state_scheme \<Rightarrow> (u32 \<times> 'a inode_state_scheme) outcome" where
  "balloc dev k = balloc_loop dev (map ((*) BPB) [0..<(unat (sb_size (sb k)) + BPB - 1) div BPB]) k"

definition bfree :: "u32 \<Rightarrow> u32 \<Rightarrow> 'a inode_state_scheme \<Rightarrow> 'a inode_state_scheme outcome" where
  "bfree dev b k =
     obind (bread dev (BBLOCK b (sb k)) k) (\<lambda>(bp, k).
       let bi = unat b mod BPB in
       if bit_free (b_data (bufs k ! bp)) bi then Panic ''freeing free block''
       else obind (log_write bp (upd_buf bp (b_data_update (set_bit_free bi)) k)) (brelse bp))"

section \<open>Inodes\<close>

definition iinit :: "u32 \<Rightarrow> 'a inode_state_scheme \<Rightarrow> 'a inode_state_scheme outcome" where
  "iinit dev k =
     (let k = initlockk IcacheLock ''icache'' k;
          k = fold (\<lambda>i. initsleeplock (InodeSleep i) ''inode'') [0..<NINODE] k
      in obind (readsb dev k) (\<lambda>(s, k).
        Ret (kprintf (''sb: size %d nblocks %d ninodes %d nlog %d logstart %d inodestart %d bmap start %d'' @ [CHR 0x0A])
          [Word (sb_size s), Word (sb_nblocks s), Word (sb_ninodes s), Word (sb_nlog s), Word (sb_logstart s), Word (sb_inodestart s),
           Word (sb_bmapstart s)] (k\<lparr>sb := s\<rparr>))))"

definition iget :: "u32 \<Rightarrow> u32 \<Rightarrow> 'a inode_state_scheme \<Rightarrow> (nat \<times> 'a inode_state_scheme) outcome" where
  "iget dev inum k =
     obind (acquirek IcacheLock k) (\<lambda>k.
       case find (\<lambda>i. i_ref (inodes k ! i) > 0 \<and> i_dev (inodes k ! i) = dev \<and> i_inum (inodes k ! i) = inum) [0..<NINODE] of
         Some ip \<Rightarrow>
           let k = upd_inode ip (i_ref_update (\<lambda>n. n + 1)) k in
           obind (releasek IcacheLock k) (\<lambda>k. Ret (ip, k))
       | None \<Rightarrow>
           (case find (\<lambda>i. i_ref (inodes k ! i) = 0) [0..<NINODE] of
              None \<Rightarrow> Panic ''iget: no inodes''
            | Some ip \<Rightarrow>
                let k = upd_inode ip (\<lambda>x. x\<lparr>i_dev := dev, i_inum := inum, i_ref := 1, i_valid := 0\<rparr>) k in
                obind (releasek IcacheLock k) (\<lambda>k. Ret (ip, k))))"

primrec ialloc_loop :: "u32 \<Rightarrow> u16 \<Rightarrow> nat list \<Rightarrow> 'a inode_state_scheme \<Rightarrow> (nat \<times> 'a inode_state_scheme) outcome" where
  "ialloc_loop dev ty [] k = Panic ''ialloc: no inodes''"
| "ialloc_loop dev ty (n # ns) k =
     obind (bread dev (IBLOCK (of_nat n) (sb k)) k) (\<lambda>(bp, k).
       let slot = n mod IPB in
       if d_type (get_dinode (b_data (bufs k ! bp)) slot) = 0 then
         obind (log_write bp (upd_buf bp (b_data_update (\<lambda>d. put16 (splice d (64 * slot) (replicate 64 0)) (64 * slot) ty)) k)) (\<lambda>k.
           obind (brelse bp k) (iget dev (of_nat n)))
       else obind (brelse bp k) (ialloc_loop dev ty ns))"

definition ialloc :: "u32 \<Rightarrow> u16 \<Rightarrow> 'a inode_state_scheme \<Rightarrow> (nat \<times> 'a inode_state_scheme) outcome" where
  "ialloc dev ty k = ialloc_loop dev ty [1..<unat (sb_ninodes (sb k))] k"

definition inode_dinode :: "inode \<Rightarrow> dinode" where
  "inode_dinode x = \<lparr>d_type = i_type x, d_major = i_major x, d_minor = i_minor x, d_nlink = i_nlink x, d_size = i_size x, d_addrs = i_addrs x\<rparr>"

definition iupdate :: "nat \<Rightarrow> 'a inode_state_scheme \<Rightarrow> 'a inode_state_scheme outcome" where
  "iupdate ip k =
     (let x = inodes k ! ip in
      obind (bread (i_dev x) (IBLOCK (i_inum x) (sb k)) k) (\<lambda>(bp, k).
        let x = inodes k ! ip in
        obind (log_write bp (upd_buf bp (b_data_update (\<lambda>d. put_dinode d (unat (i_inum x) mod IPB) (inode_dinode x))) k)) (brelse bp)))"

definition idup :: "nat \<Rightarrow> 'a inode_state_scheme \<Rightarrow> (nat \<times> 'a inode_state_scheme) outcome" where
  "idup ip k =
     obind (acquirek IcacheLock k) (\<lambda>k.
       obind (releasek IcacheLock (upd_inode ip (i_ref_update (\<lambda>n. n + 1)) k)) (\<lambda>k. Ret (ip, k)))"

definition ilock :: "nat option \<Rightarrow> 'a inode_state_scheme \<Rightarrow> 'a inode_state_scheme outcome" where
  "ilock ipo k = (case ipo of None \<Rightarrow> Panic ''ilock'' | Some ip \<Rightarrow>
     if i_ref (inodes k ! ip) < 1 then Panic ''ilock''
     else obind (alone (acquiresleep (InodeSleep ip) k)) (\<lambda>(_, k).
       if i_valid (inodes k ! ip) = 0 then
         let x = inodes k ! ip in
         obind (bread (i_dev x) (IBLOCK (i_inum x) (sb k)) k) (\<lambda>(bp, k).
           let di = get_dinode (b_data (bufs k ! bp)) (unat (i_inum (inodes k ! ip)) mod IPB);
               k = upd_inode ip (\<lambda>x. x\<lparr>i_type := d_type di, i_major := d_major di, i_minor := d_minor di, i_nlink := d_nlink di,
                     i_size := d_size di, i_addrs := d_addrs di\<rparr>) k
           in obind (brelse bp k) (\<lambda>k.
             let k = upd_inode ip (i_valid_update (\<lambda>_. 1)) k in
             if i_type (inodes k ! ip) = 0 then Panic ''ilock: no type'' else Ret k))
       else Ret k))"

definition iunlock :: "nat option \<Rightarrow> 'a inode_state_scheme \<Rightarrow> 'a inode_state_scheme outcome" where
  "iunlock ipo k = (case ipo of None \<Rightarrow> Panic ''iunlock'' | Some ip \<Rightarrow>
     obind (holdingsleep (InodeSleep ip) k) (\<lambda>(h, k).
       if \<not> h \<or> i_ref (inodes k ! ip) < 1 then Panic ''iunlock''
       else releasesleep (InodeSleep ip) k))"

section \<open>The block map\<close>

definition bmap :: "nat \<Rightarrow> u32 \<Rightarrow> 'a inode_state_scheme \<Rightarrow> (u32 \<times> 'a inode_state_scheme) outcome" where
  "bmap ip bn k =
     (if unat bn < NDIRECT then
        let addr = i_addrs (inodes k ! ip) ! unat bn in
        if addr = 0 then
          obind (balloc (i_dev (inodes k ! ip)) k) (\<lambda>(addr, k).
            Ret (addr, upd_inode ip (i_addrs_update (\<lambda>as. as[unat bn := addr])) k))
        else Ret (addr, k)
      else
        let bn = bn - of_nat NDIRECT in
        if unat bn < NINDIRECT then
          obind
            (let addr = i_addrs (inodes k ! ip) ! NDIRECT in
             if addr = 0 then
               obind (balloc (i_dev (inodes k ! ip)) k) (\<lambda>(addr, k).
                 Ret (addr, upd_inode ip (i_addrs_update (\<lambda>as. as[NDIRECT := addr])) k))
             else Ret (addr, k)) (\<lambda>(addr, k).
            obind (bread (i_dev (inodes k ! ip)) addr k) (\<lambda>(bp, k).
              let addr = get32 (b_data (bufs k ! bp)) (4 * unat bn) in
              obind
                (if addr = 0 then
                   obind (balloc (i_dev (inodes k ! ip)) k) (\<lambda>(addr, k).
                     obind (log_write bp (upd_buf bp (b_data_update (\<lambda>d. put32 d (4 * unat bn) addr)) k)) (\<lambda>k. Ret (addr, k)))
                 else Ret (addr, k)) (\<lambda>(addr, k).
                obind (brelse bp k) (\<lambda>k. Ret (addr, k)))))
        else Panic ''bmap: out of range'')"

definition itrunc_direct :: "nat \<Rightarrow> nat \<Rightarrow> 'a inode_state_scheme \<Rightarrow> 'a inode_state_scheme outcome" where
  "itrunc_direct ip i k =
     (let x = inodes k ! ip in
      if i_addrs x ! i \<noteq> 0 then
        obind (bfree (i_dev x) (i_addrs x ! i) k) (\<lambda>k. Ret (upd_inode ip (i_addrs_update (\<lambda>as. as[i := 0])) k))
      else Ret k)"

definition itrunc_indirect :: "nat \<Rightarrow> nat \<Rightarrow> nat \<Rightarrow> 'a inode_state_scheme \<Rightarrow> 'a inode_state_scheme outcome" where
  "itrunc_indirect ip bp j k =
     (let a = get32 (b_data (bufs k ! bp)) (4 * j) in
      if a \<noteq> 0 then bfree (i_dev (inodes k ! ip)) a k else Ret k)"

definition itrunc :: "nat \<Rightarrow> 'a inode_state_scheme \<Rightarrow> 'a inode_state_scheme outcome" where
  "itrunc ip k =
     obind (ofold (itrunc_direct ip) [0..<NDIRECT] k) (\<lambda>k.
       obind
         (let x = inodes k ! ip in
          if i_addrs x ! NDIRECT \<noteq> 0 then
            obind (bread (i_dev x) (i_addrs x ! NDIRECT) k) (\<lambda>(bp, k).
              obind (ofold (itrunc_indirect ip bp) [0..<NINDIRECT] k) (\<lambda>k.
                obind (brelse bp k) (\<lambda>k.
                  obind (bfree (i_dev (inodes k ! ip)) (i_addrs (inodes k ! ip) ! NDIRECT) k) (\<lambda>k.
                    Ret (upd_inode ip (i_addrs_update (\<lambda>as. as[NDIRECT := 0])) k)))))
          else Ret k)
         (\<lambda>k. iupdate ip (upd_inode ip (i_size_update (\<lambda>_. 0)) k)))"

definition iput :: "nat \<Rightarrow> 'a inode_state_scheme \<Rightarrow> 'a inode_state_scheme outcome" where
  "iput ip k =
     obind (alone (acquiresleep (InodeSleep ip) k)) (\<lambda>(_, k).
       obind
         (if i_valid (inodes k ! ip) \<noteq> 0 \<and> i_nlink (inodes k ! ip) = 0 then
            obind (acquirek IcacheLock k) (\<lambda>k.
              let r = i_ref (inodes k ! ip) in
              obind (releasek IcacheLock k) (\<lambda>k.
                if r = 1 then
                  obind (itrunc ip k) (\<lambda>k.
                    obind (iupdate ip (upd_inode ip (i_type_update (\<lambda>_. 0)) k)) (\<lambda>k.
                      Ret (upd_inode ip (i_valid_update (\<lambda>_. 0)) k)))
                else Ret k))
          else Ret k) (\<lambda>k.
         obind (releasesleep (InodeSleep ip) k) (\<lambda>k.
           obind (acquirek IcacheLock k) (\<lambda>k.
             releasek IcacheLock (upd_inode ip (i_ref_update (\<lambda>n. n - 1)) k)))))"

definition iunlockput :: "nat \<Rightarrow> 'a inode_state_scheme \<Rightarrow> 'a inode_state_scheme outcome" where
  "iunlockput ip k = obind (iunlock (Some ip) k) (iput ip)"

record stat =
  st_type :: u16
  st_dev :: u32
  st_ino :: u32
  st_nlink :: u16
  st_size :: u32

definition stati :: "nat \<Rightarrow> 'a inode_state_scheme \<Rightarrow> stat" where
  "stati ip k = (let x = inodes k ! ip in
     \<lparr>st_type = i_type x, st_dev = i_dev x, st_ino = i_inum x, st_nlink = i_nlink x, st_size = i_size x\<rparr>)"

end
