(* ===== verification/Console.thy ===== *)
theory Console
  imports Inode
begin

text \<open>
  The console (console.c): the screen with its cursor, output to screen and serial line, the line editor that
  runs at keyboard interrupts, and the device routines for reading and writing. The serial line takes what it is given.
\<close>

section \<open>State\<close>

abbreviation (input) INPUT_BUF :: nat where "INPUT_BUF \<equiv> 128"
abbreviation (input) BACKSPACE :: int where "BACKSPACE \<equiv> 0x100"

datatype devfn = ConsoleDev

record devsw_t =
  dv_read :: "devfn option"
  dv_write :: "devfn option"

record input_t =
  in_buf :: "u8 list"
  in_r :: u32
  in_w :: u32
  in_e :: u32

record cons_state = inode_state +
  cons_locking :: int
  panicked :: bool
  crt :: "nat \<Rightarrow> u16"
  cursor :: u16
  uart_out :: "u8 list"
  input :: input_t
  devsw :: "devsw_t list"

definition upd_input :: "(input_t \<Rightarrow> input_t) \<Rightarrow> 'a cons_state_scheme \<Rightarrow> 'a cons_state_scheme" where
  "upd_input f k = k\<lparr>input := f (input k)\<rparr>"

section \<open>Output\<close>

definition uartputc :: "int \<Rightarrow> 'a cons_state_scheme \<Rightarrow> 'a cons_state_scheme" where
  "uartputc c k = k\<lparr>uart_out := uart_out k @ [of_int c]\<rparr>"

text \<open>The cursor's position is kept in two 8-bit registers of the screen.\<close>

definition cgaputc :: "int \<Rightarrow> 'a cons_state_scheme \<Rightarrow> 'a cons_state_scheme outcome" where
  "cgaputc c k =
     (let pos = int (unat (cursor k));
          (pos, k) =
            (if c = 0x0A then (pos + (80 - pos mod 80), k)
             else if c = BACKSPACE then (if pos > 0 then pos - 1 else pos, k)
             else (pos + 1, k\<lparr>crt := (crt k)(nat pos := (of_int c AND 0xFF) OR 0x0700)\<rparr>))
      in if pos < 0 \<or> pos > 25 * 80 then Panic ''pos under/overflow''
         else
           let (pos, k) =
             (if pos div 80 \<ge> 24 then
                let m = (\<lambda>i. if i < 23 * 80 then crt k (i + 80) else crt k i);
                    pos = pos - 80
                in (pos, k\<lparr>crt := (\<lambda>i. if nat pos \<le> i \<and> i < 24 * 80 then 0 else m i)\<rparr>)
              else (pos, k))
           in Ret (k\<lparr>cursor := of_int pos, crt := (crt k)(nat pos := 0x20 OR 0x0700)\<rparr>))"

definition consputc :: "int \<Rightarrow> 'a cons_state_scheme \<Rightarrow> 'a cons_state_scheme outcome" where
  "consputc c k =
     (if panicked k then Diverge
      else
        let k = (if c = BACKSPACE then uartputc 8 (uartputc 0x20 (uartputc 8 k)) else uartputc c k)
        in cgaputc c k)"

text \<open>\<open>cprintf\<close> with its lock.\<close>

definition cprintf_cons :: "string \<Rightarrow> farg list \<Rightarrow> 'a cons_state_scheme \<Rightarrow> 'a cons_state_scheme outcome" where
  "cprintf_cons fmt args k =
     (let locking = cons_locking k in
      obind (if locking \<noteq> 0 then acquirek ConsLock k else Ret k) (\<lambda>k.
        case cprintf_text fmt args of None \<Rightarrow> Panic ''cprintf arguments''
        | Some t \<Rightarrow>
            obind (ofold (\<lambda>c. consputc (of_char c)) t k) (\<lambda>k.
              if locking \<noteq> 0 then releasek ConsLock k else Ret k)))"

text \<open>The return addresses on the stack whose frame pointer is below \<open>v\<close>.\<close>

primrec pcs_loop :: "nat \<Rightarrow> u32 \<Rightarrow> memory \<Rightarrow> u32 list" where
  "pcs_loop 0 ebp m = []"
| "pcs_loop (Suc n) ebp m =
     (if ebp = 0 \<or> ebp < KERNBASE \<or> ebp = 0xFFFFFFFF then replicate (Suc n) 0
      else load32 m (ebp + 4) # pcs_loop n (load32 m ebp) m)"

definition getcallerpcs :: "u32 \<Rightarrow> memory \<Rightarrow> u32 list" where
  "getcallerpcs v m = pcs_loop 10 (v - 8) m"

text \<open>\<open>panic\<close> up to the endless loop at its end; \<open>v\<close> is the address of its argument on the stack.\<close>

definition panic :: "u32 \<Rightarrow> string \<Rightarrow> 'a cons_state_scheme \<Rightarrow> 'a cons_state_scheme outcome" where
  "panic v s k =
     (let k = upd_cpu cli k;
          k = k\<lparr>cons_locking := 0\<rparr>
      in obind (cprintf_cons ''lapicid %d: panic: '' [Word (ucast (lapicid k))] k) (\<lambda>k.
        obind (cprintf_cons s [] k) (\<lambda>k.
          obind (cprintf_cons [CHR 0x0A] [] k) (\<lambda>k.
            obind (ofold (\<lambda>pc. cprintf_cons '' %p'' [Word pc]) (getcallerpcs v (mem (mach k))) k) (\<lambda>k.
              Ret (k\<lparr>panicked := True\<rparr>))))))"

definition state_name :: "procstate \<Rightarrow> string" where
  "state_name s = (case s of UNUSED \<Rightarrow> ''unused'' | EMBRYO \<Rightarrow> ''embryo'' | SLEEPING \<Rightarrow> ''sleep '' | RUNNABLE \<Rightarrow> ''runble''
     | RUNNING \<Rightarrow> ''run   '' | ZOMBIE \<Rightarrow> ''zombie'')"

definition procdump_one :: "proc \<Rightarrow> 'a cons_state_scheme \<Rightarrow> 'a cons_state_scheme outcome" where
  "procdump_one p k =
     (if p_state p = UNUSED then Ret k
      else obind (cprintf_cons ''%d %s %s'' [Word (p_pid p), Str (state_name (p_state p)), Str (p_name p)] k) (\<lambda>k.
        obind
          (if p_state p = SLEEPING then
             let ebp = load32 (mem (mach k)) (p_context p + 12) in
             ofold (\<lambda>pc. cprintf_cons '' %p'' [Word pc]) (takeWhile (\<lambda>pc. pc \<noteq> 0) (getcallerpcs (ebp + 8) (mem (mach k)))) k
           else Ret k)
          (cprintf_cons [CHR 0x0A] [])))"

definition procdump :: "'a cons_state_scheme \<Rightarrow> 'a cons_state_scheme outcome" where
  "procdump k = ofold procdump_one (procs k) k"

section \<open>Input\<close>

text \<open>\<open>kill_line n\<close> takes back at most \<open>n\<close> characters.\<close>

primrec kill_line :: "nat \<Rightarrow> 'a cons_state_scheme \<Rightarrow> 'a cons_state_scheme outcome" where
  "kill_line 0 k = Ret k"
| "kill_line (Suc n) k =
     (let i = input k in
      if in_e i \<noteq> in_w i \<and> in_buf i ! (unat (in_e i - 1) mod INPUT_BUF) \<noteq> 0x0A then
        obind (consputc BACKSPACE (upd_input (in_e_update (\<lambda>e. e - 1)) k)) (kill_line n)
      else Ret k)"

text \<open>One character of an interrupt; the flag asks for a process listing at the end.\<close>

definition console_char :: "int \<Rightarrow> bool \<times> 'a cons_state_scheme \<Rightarrow> (bool \<times> 'a cons_state_scheme) outcome" where
  "console_char c s = (case s of (dump, k) \<Rightarrow>
     if c = 0x10 then Ret (True, k)
     else if c = 0x15 then obind (kill_line (unat (in_e (input k) - in_w (input k))) k) (\<lambda>k. Ret (dump, k))
     else if c = 8 \<or> c = 0x7F then
       (if in_e (input k) \<noteq> in_w (input k)
        then obind (consputc BACKSPACE (upd_input (in_e_update (\<lambda>e. e - 1)) k)) (\<lambda>k. Ret (dump, k))
        else Ret (dump, k))
     else if c \<noteq> 0 \<and> in_e (input k) - in_r (input k) < of_nat INPUT_BUF then
       let c = (if c = 0x0D then 0x0A else c);
           k = upd_input (\<lambda>i. i\<lparr>in_buf := (in_buf i)[unat (in_e i) mod INPUT_BUF := of_int c], in_e := in_e i + 1\<rparr>) k
       in obind (consputc c k) (\<lambda>k.
         if c = 0x0A \<or> c = 4 \<or> in_e (input k) = in_r (input k) + of_nat INPUT_BUF
         then obind (wakeup InputChan (upd_input (\<lambda>i. i\<lparr>in_w := in_e i\<rparr>) k)) (\<lambda>k. Ret (dump, k))
         else Ret (dump, k))
     else Ret (dump, k))"

text \<open>\<open>cs\<close> are the characters that \<^verbatim>\<open>getc\<close> gives before it has none.\<close>

definition consoleintr :: "int list \<Rightarrow> 'a cons_state_scheme \<Rightarrow> 'a cons_state_scheme outcome" where
  "consoleintr cs k =
     obind (acquirek ConsLock k) (\<lambda>k.
       obind (ofold console_char cs (False, k)) (\<lambda>(dump, k).
         obind (releasek ConsLock k) (\<lambda>k. if dump then procdump k else Ret k)))"

text \<open>
  \<open>consoleread\<close> with the lock held, \<open>n\<close> bytes still wanted and \<open>bs\<close> bytes already stored. It returns its result or where it sleeps,
  the stored bytes and the bytes still wanted.
\<close>

definition consoleread_end :: "nat \<Rightarrow> nat \<Rightarrow> u8 list \<Rightarrow> nat \<Rightarrow> 'a cons_state_scheme \<Rightarrow>
    (int blocking \<times> u8 list \<times> nat \<times> 'a cons_state_scheme) outcome" where
  "consoleread_end ip target bs n k =
     obind (releasek ConsLock k) (\<lambda>k. obind (ilock (Some ip) k) (\<lambda>k. Ret (Done (int target - int n), bs, n, k)))"

primrec consoleread_loop :: "nat \<Rightarrow> nat \<Rightarrow> nat \<Rightarrow> u8 list \<Rightarrow> 'a cons_state_scheme \<Rightarrow>
    (int blocking \<times> u8 list \<times> nat \<times> 'a cons_state_scheme) outcome" where
  "consoleread_loop ip target 0 bs k = consoleread_end ip target bs 0 k"
| "consoleread_loop ip target (Suc n) bs k =
     (if in_r (input k) = in_w (input k) then
        with_proc (\<lambda>cur k.
          if p_killed (procs k ! cur) \<noteq> 0 then
            obind (releasek ConsLock k) (\<lambda>k. obind (ilock (Some ip) k) (\<lambda>k. Ret (Done (- 1), bs, Suc n, k)))
          else obind (sleep InputChan (Some ConsLock) k) (\<lambda>(e, k). Ret (Blocked InputChan e, bs, Suc n, k))) k
      else
        let c = in_buf (input k) ! (unat (in_r (input k)) mod INPUT_BUF);
            k = upd_input (in_r_update (\<lambda>r. r + 1)) k
        in if c = 4 then
             consoleread_end ip target bs (Suc n) (if Suc n < target then upd_input (in_r_update (\<lambda>r. r - 1)) k else k)
           else if c = 0x0A then consoleread_end ip target (bs @ [c]) n k
           else consoleread_loop ip target n (bs @ [c]) k)"

definition consoleread :: "nat \<Rightarrow> int \<Rightarrow> 'a cons_state_scheme \<Rightarrow> (int blocking \<times> u8 list \<times> nat \<times> 'a cons_state_scheme) outcome" where
  "consoleread ip n k =
     obind (iunlock (Some ip) k) (\<lambda>k. obind (acquirek ConsLock k) (consoleread_loop ip (nat n) (nat n) []))"

definition consoleread_return :: "nat \<Rightarrow> nat \<Rightarrow> nat \<Rightarrow> u8 list \<Rightarrow> nat \<Rightarrow> u32 \<Rightarrow> 'a cons_state_scheme \<Rightarrow>
    (int blocking \<times> u8 list \<times> nat \<times> 'a cons_state_scheme) outcome" where
  "consoleread_return ip target n bs cur e k = obind (sleep_return cur ConsLock e k) (consoleread_loop ip target n bs)"

definition consolewrite :: "nat \<Rightarrow> (nat \<Rightarrow> u8) \<Rightarrow> int \<Rightarrow> 'a cons_state_scheme \<Rightarrow> (int \<times> 'a cons_state_scheme) outcome" where
  "consolewrite ip buf n k =
     obind (iunlock (Some ip) k) (\<lambda>k.
       obind (acquirek ConsLock k) (\<lambda>k.
         obind (ofold (\<lambda>i. consputc (int (unat (buf i)))) [0..<nat n] k) (\<lambda>k.
           obind (releasek ConsLock k) (\<lambda>k.
             obind (ilock (Some ip) k) (\<lambda>k. Ret (n, k))))))"

definition consoleinit :: "'a cons_state_scheme \<Rightarrow> 'a cons_state_scheme" where
  "consoleinit k =
     (let k = initlockk ConsLock ''console'' k;
          k = k\<lparr>devsw := (devsw k)[1 := \<lparr>dv_read = Some ConsoleDev, dv_write = Some ConsoleDev\<rparr>]\<rparr>
      in k\<lparr>cons_locking := 1\<rparr>)"

end
