(* ===== verification/Fs.thy ===== *)
theory Fs
  imports Console
begin

text \<open>
  Files, directories and path names (the second half of fs.c). Names and paths are byte strings without their
  terminating 0; a byte past the end of such a list reads as 0. A read returns the bytes it puts into its buffer.
\<close>

section \<open>Reading and writing\<close>

text \<open>The loop of \<open>readi\<close> with \<open>n\<close> bytes still to read at \<open>off\<close>.\<close>

function readi_loop :: "nat \<Rightarrow> nat \<Rightarrow> nat \<Rightarrow> 'a cons_state_scheme \<Rightarrow> (u8 list \<times> 'a cons_state_scheme) outcome" where
  "readi_loop ip off n k =
     (if n = 0 then Ret ([], k)
      else
        obind (bmap ip (of_nat (off div BSIZE)) k) (\<lambda>(addr, k).
          obind (bread (i_dev (inodes k ! ip)) addr k) (\<lambda>(bp, k).
            let m = min n (BSIZE - off mod BSIZE);
                bs = slice (b_data (bufs k ! bp)) (off mod BSIZE) m
            in obind (brelse bp k) (\<lambda>k.
              obind (readi_loop ip (off + m) (n - m) k) (\<lambda>(rest, k). Ret (bs @ rest, k))))))"
  by auto

termination readi_loop
  by (relation "measure (\<lambda>(ip, off, n, k). n)") auto

declare readi_loop.simps [simp del]

text \<open>
  A read of a device can sleep; then the result is where it sleeps, with the bytes read so far and the number still wanted.
\<close>

definition readi :: "nat \<Rightarrow> u32 \<Rightarrow> u32 \<Rightarrow> 'a cons_state_scheme \<Rightarrow> (int blocking \<times> u8 list \<times> nat \<times> 'a cons_state_scheme) outcome" where
  "readi ip off n k =
     (let x = inodes k ! ip in
      if i_type x = T_DEV then
        if sint (i_major x) < 0 \<or> sint (i_major x) \<ge> int NDEV \<or> dv_read (devsw k ! unat (i_major x)) = None
        then Ret (Done (- 1), [], unat n, k)
        else consoleread ip (sint n) k
      else if off > i_size x \<or> off + n < off then Ret (Done (- 1), [], unat n, k)
      else
        let n = (if off + n > i_size x then i_size x - off else n)
        in obind (readi_loop ip (unat off) (unat n) k) (\<lambda>(bs, k). Ret (Done (sint n), bs, 0, k)))"

definition readi_now :: "nat \<Rightarrow> u32 \<Rightarrow> u32 \<Rightarrow> 'a cons_state_scheme \<Rightarrow> (int \<times> u8 list \<times> 'a cons_state_scheme) outcome" where
  "readi_now ip off n k = obind (readi ip off n k) (\<lambda>(r, bs, _, k). case r of Done v \<Rightarrow> Ret (v, bs, k) | Blocked ch e \<Rightarrow> Diverge)"

text \<open>\<open>src i\<close> is the \<open>i\<close>th byte of the caller's buffer.\<close>

function writei_loop :: "nat \<Rightarrow> (nat \<Rightarrow> u8) \<Rightarrow> nat \<Rightarrow> nat \<Rightarrow> nat \<Rightarrow> 'a cons_state_scheme \<Rightarrow> 'a cons_state_scheme outcome" where
  "writei_loop ip src tot off n k =
     (if n = 0 then Ret k
      else
        obind (bmap ip (of_nat (off div BSIZE)) k) (\<lambda>(addr, k).
          obind (bread (i_dev (inodes k ! ip)) addr k) (\<lambda>(bp, k).
            let m = min n (BSIZE - off mod BSIZE);
                k = upd_buf bp (b_data_update (\<lambda>d. splice d (off mod BSIZE) (map src [tot..<tot + m]))) k
            in obind (log_write bp k) (\<lambda>k.
              obind (brelse bp k) (writei_loop ip src (tot + m) (off + m) (n - m))))))"
  by auto

termination writei_loop
  by (relation "measure (\<lambda>(ip, src, tot, off, n, k). n)") auto

declare writei_loop.simps [simp del]

definition writei :: "nat \<Rightarrow> (nat \<Rightarrow> u8) \<Rightarrow> u32 \<Rightarrow> u32 \<Rightarrow> 'a cons_state_scheme \<Rightarrow> (int \<times> 'a cons_state_scheme) outcome" where
  "writei ip src off n k =
     (let x = inodes k ! ip in
      if i_type x = T_DEV then
        if sint (i_major x) < 0 \<or> sint (i_major x) \<ge> int NDEV \<or> dv_write (devsw k ! unat (i_major x)) = None
        then Ret (- 1, k)
        else consolewrite ip src (sint n) k
      else if off > i_size x \<or> off + n < off then Ret (- 1, k)
      else if unat (off + n) > MAXFILE * BSIZE then Ret (- 1, k)
      else
        obind (writei_loop ip src 0 (unat off) (unat n) k) (\<lambda>k.
          let off = off + n in
          obind
            (if n > 0 \<and> off > i_size (inodes k ! ip)
             then iupdate ip (upd_inode ip (i_size_update (\<lambda>_. off)) k)
             else Ret k) (\<lambda>k. Ret (sint n, k))))"

section \<open>Directories\<close>

abbreviation (input) DIRSIZ :: nat where "DIRSIZ \<equiv> 14"

type_synonym bytes = "u8 list"

record dirent =
  de_inum :: u16
  de_name :: bytes

definition get_dirent :: "bytes \<Rightarrow> dirent" where
  "get_dirent bs = \<lparr>de_inum = get16 bs 0, de_name = slice bs 2 DIRSIZ\<rparr>"

definition dirent_bytes :: "dirent \<Rightarrow> bytes" where
  "dirent_bytes de = bytes16 (de_inum de) @ de_name de"

definition byte_of :: "bytes \<Rightarrow> u8" where
  "byte_of s = (case s of [] \<Rightarrow> 0 | c # _ \<Rightarrow> c)"

primrec strncmp_bytes :: "bytes \<Rightarrow> bytes \<Rightarrow> nat \<Rightarrow> int" where
  "strncmp_bytes p q 0 = 0"
| "strncmp_bytes p q (Suc n) =
     (if byte_of p \<noteq> 0 \<and> byte_of p = byte_of q then strncmp_bytes (tl p) (tl q) n
      else int (unat (byte_of p)) - int (unat (byte_of q)))"

primrec strncpy_bytes :: "bytes \<Rightarrow> nat \<Rightarrow> bytes" where
  "strncpy_bytes t 0 = []"
| "strncpy_bytes t (Suc n) = (if byte_of t \<noteq> 0 then byte_of t # strncpy_bytes (tl t) n else replicate (Suc n) 0)"

definition namecmp :: "bytes \<Rightarrow> bytes \<Rightarrow> int" where
  "namecmp s t = strncmp_bytes s t DIRSIZ"

text \<open>The offsets \<open>0, 16, ...\<close> of the entries of a directory.\<close>

definition dir_offsets :: "u32 \<Rightarrow> nat list" where
  "dir_offsets sz = map ((*) 16) [0..<(unat sz + 15) div 16]"

primrec dirlookup_loop :: "nat \<Rightarrow> bytes \<Rightarrow> nat list \<Rightarrow> 'a cons_state_scheme \<Rightarrow> ((nat \<times> u32) option \<times> 'a cons_state_scheme) outcome" where
  "dirlookup_loop dp name [] k = Ret (None, k)"
| "dirlookup_loop dp name (off # offs) k =
     obind (readi_now dp (of_nat off) 16 k) (\<lambda>(r, bs, k).
       if r \<noteq> 16 then Panic ''dirlookup read''
       else
         let de = get_dirent bs in
         if de_inum de = 0 then dirlookup_loop dp name offs k
         else if namecmp name (de_name de) = 0 then
           obind (iget (i_dev (inodes k ! dp)) (ucast (de_inum de)) k) (\<lambda>(ip, k). Ret (Some (ip, of_nat off), k))
         else dirlookup_loop dp name offs k)"

definition dirlookup :: "nat \<Rightarrow> bytes \<Rightarrow> 'a cons_state_scheme \<Rightarrow> ((nat \<times> u32) option \<times> 'a cons_state_scheme) outcome" where
  "dirlookup dp name k =
     (if i_type (inodes k ! dp) \<noteq> T_DIR then Panic ''dirlookup not DIR''
      else dirlookup_loop dp name (dir_offsets (i_size (inodes k ! dp))) k)"

text \<open>The offset of the first free entry, or of the end.\<close>

primrec dirlink_slot :: "nat \<Rightarrow> nat list \<Rightarrow> nat \<Rightarrow> 'a cons_state_scheme \<Rightarrow> (nat \<times> 'a cons_state_scheme) outcome" where
  "dirlink_slot dp [] lastoff k = Ret (lastoff, k)"
| "dirlink_slot dp (off # offs) lastoff k =
     obind (readi_now dp (of_nat off) 16 k) (\<lambda>(r, bs, k).
       if r \<noteq> 16 then Panic ''dirlink read''
       else if de_inum (get_dirent bs) = 0 then Ret (off, k)
       else dirlink_slot dp offs lastoff k)"

definition dirlink :: "nat \<Rightarrow> bytes \<Rightarrow> u32 \<Rightarrow> 'a cons_state_scheme \<Rightarrow> (int \<times> 'a cons_state_scheme) outcome" where
  "dirlink dp name inum k =
     obind (dirlookup dp name k) (\<lambda>(r, k).
       case r of Some (ip, _) \<Rightarrow> obind (iput ip k) (\<lambda>k. Ret (- 1, k))
       | None \<Rightarrow>
           let offs = dir_offsets (i_size (inodes k ! dp)) in
           obind (dirlink_slot dp offs (16 * length offs) k) (\<lambda>(off, k).
             let de = dirent_bytes \<lparr>de_inum = ucast inum, de_name = strncpy_bytes name DIRSIZ\<rparr> in
             obind (writei dp ((!) de) (of_nat off) 16 k) (\<lambda>(r, k).
               if r \<noteq> 16 then Panic ''dirlink'' else Ret (0, k))))"

section \<open>Path names\<close>

abbreviation (input) slash :: u8 where "slash \<equiv> 0x2F"

text \<open>
  \<open>skipelem\<close> gives the rest of the path and the name buffer, where it has put the element: cut to \<open>DIRSIZ\<close> bytes, or shorter and with a 0 at the end.
\<close>

definition skipelem :: "bytes \<Rightarrow> bytes \<Rightarrow> (bytes \<times> bytes) option" where
  "skipelem path name =
     (let path = dropWhile ((=) slash) path in
      if path = [] then None
      else
        let s = takeWhile (\<lambda>c. c \<noteq> slash) path;
            path = dropWhile (\<lambda>c. c \<noteq> slash) path;
            name = (if length s \<ge> DIRSIZ then splice name 0 (take DIRSIZ s) else splice name 0 (s @ [0]))
        in Some (dropWhile ((=) slash) path, name))"

lemma skipelem_shorter: "skipelem path name = Some (rest, name') \<Longrightarrow> length rest < length path"
proof -
  assume s: "skipelem path name = Some (rest, name')"
  let ?p = "dropWhile ((=) slash) path"
  have ne: "?p \<noteq> []" and rest: "rest = dropWhile ((=) slash) (dropWhile (\<lambda>c. c \<noteq> slash) ?p)"
    using s by (auto simp: skipelem_def Let_def split: if_splits)
  obtain c p where p: "?p = c # p" using ne by (cases ?p) auto
  have "c \<noteq> slash" using p hd_dropWhile [of "(=) slash" path] by (metis list.sel(1) ne)
  then have "rest = dropWhile ((=) slash) (dropWhile (\<lambda>c. c \<noteq> slash) p)" using rest p by simp
  then have "length rest \<le> length p" by (metis length_dropWhile_le order_trans)
  also have "length p < length ?p" by (simp add: p)
  also have "length ?p \<le> length path" by (rule length_dropWhile_le)
  finally show ?thesis .
qed

text \<open>The loop of \<open>namex\<close> at the inode \<open>ip\<close>, and what follows it.\<close>

function namex_loop :: "bool \<Rightarrow> nat \<Rightarrow> bytes \<Rightarrow> bytes \<Rightarrow> 'a cons_state_scheme \<Rightarrow> (nat option \<times> bytes \<times> 'a cons_state_scheme) outcome" where
  "namex_loop parent ip path name k =
     (case skipelem path name of
        None \<Rightarrow> if parent then obind (iput ip k) (\<lambda>k. Ret (None, name, k)) else Ret (Some ip, name, k)
      | Some (path', name') \<Rightarrow>
          obind (ilock (Some ip) k) (\<lambda>k.
            if i_type (inodes k ! ip) \<noteq> T_DIR then obind (iunlockput ip k) (\<lambda>k. Ret (None, name', k))
            else if parent \<and> path' = [] then obind (iunlock (Some ip) k) (\<lambda>k. Ret (Some ip, name', k))
            else
              obind (dirlookup ip name' k) (\<lambda>(r, k).
                case r of None \<Rightarrow> obind (iunlockput ip k) (\<lambda>k. Ret (None, name', k))
                | Some (next, _) \<Rightarrow> obind (iunlockput ip k) (namex_loop parent next path' name'))))"
  by auto

termination namex_loop
  by (relation "measure (\<lambda>(parent, ip, path, name, k). length path)") (auto dest: skipelem_shorter)

declare namex_loop.simps [simp del]

definition namex :: "bytes \<Rightarrow> bool \<Rightarrow> bytes \<Rightarrow> 'a cons_state_scheme \<Rightarrow> (nat option \<times> bytes \<times> 'a cons_state_scheme) outcome" where
  "namex path parent name k =
     obind
       (if byte_of path = slash then iget ROOTDEV ROOTINO k
        else with_proc (\<lambda>cur k. case p_cwd (procs k ! cur) of None \<Rightarrow> Diverge | Some cwd \<Rightarrow> idup cwd k) k)
       (\<lambda>(ip, k). namex_loop parent ip path name k)"

definition namei :: "bytes \<Rightarrow> 'a cons_state_scheme \<Rightarrow> (nat option \<times> 'a cons_state_scheme) outcome" where
  "namei path k = obind (namex path False (replicate DIRSIZ 0) k) (\<lambda>(ip, _, k). Ret (ip, k))"

definition nameiparent :: "bytes \<Rightarrow> bytes \<Rightarrow> 'a cons_state_scheme \<Rightarrow> (nat option \<times> bytes \<times> 'a cons_state_scheme) outcome" where
  "nameiparent path name k = namex path True name k"

end
