(* ===== verification/File.thy ===== *)
theory File
  imports Fs
begin

text \<open>
  Open files (file.c) and the creation of pipes (pipe.c). The table of open files is shared by all processes; a
  file is named by its index.
\<close>

section \<open>State\<close>

datatype filetype = FD_NONE | FD_PIPE | FD_INODE

record open_file =
  f_type :: filetype
  f_ref :: int
  f_readable :: u8
  f_writable :: u8
  f_pipe :: u32
  f_ip :: nat
  f_off :: u32

record file_state = cons_state +
  ftable :: "open_file list"

definition upd_file :: "nat \<Rightarrow> (open_file \<Rightarrow> open_file) \<Rightarrow> 'a file_state_scheme \<Rightarrow> 'a file_state_scheme" where
  "upd_file f g k = k\<lparr>ftable := (ftable k)[f := g (ftable k ! f)]\<rparr>"

section \<open>References\<close>

definition fileinit :: "'a file_state_scheme \<Rightarrow> 'a file_state_scheme" where
  "fileinit k = initlockk FtableLock ''ftable'' k"

definition filealloc :: "'a file_state_scheme \<Rightarrow> (nat option \<times> 'a file_state_scheme) outcome" where
  "filealloc k =
     obind (acquirek FtableLock k) (\<lambda>k.
       case find (\<lambda>f. f_ref (ftable k ! f) = 0) [0..<NFILE] of
         Some f \<Rightarrow> obind (releasek FtableLock (upd_file f (f_ref_update (\<lambda>_. 1)) k)) (\<lambda>k. Ret (Some f, k))
       | None \<Rightarrow> obind (releasek FtableLock k) (\<lambda>k. Ret (None, k)))"

definition filedup :: "nat \<Rightarrow> 'a file_state_scheme \<Rightarrow> (nat \<times> 'a file_state_scheme) outcome" where
  "filedup f k =
     obind (acquirek FtableLock k) (\<lambda>k.
       if f_ref (ftable k ! f) < 1 then Panic ''filedup''
       else obind (releasek FtableLock (upd_file f (f_ref_update (\<lambda>n. n + 1)) k)) (\<lambda>k. Ret (f, k)))"

definition fileclose :: "nat \<Rightarrow> 'a file_state_scheme \<Rightarrow> 'a file_state_scheme outcome" where
  "fileclose f k =
     obind (acquirek FtableLock k) (\<lambda>k.
       if f_ref (ftable k ! f) < 1 then Panic ''fileclose''
       else
         let k = upd_file f (f_ref_update (\<lambda>n. n - 1)) k in
         if f_ref (ftable k ! f) > 0 then releasek FtableLock k
         else
           let ff = ftable k ! f;
               k = upd_file f (\<lambda>x. x\<lparr>f_ref := 0, f_type := FD_NONE\<rparr>) k
           in obind (releasek FtableLock k) (\<lambda>k.
             case f_type ff of
               FD_PIPE \<Rightarrow> pipeclose (f_pipe ff) (f_writable ff \<noteq> 0) k
             | FD_INODE \<Rightarrow>
                 obind (alone (begin_op k)) (\<lambda>(_, k). obind (iput (f_ip ff) k) end_op)
             | FD_NONE \<Rightarrow> Ret k))"

definition filestat :: "nat \<Rightarrow> 'a file_state_scheme \<Rightarrow> (stat option \<times> 'a file_state_scheme) outcome" where
  "filestat f k =
     (let x = ftable k ! f in
      if f_type x = FD_INODE then
        obind (ilock (Some (f_ip x)) k) (\<lambda>k.
          let st = stati (f_ip x) k in
          obind (iunlock (Some (f_ip x)) k) (\<lambda>k. Ret (Some st, k)))
      else Ret (None, k))"

section \<open>Reading\<close>

text \<open>
  A read returns its result, or where it sleeps, the bytes it has stored and the number of bytes still wanted. The
  part of \<open>fileread\<close> after \<open>readi\<close> is \<open>fileread_end\<close>.
\<close>

definition fileread_end :: "nat \<Rightarrow> int blocking \<times> u8 list \<times> nat \<times> 'a file_state_scheme \<Rightarrow>
    (int blocking \<times> u8 list \<times> nat \<times> 'a file_state_scheme) outcome" where
  "fileread_end f = (\<lambda>(r, bs, left, k).
     case r of
       Done v \<Rightarrow>
         let k = (if v > 0 then upd_file f (f_off_update (\<lambda>off. off + of_int v)) k else k)
         in obind (iunlock (Some (f_ip (ftable k ! f))) k) (\<lambda>k. Ret (Done v, bs, left, k))
     | Blocked ch e \<Rightarrow> Ret (Blocked ch e, bs, left, k))"

definition fileread :: "nat \<Rightarrow> int \<Rightarrow> 'a file_state_scheme \<Rightarrow> (int blocking \<times> u8 list \<times> nat \<times> 'a file_state_scheme) outcome" where
  "fileread f n k =
     (let x = ftable k ! f in
      if f_readable x = 0 then Ret (Done (- 1), [], nat n, k)
      else case f_type x of
        FD_PIPE \<Rightarrow> obind (piperead (f_pipe x) n k) (\<lambda>(r, bs, k). Ret (r, bs, nat n, k))
      | FD_INODE \<Rightarrow>
          obind (ilock (Some (f_ip x)) k) (\<lambda>k.
            obind (readi (f_ip x) (f_off (ftable k ! f)) (of_int n) k) (fileread_end f))
      | FD_NONE \<Rightarrow> Panic ''fileread'')"

text \<open>\<open>fileread\<close> after a sleep, with \<open>bs\<close> already stored and \<open>left\<close> of the \<open>n\<close> bytes still wanted.\<close>

definition fileread_return :: "nat \<Rightarrow> int \<Rightarrow> u8 list \<Rightarrow> nat \<Rightarrow> nat \<Rightarrow> u32 \<Rightarrow> 'a file_state_scheme \<Rightarrow>
    (int blocking \<times> u8 list \<times> nat \<times> 'a file_state_scheme) outcome" where
  "fileread_return f n bs left cur e k =
     (let x = ftable k ! f in
      if f_type x = FD_PIPE then obind (piperead_return (f_pipe x) n cur e k) (\<lambda>(r, bs, k). Ret (r, bs, nat n, k))
      else obind (consoleread_return (f_ip x) (nat n) left bs cur e k) (fileread_end f))"

section \<open>Writing\<close>

text \<open>\<open>\<lambda>i. src (i0 + i)\<close> is the buffer from its \<open>i0\<close>th byte on. \<open>r\<close> is the result of the last \<open>writei\<close>.\<close>

definition filewrite_chunk :: "nat \<Rightarrow> (nat \<Rightarrow> u8) \<Rightarrow> int \<Rightarrow> int \<Rightarrow> 'a file_state_scheme \<Rightarrow> (int \<times> 'a file_state_scheme) outcome" where
  "filewrite_chunk f src i n1 k =
     obind (alone (begin_op k)) (\<lambda>(_, k).
       let ip = f_ip (ftable k ! f) in
       obind (ilock (Some ip) k) (\<lambda>k.
         obind (writei ip (\<lambda>j. src (nat i + j)) (f_off (ftable k ! f)) (of_int n1) k) (\<lambda>(r, k).
           let k = (if r > 0 then upd_file f (f_off_update (\<lambda>off. off + of_int r)) k else k) in
           obind (iunlock (Some ip) k) (\<lambda>k.
             obind (end_op k) (\<lambda>k. Ret (r, k))))))"

function filewrite_loop :: "nat \<Rightarrow> (nat \<Rightarrow> u8) \<Rightarrow> int \<Rightarrow> int \<Rightarrow> 'a file_state_scheme \<Rightarrow> (int \<times> 'a file_state_scheme) outcome" where
  "filewrite_loop f src n i k =
     (if i < n then
        let maxb = ((int MAXOPBLOCKS - 1 - 1 - 2) div 2) * 512;
            n1 = (if n - i > maxb then maxb else n - i)
        in obind (filewrite_chunk f src i n1 k) (\<lambda>(r, k).
          if r < 0 then Ret (if i = n then n else - 1, k)
          else if r \<noteq> n1 then Panic ''short filewrite''
          else filewrite_loop f src n (i + n1) k)
      else Ret (if i = n then n else - 1, k))"
  by auto

termination filewrite_loop
  by (relation "measure (\<lambda>(f, src, n, i, k). nat (n - i))") auto

declare filewrite_loop.simps [simp del]

text \<open>A write to a pipe returns the index reached, too.\<close>

definition filewrite :: "nat \<Rightarrow> (nat \<Rightarrow> u8) \<Rightarrow> int \<Rightarrow> 'a file_state_scheme \<Rightarrow> (int blocking \<times> nat \<times> 'a file_state_scheme) outcome" where
  "filewrite f src n k =
     (let x = ftable k ! f in
      if f_writable x = 0 then Ret (Done (- 1), 0, k)
      else case f_type x of
        FD_PIPE \<Rightarrow> pipewrite (f_pipe x) src n k
      | FD_INODE \<Rightarrow> obind (filewrite_loop f src n 0 k) (\<lambda>(r, k). Ret (Done r, 0, k))
      | FD_NONE \<Rightarrow> Panic ''filewrite'')"

section \<open>Creating pipes\<close>

text \<open>The bytes of a new pipe are what its page holds behind the 52 bytes of its lock.\<close>

definition pipealloc :: "'a file_state_scheme \<Rightarrow> ((nat \<times> nat) option \<times> 'a file_state_scheme) outcome" where
  "pipealloc k =
     obind (filealloc k) (\<lambda>(f0, k).
       case f0 of None \<Rightarrow> Ret (None, k)
       | Some f0 \<Rightarrow>
           obind (filealloc k) (\<lambda>(f1, k).
             case f1 of None \<Rightarrow> obind (fileclose f0 k) (\<lambda>k. Ret (None, k))
             | Some f1 \<Rightarrow>
                 obind (on_mach_val kalloc k) (\<lambda>(p, k).
                   if p = 0 then obind (fileclose f0 k) (\<lambda>k. obind (fileclose f1 k) (\<lambda>k. Ret (None, k)))
                   else
                     let k = upd_pipe p (\<lambda>_. \<lparr>pdata = map (\<lambda>i. mem (mach k) (p + 52 + of_nat i)) [0..<PIPESIZE], nread = 0,
                               nwrite = 0, readopen = 1, writeopen = 1\<rparr>) k;
                         k = initlockk (PipeLock p) ''pipe'' k;
                         k = upd_file f0 (\<lambda>x. x\<lparr>f_type := FD_PIPE, f_readable := 1, f_writable := 0, f_pipe := p\<rparr>) k;
                         k = upd_file f1 (\<lambda>x. x\<lparr>f_type := FD_PIPE, f_readable := 0, f_writable := 1, f_pipe := p\<rparr>) k
                     in Ret (Some (f0, f1), k))))"

end
