(* ===== verification/Proc_Life.thy ===== *)
theory Proc_Life
  imports File
begin

text \<open>
  The life of a process (the parts of proc.c that need the file system): the first process, \<open>fork\<close>, the first return of
  a new process, and \<open>exit\<close>.
\<close>

section \<open>State and trap frames\<close>

record sys_state = file_state +
  forkret_first :: int
  ticks :: u32
  GLOBAL_THP :: int

abbreviation (input) tf_eax :: u32 where "tf_eax \<equiv> 28"
abbreviation (input) tf_es :: u32 where "tf_es \<equiv> 40"
abbreviation (input) tf_ds :: u32 where "tf_ds \<equiv> 44"
abbreviation (input) tf_trapno :: u32 where "tf_trapno \<equiv> 48"
abbreviation (input) tf_err :: u32 where "tf_err \<equiv> 52"
abbreviation (input) tf_eip :: u32 where "tf_eip \<equiv> 56"
abbreviation (input) tf_cs :: u32 where "tf_cs \<equiv> 60"
abbreviation (input) tf_eflags :: u32 where "tf_eflags \<equiv> 64"
abbreviation (input) tf_esp :: u32 where "tf_esp \<equiv> 68"
abbreviation (input) tf_ss :: u32 where "tf_ss \<equiv> 72"

definition set_tf32 :: "u32 \<Rightarrow> u32 \<Rightarrow> u32 \<Rightarrow> 'a pstate_scheme \<Rightarrow> 'a pstate_scheme" where
  "set_tf32 tf field v = upd_mem (\<lambda>m. store32 m (tf + field) v)"

definition set_tf16 :: "u32 \<Rightarrow> u32 \<Rightarrow> u16 \<Rightarrow> 'a pstate_scheme \<Rightarrow> 'a pstate_scheme" where
  "set_tf16 tf field v = upd_mem (\<lambda>m. poke m (tf + field) (bytes16 v))"

definition get_tf32 :: "nat \<Rightarrow> u32 \<Rightarrow> 'a pstate_scheme \<Rightarrow> u32" where
  "get_tf32 p field k = load32 (mem (mach k)) (p_tf (procs k ! p) + field)"

text \<open>\<open>safestrcpy\<close> into the 16 bytes of a process name.\<close>

definition proc_name :: "string \<Rightarrow> string" where
  "proc_name s = take 15 s"

section \<open>The first process\<close>

text \<open>The linker gives the address and the size of the first program.\<close>

definition userinit :: "u32 \<Rightarrow> u32 \<Rightarrow> 'a sys_state_scheme \<Rightarrow> 'a sys_state_scheme outcome" where
  "userinit initcode_start initcode_size k =
     obind (allocproc k) (\<lambda>(p, k). case p of None \<Rightarrow> Diverge | Some p \<Rightarrow>
       let k = k\<lparr>initproc := Some p\<rparr> in
       obind (on_mach_val setupkvm k) (\<lambda>(d, k).
         let k = upd_proc p (p_pgdir_update (\<lambda>_. d)) k in
         if d = 0 then Panic ''userinit: out of memory?''
         else
           obind (on_mach (inituvm d initcode_start initcode_size) k) (\<lambda>k.
             let k = upd_proc p (p_sz_update (\<lambda>_. PGSIZE)) k;
                 tf = p_tf (procs k ! p);
                 k = upd_mem (\<lambda>m. memset m tf 0 76) k;
                 k = set_tf16 tf tf_cs 0x1B k;
                 k = set_tf16 tf tf_ds 0x23 k;
                 k = set_tf16 tf tf_es 0x23 k;
                 k = set_tf16 tf tf_ss 0x23 k;
                 k = set_tf32 tf tf_eflags FL_IF k;
                 k = set_tf32 tf tf_esp PGSIZE k;
                 k = set_tf32 tf tf_eip 0 k;
                 k = upd_proc p (p_name_update (\<lambda>_. proc_name ''initcode'')) k
             in obind (namei [slash] k) (\<lambda>(ip, k).
               let k = upd_proc p (p_cwd_update (\<lambda>_. ip)) k in
               obind (acquirek PtableLock k) (\<lambda>k.
                 releasek PtableLock (upd_proc p (p_state_update (\<lambda>_. RUNNABLE)) k))))))"

definition forkret :: "'a sys_state_scheme \<Rightarrow> 'a sys_state_scheme outcome" where
  "forkret k =
     obind (releasek PtableLock k) (\<lambda>k.
       if forkret_first k \<noteq> 0 then
         obind (iinit ROOTDEV (k\<lparr>forkret_first := 0\<rparr>)) (\<lambda>k. initlog (uint ROOTDEV) k)
       else Ret k)"

section \<open>Fork\<close>

definition fork_file :: "nat \<Rightarrow> nat \<Rightarrow> nat \<Rightarrow> 'a file_state_scheme \<Rightarrow> 'a file_state_scheme outcome" where
  "fork_file cur np i k =
     (case p_ofile (procs k ! cur) ! i of None \<Rightarrow> Ret k
      | Some f \<Rightarrow> obind (filedup f k) (\<lambda>(f, k). Ret (upd_proc np (p_ofile_update (\<lambda>fs. fs[i := Some f])) k)))"

definition fork :: "'a file_state_scheme \<Rightarrow> (int \<times> 'a file_state_scheme) outcome" where
  "fork k =
     with_proc (\<lambda>cur k.
       obind (allocproc k) (\<lambda>(np, k). case np of None \<Rightarrow> Ret (- 1, k) | Some np \<Rightarrow>
         let c = procs k ! cur in
         obind (on_mach_val (copyuvm (p_pgdir c) (p_sz c) (p_hugesz c)) k) (\<lambda>(d, k).
           let k = upd_proc np (p_pgdir_update (\<lambda>_. d)) k in
           if d = 0 then
             obind (on_mach (kfree (p_kstack (procs k ! np))) k) (\<lambda>k.
               Ret (- 1, upd_proc np (\<lambda>q. q\<lparr>p_kstack := 0, p_state := UNUSED\<rparr>) k))
           else
             let k = upd_proc np (\<lambda>q. q\<lparr>p_sz := p_sz c, p_hugesz := p_hugesz c, p_parent := Some cur\<rparr>) k;
                 tf = p_tf (procs k ! np);
                 k = upd_mem (\<lambda>m. memmove m tf (p_tf c) 76) k;
                 k = set_tf32 tf tf_eax 0 k
             in obind (ofold (fork_file cur np) [0..<NOFILE] k) (\<lambda>k.
               case p_cwd (procs k ! cur) of None \<Rightarrow> Diverge | Some cwd \<Rightarrow>
                 obind (idup cwd k) (\<lambda>(cwd, k).
                   let k = upd_proc np (p_cwd_update (\<lambda>_. Some cwd)) k;
                       k = upd_proc np (p_name_update (\<lambda>_. proc_name (p_name (procs k ! cur)))) k;
                       pid = p_pid (procs k ! np)
                   in obind (acquirek PtableLock k) (\<lambda>k.
                     obind (releasek PtableLock (upd_proc np (p_state_update (\<lambda>_. RUNNABLE)) k)) (\<lambda>k.
                       Ret (sint pid, k)))))))) k"

section \<open>Exit\<close>

definition exit_file :: "nat \<Rightarrow> nat \<Rightarrow> 'a file_state_scheme \<Rightarrow> 'a file_state_scheme outcome" where
  "exit_file cur fd k =
     (case p_ofile (procs k ! cur) ! fd of None \<Rightarrow> Ret k
      | Some f \<Rightarrow> obind (fileclose f k) (\<lambda>k. Ret (upd_proc cur (p_ofile_update (\<lambda>fs. fs[fd := None])) k)))"

text \<open>Nobody sleeps on the channel of a process that does not exist.\<close>

definition wakeup1_proc :: "nat option \<Rightarrow> 'a pstate_scheme \<Rightarrow> 'a pstate_scheme" where
  "wakeup1_proc p k = (case p of None \<Rightarrow> k | Some p \<Rightarrow> wakeup1 (ProcChan p) k)"

definition abandon :: "nat \<Rightarrow> nat \<Rightarrow> 'a pstate_scheme \<Rightarrow> 'a pstate_scheme" where
  "abandon cur p k =
     (if p_parent (procs k ! p) = Some cur then
        let k = upd_proc p (p_parent_update (\<lambda>_. initproc k)) k
        in if p_state (procs k ! p) = ZOMBIE then wakeup1_proc (initproc k) k else k
      else k)"

text \<open>\<open>exit\<close> up to its switch to the scheduler, from which it does not come back.\<close>

definition exit :: "'a file_state_scheme \<Rightarrow> 'a file_state_scheme outcome" where
  "exit k =
     with_proc (\<lambda>cur k.
       if Some cur = initproc k then Panic ''init exiting''
       else
         obind (ofold (exit_file cur) [0..<NOFILE] k) (\<lambda>k.
           obind (alone (begin_op k)) (\<lambda>(_, k).
             case p_cwd (procs k ! cur) of None \<Rightarrow> Diverge | Some cwd \<Rightarrow>
               obind (iput cwd k) (\<lambda>k.
                 obind (end_op k) (\<lambda>k.
                   let k = upd_proc cur (p_cwd_update (\<lambda>_. None)) k in
                   obind (acquirek PtableLock k) (\<lambda>k.
                     let k = wakeup1_proc (p_parent (procs k ! cur)) k;
                         k = fold (abandon cur) [0..<NPROC] k;
                         k = upd_proc cur (p_state_update (\<lambda>_. ZOMBIE)) k
                     in obind (sched k) (\<lambda>(_, k). Ret k))))))) k"

end
