(* ===== verification/Sysfile.thy ===== *)
theory Sysfile
  imports Proc_Life
begin

text \<open>
  The arguments of system calls (syscall.c) and the system calls on files (sysfile.c). The kernel reads and writes user
  memory at user addresses, through the page table of the process; an address without a page is a trap in the kernel, which panics.
\<close>

section \<open>User memory\<close>

definition vload8 :: "u32 \<Rightarrow> 'a pstate_scheme \<Rightarrow> u8 outcome" where
  "vload8 va k = (case xlate (mem (mach k)) (P2V (cr3 (mach k))) va of None \<Rightarrow> Panic ''trap'' | Some pa \<Rightarrow> Ret (mem (mach k) (P2V pa)))"

definition vstore8 :: "u32 \<Rightarrow> u8 \<Rightarrow> 'a pstate_scheme \<Rightarrow> 'a pstate_scheme outcome" where
  "vstore8 va b k = (case xlate (mem (mach k)) (P2V (cr3 (mach k))) va of None \<Rightarrow> Panic ''trap'' | Some pa \<Rightarrow> Ret (upd_mem (\<lambda>m. m(P2V pa := b)) k))"

primrec vload :: "u32 \<Rightarrow> nat \<Rightarrow> 'a pstate_scheme \<Rightarrow> u8 list outcome" where
  "vload va 0 k = Ret []"
| "vload va (Suc n) k = obind (vload8 va k) (\<lambda>b. obind (vload (va + 1) n k) (\<lambda>bs. Ret (b # bs)))"

primrec vstore :: "u32 \<Rightarrow> u8 list \<Rightarrow> 'a pstate_scheme \<Rightarrow> 'a pstate_scheme outcome" where
  "vstore va [] k = Ret k"
| "vstore va (b # bs) k = obind (vstore8 va b k) (vstore (va + 1) bs)"

section \<open>Arguments\<close>

text \<open>A result \<open>None\<close> is the result \<^verbatim>\<open>-1\<close>, \<open>Some\<close> what the pointer argument receives.\<close>

definition fetchint :: "u32 \<Rightarrow> 'a pstate_scheme \<Rightarrow> (u32 option \<times> 'a pstate_scheme) outcome" where
  "fetchint addr k =
     with_proc (\<lambda>cur k.
       let sz = p_sz (procs k ! cur) in
       if addr \<ge> sz \<or> addr + 4 > sz then Ret (None, k)
       else obind (vload addr 4 k) (\<lambda>bs. Ret (Some (get32 bs 0), k))) k"

primrec fetchstr_loop :: "u32 \<Rightarrow> nat \<Rightarrow> 'a pstate_scheme \<Rightarrow> bytes option outcome" where
  "fetchstr_loop s 0 k = Ret None"
| "fetchstr_loop s (Suc n) k =
     obind (vload8 s k) (\<lambda>c.
       if c = 0 then Ret (Some [])
       else obind (fetchstr_loop (s + 1) n k) (\<lambda>r. Ret (map_option ((#) c) r)))"

text \<open>\<open>fetchstr\<close> with the string that the pointer it sets points to.\<close>

definition fetchstr :: "u32 \<Rightarrow> 'a pstate_scheme \<Rightarrow> (bytes option \<times> 'a pstate_scheme) outcome" where
  "fetchstr addr k =
     with_proc (\<lambda>cur k.
       let sz = p_sz (procs k ! cur) in
       if addr \<ge> sz then Ret (None, k)
       else obind (fetchstr_loop addr (unat (sz - addr)) k) (\<lambda>r. Ret (r, k))) k"

definition argint :: "nat \<Rightarrow> 'a pstate_scheme \<Rightarrow> (u32 option \<times> 'a pstate_scheme) outcome" where
  "argint n k = with_proc (\<lambda>cur k. fetchint (get_tf32 cur tf_esp k + 4 + 4 * of_nat n) k) k"

definition argptr :: "nat \<Rightarrow> int \<Rightarrow> 'a pstate_scheme \<Rightarrow> (u32 option \<times> 'a pstate_scheme) outcome" where
  "argptr n len k =
     with_proc (\<lambda>cur k.
       obind (argint n k) (\<lambda>(i, k). case i of None \<Rightarrow> Ret (None, k) | Some i \<Rightarrow>
         let sz = p_sz (procs k ! cur) in
         if len < 0 \<or> i \<ge> sz \<or> i + of_int len > sz then Ret (None, k) else Ret (Some i, k))) k"

definition argstr :: "nat \<Rightarrow> 'a pstate_scheme \<Rightarrow> (bytes option \<times> 'a pstate_scheme) outcome" where
  "argstr n k = obind (argint n k) (\<lambda>(addr, k). case addr of None \<Rightarrow> Ret (None, k) | Some addr \<Rightarrow> fetchstr addr k)"

text \<open>\<open>argument\<close> continues with an argument and returns \<open>-1\<close> without it.\<close>

definition argument :: "('v option \<times> 'k) outcome \<Rightarrow> ('v \<Rightarrow> 'k \<Rightarrow> (int blocking \<times> 'k) outcome) \<Rightarrow> (int blocking \<times> 'k) outcome" where
  "argument a f = obind a (\<lambda>(v, k). case v of None \<Rightarrow> Ret (Done (- 1), k) | Some v \<Rightarrow> f v k)"

definition argfd :: "nat \<Rightarrow> 'a pstate_scheme \<Rightarrow> ((nat \<times> nat) option \<times> 'a pstate_scheme) outcome" where
  "argfd n k =
     obind (argint n k) (\<lambda>(fd, k). case fd of None \<Rightarrow> Ret (None, k) | Some fd \<Rightarrow>
       if sint fd < 0 \<or> sint fd \<ge> int NOFILE then Ret (None, k)
       else with_proc (\<lambda>cur k.
         case p_ofile (procs k ! cur) ! unat fd of None \<Rightarrow> Ret (None, k) | Some f \<Rightarrow> Ret (Some (unat fd, f), k)) k)"

definition fdalloc :: "nat \<Rightarrow> 'a pstate_scheme \<Rightarrow> (nat option \<times> 'a pstate_scheme) outcome" where
  "fdalloc f k =
     with_proc (\<lambda>cur k.
       case find (\<lambda>fd. p_ofile (procs k ! cur) ! fd = None) [0..<NOFILE] of
         None \<Rightarrow> Ret (None, k)
       | Some fd \<Rightarrow> Ret (Some fd, upd_proc cur (p_ofile_update (\<lambda>fs. fs[fd := Some f])) k)) k"

section \<open>Descriptors, reading and writing\<close>

definition sys_dup :: "'a file_state_scheme \<Rightarrow> (int blocking \<times> 'a file_state_scheme) outcome" where
  "sys_dup k =
     argument (argfd 0 k) (\<lambda>(_, f) k.
       obind (fdalloc f k) (\<lambda>(fd, k). case fd of None \<Rightarrow> Ret (Done (- 1), k) | Some fd \<Rightarrow>
         obind (filedup f k) (\<lambda>(_, k). Ret (Done (int fd), k))))"

text \<open>
  A read stores the bytes it gets in the user's buffer, also the ones it has when it goes to sleep. The continuation needs the
  file, the buffer, the bytes so far and the number of bytes still wanted.
\<close>

definition sys_read_end :: "u32 \<Rightarrow> int blocking \<times> u8 list \<times> nat \<times> 'a file_state_scheme \<Rightarrow> (int blocking \<times> 'a file_state_scheme) outcome" where
  "sys_read_end p = (\<lambda>(r, bs, _, k). obind (vstore p bs k) (\<lambda>k. Ret (r, k)))"

definition sys_read :: "'a file_state_scheme \<Rightarrow> (int blocking \<times> 'a file_state_scheme) outcome" where
  "sys_read k =
     argument (argfd 0 k) (\<lambda>(_, f) k.
       argument (argint 2 k) (\<lambda>n k.
         argument (argptr 1 (sint n) k) (\<lambda>p k. obind (fileread f (sint n) k) (sys_read_end p))))"

definition sys_read_return :: "nat \<Rightarrow> u32 \<Rightarrow> int \<Rightarrow> u8 list \<Rightarrow> nat \<Rightarrow> nat \<Rightarrow> u32 \<Rightarrow> 'a file_state_scheme \<Rightarrow> (int blocking \<times> 'a file_state_scheme) outcome" where
  "sys_read_return f p n bs left cur e k = obind (fileread_return f n bs left cur e k) (sys_read_end p)"

text \<open>The bytes of the user's buffer cannot change while the call is served: the address space has one thread.\<close>

definition sys_write :: "'a file_state_scheme \<Rightarrow> (int blocking \<times> 'a file_state_scheme) outcome" where
  "sys_write k =
     argument (argfd 0 k) (\<lambda>(_, f) k.
       argument (argint 2 k) (\<lambda>n k.
         argument (argptr 1 (sint n) k) (\<lambda>p k.
           obind (vload p (nat (sint n)) k) (\<lambda>bs.
             obind (filewrite f ((!) bs) (sint n) k) (\<lambda>(r, _, k). Ret (r, k))))))"

definition sys_close :: "'a file_state_scheme \<Rightarrow> (int blocking \<times> 'a file_state_scheme) outcome" where
  "sys_close k =
     argument (argfd 0 k) (\<lambda>(fd, f) k.
       obind (with_proc (\<lambda>cur k. Ret (upd_proc cur (p_ofile_update (\<lambda>fs. fs[fd := None])) k)) k) (\<lambda>k.
         obind (fileclose f k) (\<lambda>k. Ret (Done 0, k))))"

text \<open>\<^verbatim>\<open>struct stat\<close> takes 20 bytes, with two bytes of padding behind each of its short fields.\<close>

definition store_stat :: "u32 \<Rightarrow> stat \<Rightarrow> 'a pstate_scheme \<Rightarrow> 'a pstate_scheme outcome" where
  "store_stat p st k =
     obind (vstore (p + 4) (bytes32 (st_dev st)) k) (\<lambda>k.
       obind (vstore (p + 8) (bytes32 (st_ino st)) k) (\<lambda>k.
         obind (vstore p (bytes16 (st_type st)) k) (\<lambda>k.
           obind (vstore (p + 12) (bytes16 (st_nlink st)) k) (vstore (p + 16) (bytes32 (st_size st))))))"

definition sys_fstat :: "'a file_state_scheme \<Rightarrow> (int blocking \<times> 'a file_state_scheme) outcome" where
  "sys_fstat k =
     argument (argfd 0 k) (\<lambda>(_, f) k.
       argument (argptr 1 20 k) (\<lambda>p k.
         obind (filestat f k) (\<lambda>(st, k). case st of None \<Rightarrow> Ret (Done (- 1), k) | Some st \<Rightarrow>
           obind (store_stat p st k) (\<lambda>k. Ret (Done 0, k)))))"

section \<open>Links\<close>

definition in_op :: "('a file_state_scheme \<Rightarrow> (int \<times> 'a file_state_scheme) outcome) \<Rightarrow> 'a file_state_scheme \<Rightarrow> (int blocking \<times> 'a file_state_scheme) outcome" where
  "in_op f k = obind (alone (begin_op k)) (\<lambda>(_, k). obind (f k) (\<lambda>(r, k). obind (end_op k) (\<lambda>k. Ret (Done r, k))))"

definition link_op :: "bytes \<Rightarrow> bytes \<Rightarrow> 'a file_state_scheme \<Rightarrow> (int \<times> 'a file_state_scheme) outcome" where
  "link_op old new k =
     obind (namei old k) (\<lambda>(ip, k). case ip of None \<Rightarrow> Ret (- 1, k) | Some ip \<Rightarrow>
       obind (ilock (Some ip) k) (\<lambda>k.
         if i_type (inodes k ! ip) = T_DIR then obind (iunlockput ip k) (\<lambda>k. Ret (- 1, k))
         else
           obind (iupdate ip (upd_inode ip (i_nlink_update (\<lambda>n. n + 1)) k)) (\<lambda>k.
             obind (iunlock (Some ip) k) (\<lambda>k.
               let bad = (\<lambda>k.
                     obind (ilock (Some ip) k) (\<lambda>k.
                       obind (iupdate ip (upd_inode ip (i_nlink_update (\<lambda>n. n - 1)) k)) (\<lambda>k.
                         obind (iunlockput ip k) (\<lambda>k. Ret (- 1, k)))))
               in obind (nameiparent new (replicate DIRSIZ 0) k) (\<lambda>(dp, name, k). case dp of None \<Rightarrow> bad k | Some dp \<Rightarrow>
                 obind (ilock (Some dp) k) (\<lambda>k.
                   obind
                     (if i_dev (inodes k ! dp) \<noteq> i_dev (inodes k ! ip) then Ret (- 1, k)
                      else dirlink dp name (i_inum (inodes k ! ip)) k) (\<lambda>(r, k).
                     obind (iunlockput dp k) (\<lambda>k.
                       if r < 0 then bad k
                       else obind (iput ip k) (\<lambda>k. Ret (0, k))))))))))"

definition sys_link :: "'a file_state_scheme \<Rightarrow> (int blocking \<times> 'a file_state_scheme) outcome" where
  "sys_link k = argument (argstr 0 k) (\<lambda>old k. argument (argstr 1 k) (\<lambda>new k. in_op (link_op old new) k))"

primrec isdirempty_loop :: "nat \<Rightarrow> nat list \<Rightarrow> 'a cons_state_scheme \<Rightarrow> (bool \<times> 'a cons_state_scheme) outcome" where
  "isdirempty_loop dp [] k = Ret (True, k)"
| "isdirempty_loop dp (off # offs) k =
     obind (readi_now dp (of_nat off) 16 k) (\<lambda>(r, bs, k).
       if r \<noteq> 16 then Panic ''isdirempty: readi''
       else if de_inum (get_dirent bs) \<noteq> 0 then Ret (False, k)
       else isdirempty_loop dp offs k)"

definition isdirempty :: "nat \<Rightarrow> 'a cons_state_scheme \<Rightarrow> (bool \<times> 'a cons_state_scheme) outcome" where
  "isdirempty dp k = isdirempty_loop dp (drop 2 (dir_offsets (i_size (inodes k ! dp)))) k"

definition unlink_op :: "bytes \<Rightarrow> 'a file_state_scheme \<Rightarrow> (int \<times> 'a file_state_scheme) outcome" where
  "unlink_op path k =
     obind (nameiparent path (replicate DIRSIZ 0) k) (\<lambda>(dp, name, k). case dp of None \<Rightarrow> Ret (- 1, k) | Some dp \<Rightarrow>
       let bad = (\<lambda>k. obind (iunlockput dp k) (\<lambda>k. Ret (- 1, k))) in
       obind (ilock (Some dp) k) (\<lambda>k.
         if namecmp name [0x2E] = 0 \<or> namecmp name [0x2E, 0x2E] = 0 then bad k
         else
           obind (dirlookup dp name k) (\<lambda>(r, k). case r of None \<Rightarrow> bad k | Some (ip, off) \<Rightarrow>
             obind (ilock (Some ip) k) (\<lambda>k.
               if sint (i_nlink (inodes k ! ip)) < 1 then Panic ''unlink: nlink < 1''
               else
                 obind (if i_type (inodes k ! ip) = T_DIR then isdirempty ip k else Ret (True, k)) (\<lambda>(empty, k).
                   if \<not> empty then obind (iunlockput ip k) bad
                   else
                     obind (writei dp (\<lambda>_. 0) off 16 k) (\<lambda>(r, k).
                       if r \<noteq> 16 then Panic ''unlink: writei''
                       else
                         obind
                           (if i_type (inodes k ! ip) = T_DIR
                            then iupdate dp (upd_inode dp (i_nlink_update (\<lambda>n. n - 1)) k)
                            else Ret k) (\<lambda>k.
                           obind (iunlockput dp k) (\<lambda>k.
                             obind (iupdate ip (upd_inode ip (i_nlink_update (\<lambda>n. n - 1)) k)) (\<lambda>k.
                               obind (iunlockput ip k) (\<lambda>k. Ret (0, k)))))))))))"

definition sys_unlink :: "'a file_state_scheme \<Rightarrow> (int blocking \<times> 'a file_state_scheme) outcome" where
  "sys_unlink k = argument (argstr 0 k) (\<lambda>path k. in_op (unlink_op path) k)"

section \<open>Creating and opening\<close>

definition create :: "bytes \<Rightarrow> u16 \<Rightarrow> u16 \<Rightarrow> u16 \<Rightarrow> 'a cons_state_scheme \<Rightarrow> (nat option \<times> 'a cons_state_scheme) outcome" where
  "create path ty major minor k =
     obind (nameiparent path (replicate DIRSIZ 0) k) (\<lambda>(dp, name, k). case dp of None \<Rightarrow> Ret (None, k) | Some dp \<Rightarrow>
       obind (ilock (Some dp) k) (\<lambda>k.
         obind (dirlookup dp name k) (\<lambda>(r, k).
           case r of Some (ip, _) \<Rightarrow>
             obind (iunlockput dp k) (\<lambda>k.
               obind (ilock (Some ip) k) (\<lambda>k.
                 if ty = T_FILE \<and> i_type (inodes k ! ip) = T_FILE then Ret (Some ip, k)
                 else obind (iunlockput ip k) (\<lambda>k. Ret (None, k))))
           | None \<Rightarrow>
             obind (ialloc (i_dev (inodes k ! dp)) ty k) (\<lambda>(ip, k).
               obind (ilock (Some ip) k) (\<lambda>k.
                 obind (iupdate ip (upd_inode ip (\<lambda>x. x\<lparr>i_major := major, i_minor := minor, i_nlink := 1\<rparr>) k)) (\<lambda>k.
                   obind
                     (if ty = T_DIR then
                        obind (iupdate dp (upd_inode dp (i_nlink_update (\<lambda>n. n + 1)) k)) (\<lambda>k.
                          obind (dirlink ip [0x2E] (i_inum (inodes k ! ip)) k) (\<lambda>(r, k).
                            if r < 0 then Panic ''create dots''
                            else obind (dirlink ip [0x2E, 0x2E] (i_inum (inodes k ! dp)) k) (\<lambda>(r, k).
                              if r < 0 then Panic ''create dots'' else Ret k)))
                      else Ret k) (\<lambda>k.
                     obind (dirlink dp name (i_inum (inodes k ! ip)) k) (\<lambda>(r, k).
                       if r < 0 then Panic ''create: dirlink''
                       else obind (iunlockput dp k) (\<lambda>k. Ret (Some ip, k))))))))))"

abbreviation (input) O_RDONLY :: u32 where "O_RDONLY \<equiv> 0"
abbreviation (input) O_WRONLY :: u32 where "O_WRONLY \<equiv> 1"
abbreviation (input) O_RDWR :: u32 where "O_RDWR \<equiv> 2"
abbreviation (input) O_CREATE :: u32 where "O_CREATE \<equiv> 0x200"

text \<open>The locked inode to open.\<close>

definition open_inode :: "bytes \<Rightarrow> u32 \<Rightarrow> 'a cons_state_scheme \<Rightarrow> (nat option \<times> 'a cons_state_scheme) outcome" where
  "open_inode path omode k =
     (if omode AND O_CREATE \<noteq> 0 then create path T_FILE 0 0 k
      else
        obind (namei path k) (\<lambda>(ip, k). case ip of None \<Rightarrow> Ret (None, k) | Some ip \<Rightarrow>
          obind (ilock (Some ip) k) (\<lambda>k.
            if i_type (inodes k ! ip) = T_DIR \<and> omode \<noteq> O_RDONLY then obind (iunlockput ip k) (\<lambda>k. Ret (None, k))
            else Ret (Some ip, k))))"

definition sys_open :: "'a file_state_scheme \<Rightarrow> (int blocking \<times> 'a file_state_scheme) outcome" where
  "sys_open k =
     argument (argstr 0 k) (\<lambda>path k.
       argument (argint 1 k) (\<lambda>omode k.
         obind (alone (begin_op k)) (\<lambda>(_, k).
           obind (open_inode path omode k) (\<lambda>(ip, k). case ip of None \<Rightarrow> obind (end_op k) (\<lambda>k. Ret (Done (- 1), k)) | Some ip \<Rightarrow>
             let bad = (\<lambda>k. obind (iunlockput ip k) (\<lambda>k. obind (end_op k) (\<lambda>k. Ret (Done (- 1), k)))) in
             obind (filealloc k) (\<lambda>(f, k). case f of None \<Rightarrow> bad k | Some f \<Rightarrow>
               obind (fdalloc f k) (\<lambda>(fd, k). case fd of None \<Rightarrow> obind (fileclose f k) bad | Some fd \<Rightarrow>
                 obind (iunlock (Some ip) k) (\<lambda>k.
                   obind (end_op k) (\<lambda>k.
                     Ret (Done (int fd), upd_file f (\<lambda>x. x\<lparr>f_type := FD_INODE, f_ip := ip, f_off := 0,
                       f_readable := (if omode AND O_WRONLY \<noteq> 0 then 0 else 1),
                       f_writable := (if omode AND O_WRONLY \<noteq> 0 \<or> omode AND O_RDWR \<noteq> 0 then 1 else 0)\<rparr>) k)))))))))"

definition create_op :: "(bytes option \<times> 'a file_state_scheme) outcome \<Rightarrow> u16 \<Rightarrow> u16 \<Rightarrow> u16 \<Rightarrow> (int \<times> 'a file_state_scheme) outcome" where
  "create_op p ty major minor =
     obind p (\<lambda>(path, k). case path of None \<Rightarrow> Ret (- 1, k) | Some path \<Rightarrow>
       obind (create path ty major minor k) (\<lambda>(ip, k). case ip of None \<Rightarrow> Ret (- 1, k) | Some ip \<Rightarrow>
         obind (iunlockput ip k) (\<lambda>k. Ret (0, k))))"

definition sys_mkdir :: "'a file_state_scheme \<Rightarrow> (int blocking \<times> 'a file_state_scheme) outcome" where
  "sys_mkdir k = in_op (\<lambda>k. create_op (argstr 0 k) T_DIR 0 0) k"

definition sys_mknod :: "'a file_state_scheme \<Rightarrow> (int blocking \<times> 'a file_state_scheme) outcome" where
  "sys_mknod k =
     in_op (\<lambda>k.
       obind (argstr 0 k) (\<lambda>(path, k). case path of None \<Rightarrow> Ret (- 1, k) | Some path \<Rightarrow>
         obind (argint 1 k) (\<lambda>(major, k). case major of None \<Rightarrow> Ret (- 1, k) | Some major \<Rightarrow>
           obind (argint 2 k) (\<lambda>(minor, k). case minor of None \<Rightarrow> Ret (- 1, k) | Some minor \<Rightarrow>
             create_op (Ret (Some path, k)) T_DEV (ucast major) (ucast minor))))) k"

text \<open>The new directory is entered after the end of the operation.\<close>

definition chdir_op :: "nat \<Rightarrow> 'a file_state_scheme \<Rightarrow> (nat option \<times> 'a file_state_scheme) outcome" where
  "chdir_op cur k =
     obind (argstr 0 k) (\<lambda>(path, k). case path of None \<Rightarrow> Ret (None, k) | Some path \<Rightarrow>
       obind (namei path k) (\<lambda>(ip, k). case ip of None \<Rightarrow> Ret (None, k) | Some ip \<Rightarrow>
         obind (ilock (Some ip) k) (\<lambda>k.
           if i_type (inodes k ! ip) \<noteq> T_DIR then obind (iunlockput ip k) (\<lambda>k. Ret (None, k))
           else
             obind (iunlock (Some ip) k) (\<lambda>k.
               case p_cwd (procs k ! cur) of None \<Rightarrow> Diverge | Some cwd \<Rightarrow>
                 obind (iput cwd k) (\<lambda>k. Ret (Some ip, k))))))"

definition sys_chdir :: "'a file_state_scheme \<Rightarrow> (int blocking \<times> 'a file_state_scheme) outcome" where
  "sys_chdir k =
     with_proc (\<lambda>cur k.
       obind (alone (begin_op k)) (\<lambda>(_, k).
         obind (chdir_op cur k) (\<lambda>(ip, k).
           obind (end_op k) (\<lambda>k.
             case ip of None \<Rightarrow> Ret (Done (- 1), k)
             | Some ip \<Rightarrow> Ret (Done 0, upd_proc cur (p_cwd_update (\<lambda>_. Some ip)) k))))) k"

section \<open>Pipes\<close>

definition sys_pipe :: "'a file_state_scheme \<Rightarrow> (int blocking \<times> 'a file_state_scheme) outcome" where
  "sys_pipe k =
     argument (argptr 0 8 k) (\<lambda>fd k.
       obind (pipealloc k) (\<lambda>(fs, k). case fs of None \<Rightarrow> Ret (Done (- 1), k) | Some (f0, f1) \<Rightarrow>
         let bad = (\<lambda>k. obind (fileclose f0 k) (\<lambda>k. obind (fileclose f1 k) (\<lambda>k. Ret (Done (- 1), k)))) in
         obind (fdalloc f0 k) (\<lambda>(fd0, k). case fd0 of None \<Rightarrow> bad k | Some fd0 \<Rightarrow>
           obind (fdalloc f1 k) (\<lambda>(fd1, k). case fd1 of
             None \<Rightarrow> obind (with_proc (\<lambda>cur k. Ret (upd_proc cur (p_ofile_update (\<lambda>fs. fs[fd0 := None])) k)) k) bad
           | Some fd1 \<Rightarrow>
               obind (vstore fd (bytes32 (of_nat fd0)) k) (\<lambda>k.
                 obind (vstore (fd + 4) (bytes32 (of_nat fd1)) k) (\<lambda>k. Ret (Done 0, k)))))))"

end
