(* ===== verification/Exec.thy ===== *)
theory Exec
  imports Sysfile
begin

text \<open>
  Loading programs (exec.c, and \<open>loaduvm\<close> of vm.c) and the system call that does it.
\<close>

section \<open>The executable format\<close>

abbreviation (input) ELF_MAGIC :: u32 where "ELF_MAGIC \<equiv> 0x464C457F"
abbreviation (input) ELF_PROG_LOAD :: u32 where "ELF_PROG_LOAD \<equiv> 1"

text \<open>The fields of the headers that are used.\<close>

record elfhdr =
  e_magic :: u32
  e_entry :: u32
  e_phoff :: u32
  e_phnum :: u16

record proghdr =
  ph_type :: u32
  ph_off :: u32
  ph_vaddr :: u32
  ph_filesz :: u32
  ph_memsz :: u32

definition get_elfhdr :: "bytes \<Rightarrow> elfhdr" where
  "get_elfhdr bs = \<lparr>e_magic = get32 bs 0, e_entry = get32 bs 24, e_phoff = get32 bs 28, e_phnum = get16 bs 44\<rparr>"

definition get_proghdr :: "bytes \<Rightarrow> proghdr" where
  "get_proghdr bs = \<lparr>ph_type = get32 bs 0, ph_off = get32 bs 4, ph_vaddr = get32 bs 8, ph_filesz = get32 bs 16, ph_memsz = get32 bs 20\<rparr>"

section \<open>Loading\<close>

primrec loaduvm_loop :: "u32 \<Rightarrow> u32 \<Rightarrow> nat \<Rightarrow> u32 \<Rightarrow> u32 \<Rightarrow> u32 list \<Rightarrow> 'a cons_state_scheme \<Rightarrow> (int \<times> 'a cons_state_scheme) outcome" where
  "loaduvm_loop pgdir addr ip offset sz [] k = Ret (0, k)"
| "loaduvm_loop pgdir addr ip offset sz (i # is) k =
     obind (on_mach_val (walkpgdir pgdir (addr + i) False) k) (\<lambda>(pte, k).
       if pte = 0 then Panic ''loaduvm: address should exist''
       else
         let pa = PTE_ADDR (load32 (mem (mach k)) pte);
             n = (if sz - i < PGSIZE then sz - i else PGSIZE)
         in obind (readi_now ip (offset + i) n k) (\<lambda>(r, bs, k).
           let k = upd_mem (\<lambda>m. poke m (P2V pa) bs) k in
           if r \<noteq> sint n then Ret (- 1, k) else loaduvm_loop pgdir addr ip offset sz is k))"

definition loaduvm :: "u32 \<Rightarrow> u32 \<Rightarrow> nat \<Rightarrow> u32 \<Rightarrow> u32 \<Rightarrow> 'a cons_state_scheme \<Rightarrow> (int \<times> 'a cons_state_scheme) outcome" where
  "loaduvm pgdir addr ip offset sz k =
     (if addr mod PGSIZE \<noteq> 0 then Panic ''loaduvm: addr must be page aligned''
      else loaduvm_loop pgdir addr ip offset sz (map (\<lambda>i. of_nat i * PGSIZE) [0..<(unat sz + 4095) div 4096]) k)"

text \<open>The program headers numbered \<open>is\<close>; the result is the new size, or nothing for the jump to \<^verbatim>\<open>bad\<close>.\<close>

primrec exec_load :: "u32 \<Rightarrow> nat \<Rightarrow> u32 \<Rightarrow> nat list \<Rightarrow> u32 \<Rightarrow> 'a cons_state_scheme \<Rightarrow> (u32 option \<times> 'a cons_state_scheme) outcome" where
  "exec_load pgdir ip phoff [] sz k = Ret (Some sz, k)"
| "exec_load pgdir ip phoff (i # is) sz k =
     obind (readi_now ip (phoff + 32 * of_nat i) 32 k) (\<lambda>(r, bs, k).
       if r \<noteq> 32 then Ret (None, k)
       else
         let ph = get_proghdr bs in
         if ph_type ph \<noteq> ELF_PROG_LOAD then exec_load pgdir ip phoff is sz k
         else if ph_memsz ph < ph_filesz ph then Ret (None, k)
         else if ph_vaddr ph + ph_memsz ph < ph_vaddr ph then Ret (None, k)
         else
           obind (on_mach_val (allocuvm pgdir sz (ph_vaddr ph + ph_memsz ph)) k) (\<lambda>(sz, k).
             if sz = 0 then Ret (None, k)
             else if ph_vaddr ph mod PGSIZE \<noteq> 0 then Ret (None, k)
             else
               obind (loaduvm pgdir (ph_vaddr ph) ip (ph_off ph) (ph_filesz ph) k) (\<lambda>(r, k).
                 if r < 0 then Ret (None, k) else exec_load pgdir ip phoff is sz k)))"

section \<open>The stack\<close>

text \<open>The argument strings go to the stack; \<open>ptrs\<close> are the addresses of the ones that are there already.\<close>

primrec exec_args :: "u32 \<Rightarrow> bytes list \<Rightarrow> u32 \<Rightarrow> u32 list \<Rightarrow> 'a pstate_scheme \<Rightarrow> ((u32 \<times> u32 list) option \<times> 'a pstate_scheme) outcome" where
  "exec_args pgdir [] sp ptrs k = Ret (Some (sp, ptrs), k)"
| "exec_args pgdir (a # argv) sp ptrs k =
     (if length ptrs \<ge> MAXARG then Ret (None, k)
      else
        let sp = (sp - of_nat (length a + 1)) AND NOT 3 in
        obind (on_mach_val (copyout pgdir sp (a @ [0])) k) (\<lambda>(r, k).
          if r < 0 then Ret (None, k) else exec_args pgdir argv sp (ptrs @ [sp]) k))"

definition exec_stack :: "u32 \<Rightarrow> bytes list \<Rightarrow> u32 \<Rightarrow> 'a pstate_scheme \<Rightarrow> (u32 option \<times> 'a pstate_scheme) outcome" where
  "exec_stack pgdir argv sp k =
     obind (exec_args pgdir argv sp [] k) (\<lambda>(r, k). case r of None \<Rightarrow> Ret (None, k) | Some (sp, ptrs) \<Rightarrow>
       let argc = of_nat (length ptrs) :: u32;
           ustack = [0xFFFFFFFF, argc, sp - (argc + 1) * 4] @ ptrs @ [0];
           sp = sp - (3 + argc + 1) * 4
       in obind (on_mach_val (copyout pgdir sp (concat (map bytes32 ustack))) k) (\<lambda>(r, k).
         if r < 0 then Ret (None, k) else Ret (Some sp, k)))"

definition last_element :: "bytes \<Rightarrow> string" where
  "last_element path = map (\<lambda>c. char_of (unat c)) (rev (takeWhile (\<lambda>c. c \<noteq> slash) (rev path)))"

section \<open>Exec\<close>

text \<open>From the lock on the file to the end of the operation: the new directory, its size and the entry point.\<close>

definition exec_image :: "nat \<Rightarrow> 'a file_state_scheme \<Rightarrow> ((u32 \<times> u32 \<times> u32) option \<times> 'a file_state_scheme) outcome" where
  "exec_image ip k =
     (let bad = (\<lambda>pgdir k.
            obind (if pgdir \<noteq> 0 then on_mach (freevm pgdir) k else Ret k) (\<lambda>k.
              obind (iunlockput ip k) (\<lambda>k. obind (end_op k) (\<lambda>k. Ret (None, k)))))
      in obind (ilock (Some ip) k) (\<lambda>k.
        obind (readi_now ip 0 52 k) (\<lambda>(r, bs, k).
          let elf = get_elfhdr bs in
          if r \<noteq> 52 then bad 0 k
          else if e_magic elf \<noteq> ELF_MAGIC then bad 0 k
          else
            obind (on_mach_val setupkvm k) (\<lambda>(pgdir, k).
              if pgdir = 0 then bad 0 k
              else
                obind (exec_load pgdir ip (e_phoff elf) [0..<unat (e_phnum elf)] 0 k) (\<lambda>(sz, k).
                  case sz of None \<Rightarrow> bad pgdir k
                  | Some sz \<Rightarrow> obind (iunlockput ip k) (\<lambda>k. obind (end_op k) (\<lambda>k. Ret (Some (pgdir, sz, e_entry elf), k))))))))"

definition exec :: "bytes \<Rightarrow> bytes list \<Rightarrow> 'a file_state_scheme \<Rightarrow> (int \<times> 'a file_state_scheme) outcome" where
  "exec path argv k =
     with_proc (\<lambda>cur k.
       obind (alone (begin_op k)) (\<lambda>(_, k).
         obind (namei path k) (\<lambda>(ip, k). case ip of
           None \<Rightarrow> obind (end_op k) (\<lambda>k. obind (cprintf_cons (''exec: fail'' @ [CHR 0x0A]) [] k) (\<lambda>k. Ret (- 1, k)))
         | Some ip \<Rightarrow>
           obind (exec_image ip k) (\<lambda>(img, k). case img of None \<Rightarrow> Ret (- 1, k) | Some (pgdir, sz, eip) \<Rightarrow>
             let bad = (\<lambda>k. obind (on_mach (freevm pgdir) k) (\<lambda>k. Ret (- 1, k)));
                 sz = PGROUNDUP sz
             in obind (on_mach_val (allocuvm pgdir sz (sz + 2 * PGSIZE)) k) (\<lambda>(sz, k).
               if sz = 0 then bad k
               else
                 obind (on_mach (clearpteu pgdir (sz - 2 * PGSIZE)) k) (\<lambda>k.
                   obind (exec_stack pgdir argv sz k) (\<lambda>(sp, k). case sp of None \<Rightarrow> bad k | Some sp \<Rightarrow>
                     let k = upd_proc cur (p_name_update (\<lambda>_. proc_name (last_element path))) k;
                         oldpgdir = p_pgdir (procs k ! cur);
                         k = upd_proc cur (\<lambda>q. q\<lparr>p_pgdir := pgdir, p_sz := sz\<rparr>) k;
                         tf = p_tf (procs k ! cur);
                         k = set_tf32 tf tf_eip eip k;
                         k = set_tf32 tf tf_esp sp k;
                         k = upd_proc cur (p_hugesz_update (\<lambda>_. 0)) k
                     in obind (switchuvm (Some cur) k) (\<lambda>k.
                       obind (on_mach (freevm oldpgdir) k) (\<lambda>k. Ret (0, k))))))))))  k"

text \<open>The argument vector in user memory from index \<open>i\<close> on, with \<open>n\<close> places left in \<^verbatim>\<open>argv\<close>.\<close>

primrec sys_exec_args :: "nat \<Rightarrow> u32 \<Rightarrow> u32 \<Rightarrow> 'a pstate_scheme \<Rightarrow> (bytes list option \<times> 'a pstate_scheme) outcome" where
  "sys_exec_args 0 i uargv k = Ret (None, k)"
| "sys_exec_args (Suc n) i uargv k =
     obind (fetchint (uargv + 4 * i) k) (\<lambda>(uarg, k). case uarg of None \<Rightarrow> Ret (None, k) | Some uarg \<Rightarrow>
       if uarg = 0 then Ret (Some [], k)
       else
         obind (fetchstr uarg k) (\<lambda>(s, k). case s of None \<Rightarrow> Ret (None, k) | Some s \<Rightarrow>
           obind (sys_exec_args n (i + 1) uargv k) (\<lambda>(r, k). Ret (map_option ((#) s) r, k))))"

definition sys_exec :: "'a file_state_scheme \<Rightarrow> (int blocking \<times> 'a file_state_scheme) outcome" where
  "sys_exec k =
     argument (argstr 0 k) (\<lambda>path k.
       argument (argint 1 k) (\<lambda>uargv k.
         argument (sys_exec_args MAXARG 0 uargv k) (\<lambda>argv k.
           obind (exec path argv k) (\<lambda>(r, k). Ret (Done r, k)))))"

end
