(* ===== verification/Syscall.thy ===== *)
theory Syscall
  imports Exec Kbd
begin

text \<open>
  The system calls on processes and memory (sysproc.c), the dispatch of system calls (syscall.c) and of traps (trap.c).
\<close>

section \<open>Processes and time\<close>

definition sys_wait :: "'a sys_state_scheme \<Rightarrow> (int blocking \<times> 'a sys_state_scheme) outcome" where
  "sys_wait k = wait k"

definition sys_fork :: "'a sys_state_scheme \<Rightarrow> (int blocking \<times> 'a sys_state_scheme) outcome" where
  "sys_fork k = obind (fork k) (\<lambda>(r, k). Ret (Done r, k))"

definition sys_kill :: "'a sys_state_scheme \<Rightarrow> (int blocking \<times> 'a sys_state_scheme) outcome" where
  "sys_kill k = argument (argint 0 k) (\<lambda>pid k. obind (kill pid k) (\<lambda>(r, k). Ret (Done r, k)))"

definition sys_getpid :: "'a sys_state_scheme \<Rightarrow> (int blocking \<times> 'a sys_state_scheme) outcome" where
  "sys_getpid k = with_proc (\<lambda>cur k. Ret (Done (sint (p_pid (procs k ! cur))), k)) k"

text \<open>\<open>sys_sleep\<close> with the lock held.\<close>

definition sys_sleep_body :: "u32 \<Rightarrow> u32 \<Rightarrow> 'a sys_state_scheme \<Rightarrow> (int blocking \<times> 'a sys_state_scheme) outcome" where
  "sys_sleep_body n ticks0 k =
     (if ticks k - ticks0 < n then
        with_proc (\<lambda>cur k.
          if p_killed (procs k ! cur) \<noteq> 0 then obind (releasek TicksLock k) (\<lambda>k. Ret (Done (- 1), k))
          else obind (sleep TicksChan (Some TicksLock) k) (\<lambda>(e, k). Ret (Blocked TicksChan e, k))) k
      else obind (releasek TicksLock k) (\<lambda>k. Ret (Done 0, k)))"

definition sys_sleep :: "'a sys_state_scheme \<Rightarrow> (int blocking \<times> 'a sys_state_scheme) outcome" where
  "sys_sleep k =
     argument (argint 0 k) (\<lambda>n k. obind (acquirek TicksLock k) (\<lambda>k. sys_sleep_body n (ticks k) k))"

definition sys_sleep_return :: "u32 \<Rightarrow> u32 \<Rightarrow> nat \<Rightarrow> u32 \<Rightarrow> 'a sys_state_scheme \<Rightarrow> (int blocking \<times> 'a sys_state_scheme) outcome" where
  "sys_sleep_return n ticks0 cur e k = obind (sleep_return cur TicksLock e k) (sys_sleep_body n ticks0)"

definition sys_uptime :: "'a sys_state_scheme \<Rightarrow> (int blocking \<times> 'a sys_state_scheme) outcome" where
  "sys_uptime k =
     obind (acquirek TicksLock k) (\<lambda>k.
       let xticks = ticks k in obind (releasek TicksLock k) (\<lambda>k. Ret (Done (sint xticks), k)))"

section \<open>Memory\<close>

text \<open>The two calls after their argument is read.\<close>

definition sbrk_op :: "u32 \<Rightarrow> 'a pstate_scheme \<Rightarrow> (int \<times> 'a pstate_scheme) outcome" where
  "sbrk_op n =
     with_proc (\<lambda>cur k.
       let addr = p_sz (procs k ! cur) in
       obind (growproc n k) (\<lambda>(r, k). Ret (if r < 0 then - 1 else sint addr, k)))"

definition shugebrk_op :: "u32 \<Rightarrow> 'a pstate_scheme \<Rightarrow> (int \<times> 'a pstate_scheme) outcome" where
  "shugebrk_op n =
     with_proc (\<lambda>cur k.
       let addr = p_hugesz (procs k ! cur) + HUGE_VA_OFFSET in
       obind (growhugeproc n k) (\<lambda>(r, k). Ret (if r < 0 then - 1 else sint addr, k)))"

definition sys_sbrk :: "'a sys_state_scheme \<Rightarrow> (int blocking \<times> 'a sys_state_scheme) outcome" where
  "sys_sbrk k = argument (argint 0 k) (\<lambda>n k. obind (sbrk_op n k) (\<lambda>(r, k). Ret (Done r, k)))"

definition sys_shugebrk :: "'a sys_state_scheme \<Rightarrow> (int blocking \<times> 'a sys_state_scheme) outcome" where
  "sys_shugebrk k = argument (argint 0 k) (\<lambda>n k. obind (shugebrk_op n k) (\<lambda>(r, k). Ret (Done r, k)))"

definition sys_setthp :: "'a sys_state_scheme \<Rightarrow> (int blocking \<times> 'a sys_state_scheme) outcome" where
  "sys_setthp k = argument (argint 0 k) (\<lambda>n k. Ret (Done 0, k\<lparr>GLOBAL_THP := sint n\<rparr>))"

definition sys_getthp :: "'a sys_state_scheme \<Rightarrow> (int blocking \<times> 'a sys_state_scheme) outcome" where
  "sys_getthp k = Ret (Done (GLOBAL_THP k), k)"

definition pde_of :: "memory \<Rightarrow> u32 \<Rightarrow> nat \<Rightarrow> u32" where
  "pde_of m pgdir i = load32 m (pgdir + 4 * of_nat i)"

definition user_huge :: "u32 \<Rightarrow> bool" where
  "user_huge e \<longleftrightarrow> e AND PTE_PS \<noteq> 0 \<and> e AND PTE_U \<noteq> 0 \<and> e AND PTE_P \<noteq> 0"

definition sys_printhugepde :: "'a sys_state_scheme \<Rightarrow> (int blocking \<times> 'a sys_state_scheme) outcome" where
  "sys_printhugepde k =
     with_proc (\<lambda>cur k.
       let pgdir = p_pgdir (procs k ! cur);
           pid = p_pid (procs k ! cur)
       in obind (ofold (\<lambda>i k.
              let e = pde_of (mem (mach k)) pgdir i in
              if user_huge e then cprintf_cons (''PID %d: PDE[%d] is 0x%x'' @ [CHR 0x0A]) [Word pid, Word (of_nat i), Word e] k
              else Ret k) [0..<1024] k) (\<lambda>k. Ret (Done 0, k))) k"

definition base_count :: "memory \<Rightarrow> u32 \<Rightarrow> nat" where
  "base_count m e =
     (if e AND PTE_U \<noteq> 0 \<and> e AND PTE_P \<noteq> 0 \<and> e AND PTE_PS = 0
      then length (filter (\<lambda>j. let t = pde_of m (P2V (PTE_ADDR e)) j in t AND PTE_U \<noteq> 0 \<and> t AND PTE_P \<noteq> 0) [0..<1024])
      else 0)"

definition sys_procpgdirinfo :: "'a sys_state_scheme \<Rightarrow> (int blocking \<times> 'a sys_state_scheme) outcome" where
  "sys_procpgdirinfo k =
     argument (argptr 0 8 k) (\<lambda>buf k.
       with_proc (\<lambda>cur k.
         let m = mem (mach k);
             es = map (pde_of m (p_pgdir (procs k ! cur))) [0..<1024];
             huge_cnt = length (filter user_huge es);
             base_cnt = sum_list (map (base_count m) es)
         in obind (vstore buf (bytes32 (of_nat base_cnt)) k) (\<lambda>k.
           obind (vstore (buf + 4) (bytes32 (of_nat huge_cnt)) k) (\<lambda>k. Ret (Done 0, k)))) k)"

section \<open>Dispatch\<close>

text \<open>
  How a call or a trap ends: it returns (a system call with its result), sleeps, gives up the CPU, or the process is gone.
\<close>

datatype service = Returns int | Sleeps chan u32 | Yields u32 | Exits

definition served :: "int blocking \<times> 'k \<Rightarrow> (service \<times> 'k) outcome" where
  "served = (\<lambda>(r, k). Ret (case r of Done v \<Rightarrow> Returns v | Blocked ch e \<Rightarrow> Sleeps ch e, k))"

definition sys_exit :: "'a sys_state_scheme \<Rightarrow> (service \<times> 'a sys_state_scheme) outcome" where
  "sys_exit k = obind (exit k) (\<lambda>k. Ret (Exits, k))"

definition syscalls :: "int \<Rightarrow> ('a sys_state_scheme \<Rightarrow> (service \<times> 'a sys_state_scheme) outcome) option" where
  "syscalls num =
     (if num = 2 then Some sys_exit
      else map_option (\<lambda>f k. obind (f k) served)
        (map_of [(1, sys_fork), (3, sys_wait), (4, sys_pipe), (5, sys_read), (6, sys_kill), (7, sys_exec), (8, sys_fstat),
           (9, sys_chdir), (10, sys_dup), (11, sys_getpid), (12, sys_sbrk), (13, sys_sleep), (14, sys_uptime), (15, sys_open),
           (16, sys_write), (17, sys_mknod), (18, sys_unlink), (19, sys_link), (20, sys_mkdir), (21, sys_close),
           (22, sys_printhugepde), (23, sys_procpgdirinfo), (24, sys_shugebrk), (25, sys_setthp), (26, sys_getthp)] num))"

definition set_result :: "nat \<Rightarrow> int \<Rightarrow> 'a pstate_scheme \<Rightarrow> 'a pstate_scheme" where
  "set_result cur r k = set_tf32 (p_tf (procs k ! cur)) tf_eax (of_int r) k"

definition syscall :: "'a sys_state_scheme \<Rightarrow> (service \<times> 'a sys_state_scheme) outcome" where
  "syscall k =
     with_proc (\<lambda>cur k.
       let num = sint (get_tf32 cur tf_eax k) in
       case syscalls num of
         Some f \<Rightarrow> obind (f k) (\<lambda>(r, k). case r of Returns v \<Rightarrow> Ret (r, set_result cur v k) | _ \<Rightarrow> Ret (r, k))
       | None \<Rightarrow>
           obind (cprintf_cons (''%d %s: unknown sys call %d'' @ [CHR 0x0A])
             [Word (p_pid (procs k ! cur)), Str (p_name (procs k ! cur)), Word (of_int num)] k) (\<lambda>k.
             Ret (Returns (- 1), set_result cur (- 1) k))) k"

section \<open>Traps\<close>

text \<open>The bytes that wait in the keyboard controller and the serial port, the fault address and the number of acknowledged interrupts.\<close>

record trap_state = sys_state +
  kbd_in :: "u8 list"
  kbd_shift :: u32
  uart_in :: "u8 list"
  cr2 :: u32
  eois :: nat

abbreviation (input) T_SYSCALL :: u32 where "T_SYSCALL \<equiv> 64"
abbreviation (input) T_IRQ0 :: u32 where "T_IRQ0 \<equiv> 32"

definition lapiceoi :: "'a trap_state_scheme \<Rightarrow> 'a trap_state_scheme" where
  "lapiceoi k = k\<lparr>eois := eois k + 1\<rparr>"

definition kbdintr :: "'a trap_state_scheme \<Rightarrow> 'a trap_state_scheme outcome" where
  "kbdintr k = (let (cs, shift) = kbd_chars (kbd_in k) (kbd_shift k) in consoleintr cs (k\<lparr>kbd_in := [], kbd_shift := shift\<rparr>))"

definition uartintr :: "'a trap_state_scheme \<Rightarrow> 'a trap_state_scheme outcome" where
  "uartintr k = consoleintr (map (\<lambda>b. int (unat b)) (uart_in k)) (k\<lparr>uart_in := []\<rparr>)"

text \<open>The interrupts and exceptions: everything but system calls.\<close>

definition trap_switch :: "u32 \<Rightarrow> 'a trap_state_scheme \<Rightarrow> 'a trap_state_scheme outcome" where
  "trap_switch tf k =
     (let m = mem (mach k);
          trapno = load32 m (tf + tf_trapno);
          eip = load32 m (tf + tf_eip);
          cs = get16 [m (tf + tf_cs), m (tf + tf_cs + 1)] 0
      in if trapno = T_IRQ0 then
           obind (cpuid k) (\<lambda>c.
             obind
               (if c = 0 then
                  obind (acquirek TicksLock k) (\<lambda>k.
                    obind (wakeup TicksChan (k\<lparr>ticks := ticks k + 1\<rparr>)) (releasek TicksLock))
                else Ret k) (\<lambda>k. Ret (lapiceoi k)))
         else if trapno = T_IRQ0 + 14 then obind (ideintr k) (\<lambda>k. Ret (lapiceoi k))
         else if trapno = T_IRQ0 + 15 then Ret k
         else if trapno = T_IRQ0 + 1 then obind (kbdintr k) (\<lambda>k. Ret (lapiceoi k))
         else if trapno = T_IRQ0 + 4 then obind (uartintr k) (\<lambda>k. Ret (lapiceoi k))
         else if trapno = T_IRQ0 + 7 \<or> trapno = T_IRQ0 + 31 then
           obind (cpuid k) (\<lambda>c.
             obind (cprintf_cons (''cpu%d: spurious interrupt at %x:%x'' @ [CHR 0x0A]) [Word (of_nat c), Word (ucast cs), Word eip] k) (\<lambda>k.
               Ret (lapiceoi k)))
         else
           obind (myproc k) (\<lambda>(p, k).
             if p = None \<or> cs AND 3 = 0 then
               obind (cpuid k) (\<lambda>c.
                 obind (cprintf_cons (''unexpected trap %d from cpu %d eip %x (cr2=0x%x)'' @ [CHR 0x0A])
                   [Word trapno, Word (of_nat c), Word eip, Word (cr2 k)] k) (\<lambda>k. Panic ''trap''))
             else
               let p = the p in
               obind (cpuid k) (\<lambda>c.
                 obind (cprintf_cons (''pid %d %s: trap %d err %d on cpu %d eip 0x%x addr 0x%x--kill proc'' @ [CHR 0x0A])
                   [Word (p_pid (procs k ! p)), Str (p_name (procs k ! p)), Word trapno, Word (load32 m (tf + tf_err)),
                    Word (of_nat c), Word eip, Word (cr2 k)] k) (\<lambda>k.
                   Ret (upd_proc p (p_killed_update (\<lambda>_. 1)) k)))))"

text \<open>\<open>exit_if\<close> is the test for a killed process in front of a call of \<open>exit\<close>.\<close>

definition exit_if :: "(proc \<Rightarrow> bool) \<Rightarrow> ('a trap_state_scheme \<Rightarrow> (service \<times> 'a trap_state_scheme) outcome) \<Rightarrow> 'a trap_state_scheme \<Rightarrow> (service \<times> 'a trap_state_scheme) outcome" where
  "exit_if P rest k =
     obind (myproc k) (\<lambda>(p, k).
       if (case p of Some p \<Rightarrow> P (procs k ! p) | None \<Rightarrow> False) then obind (exit k) (\<lambda>k. Ret (Exits, k)) else rest k)"

definition killed_user :: "u16 \<Rightarrow> proc \<Rightarrow> bool" where
  "killed_user cs p \<longleftrightarrow> p_killed p \<noteq> 0 \<and> cs AND 3 = 3"

definition trap :: "u32 \<Rightarrow> 'a trap_state_scheme \<Rightarrow> (service \<times> 'a trap_state_scheme) outcome" where
  "trap tf k =
     (let m = mem (mach k);
          trapno = load32 m (tf + tf_trapno);
          cs = get16 [m (tf + tf_cs), m (tf + tf_cs + 1)] 0
      in if trapno = T_SYSCALL then
           exit_if (\<lambda>p. p_killed p \<noteq> 0) (with_proc (\<lambda>cur k.
             obind (syscall (upd_proc cur (p_tf_update (\<lambda>_. tf)) k)) (\<lambda>(r, k).
               case r of Returns v \<Rightarrow> exit_if (\<lambda>p. p_killed p \<noteq> 0) (\<lambda>k. Ret (r, k)) k | _ \<Rightarrow> Ret (r, k)))) k
         else
           obind (trap_switch tf k)
             (exit_if (killed_user cs) (\<lambda>k.
               obind (myproc k) (\<lambda>(p, k).
                 if (case p of Some p \<Rightarrow> p_state (procs k ! p) = RUNNING | None \<Rightarrow> False) \<and> trapno = T_IRQ0 then
                   obind (yield k) (\<lambda>(e, k). Ret (Yields e, k))
                 else exit_if (killed_user cs) (\<lambda>k. Ret (Returns 0, k)) k))))"

text \<open>\<open>trap\<close> after its \<open>yield\<close>.\<close>

definition trap_return :: "u16 \<Rightarrow> u32 \<Rightarrow> 'a trap_state_scheme \<Rightarrow> (service \<times> 'a trap_state_scheme) outcome" where
  "trap_return cs e k = obind (yield_return e k) (exit_if (killed_user cs) (\<lambda>k. Ret (Returns 0, k)))"

end
