(* ===== verification/Grep.thy ===== *)
theory Grep
  imports Prelude
begin

text \<open>
  The program grep (grep.c): the regular expression matcher and the loop that cuts the input into lines. Strings are
  lists without their terminating 0.
\<close>

section \<open>The matcher\<close>

text \<open>\<open>matchstar\<close> tries the rest of the expression at every place it can reach.\<close>

function matchhere :: "string \<Rightarrow> string \<Rightarrow> bool"
  and matchstar :: "char \<Rightarrow> string \<Rightarrow> string \<Rightarrow> bool" where
  "matchhere re text =
     (case re of [] \<Rightarrow> True
      | r # re1 \<Rightarrow>
          if re1 \<noteq> [] \<and> hd re1 = CHR ''*'' then matchstar r (tl re1) text
          else if r = CHR ''$'' \<and> re1 = [] then text = []
          else case text of [] \<Rightarrow> False
            | t # text1 \<Rightarrow> if r = CHR ''.'' \<or> r = t then matchhere re1 text1 else False)"
| "matchstar c re text =
     (if matchhere re text then True
      else case text of [] \<Rightarrow> False | t # text1 \<Rightarrow> if t = c \<or> c = CHR ''.'' then matchstar c re text1 else False)"
  by pat_completeness auto

termination
  by (relation "measure (\<lambda>x. case x of Inl (re, text) \<Rightarrow> 2 * length re + length text
        | Inr (c, re, text) \<Rightarrow> 2 * length re + length text + 1)") auto

declare matchhere.simps [simp del] matchstar.simps [simp del]

primrec match_from :: "string \<Rightarrow> string \<Rightarrow> bool" where
  "match_from re [] = matchhere re []"
| "match_from re (t # text) = (if matchhere re (t # text) then True else match_from re text)"

definition match :: "string \<Rightarrow> string \<Rightarrow> bool" where
  "match re text = (if re \<noteq> [] \<and> hd re = CHR ''^'' then matchhere (tl re) text else match_from re text)"

section \<open>Lines\<close>

abbreviation (input) newline :: char where "newline \<equiv> CHR 0x0A"

text \<open>
  The inner loop of \<open>grep\<close>: what it writes, and the bytes behind the last line feed it finds. The search for a line feed stops at a
  zero byte.
\<close>

function grep_lines :: "string \<Rightarrow> string \<Rightarrow> string \<times> string" where
  "grep_lines pattern p =
     (if newline \<in> set (takeWhile (\<lambda>c. c \<noteq> CHR 0x00) p) then
        let line = takeWhile (\<lambda>c. c \<noteq> newline) p;
            (out, rest) = grep_lines pattern (tl (dropWhile (\<lambda>c. c \<noteq> newline) p))
        in ((if match pattern line then line @ [newline] else []) @ out, rest)
      else ([], p))"
  by auto

lemma tl_dropWhile_shorter: "c \<in> set p \<Longrightarrow> length (tl (dropWhile (\<lambda>x. x \<noteq> c) p)) < length p"
  by (induction p) auto

termination grep_lines
  by (relation "measure (\<lambda>(pattern, p). length p)") (auto simp del: length_tl intro!: tl_dropWhile_shorter dest: set_takeWhileD)

declare grep_lines.simps [simp del]

text \<open>
  \<open>grep\<close> on what the successive reads give: \<open>read room\<close> is asked for at most \<open>room\<close> bytes and gives them and the next reader;
  no bytes are the end of the file or an error. \<open>fuel\<close> bounds the number of reads.
\<close>

primrec grep_loop :: "('r \<Rightarrow> nat \<Rightarrow> string \<times> 'r) \<Rightarrow> string \<Rightarrow> nat \<Rightarrow> string \<Rightarrow> 'r \<Rightarrow> string option" where
  "grep_loop read pattern 0 held r = None"
| "grep_loop read pattern (Suc fuel) held r =
     (let (bs, r) = read r (1024 - length held - 1) in
      if bs = [] then Some []
      else
        let buf = held @ bs;
            (out, rest) = grep_lines pattern buf;
            held = (if rest = buf then [] else rest)
        in map_option ((@) out) (grep_loop read pattern fuel held r))"

section \<open>The meaning of an expression\<close>

text \<open>
  An expression is a sequence of characters, each of which may be repeated, and may end with \<^verbatim>\<open>$\<close>.
\<close>

datatype atom = One char | Many char

fun atoms :: "string \<Rightarrow> atom list \<times> bool" where
  "atoms [] = ([], False)"
| "atoms [r] = (if r = CHR ''$'' then ([], True) else ([One r], False))"
| "atoms (r # s # re) = (if s = CHR ''*'' then apfst ((#) (Many r)) (atoms re) else apfst ((#) (One r)) (atoms (s # re)))"

definition fits :: "char \<Rightarrow> char \<Rightarrow> bool" where
  "fits c t \<longleftrightarrow> c = CHR ''.'' \<or> c = t"

primrec words :: "atom list \<Rightarrow> string set" where
  "words [] = {[]}"
| "words (a # as) = (case a of One c \<Rightarrow> {t # w |t w. fits c t \<and> w \<in> words as}
     | Many c \<Rightarrow> {v @ w |v w. list_all (fits c) v \<and> w \<in> words as})"

definition begins :: "atom list \<times> bool \<Rightarrow> string \<Rightarrow> bool" where
  "begins e tx \<longleftrightarrow> (\<exists>m r. tx = m @ r \<and> m \<in> words (fst e) \<and> (r = [] \<or> \<not> snd e))"

lemma begins_Nil: "begins ([], z) tx \<longleftrightarrow> tx = [] \<or> \<not> z"
  by (auto simp: begins_def)

lemma begins_One:
  "begins (apfst ((#) (One c)) e) tx \<longleftrightarrow> (case tx of [] \<Rightarrow> False | t # tx \<Rightarrow> fits c t \<and> begins e tx)"
proof -
  have w: "m \<in> words (fst (apfst ((#) (One c)) e)) \<longleftrightarrow> (\<exists>t w. m = t # w \<and> fits c t \<and> w \<in> words (fst e))" for m by auto
  show ?thesis
  proof (cases tx)
    case (Cons t tx')
    have "begins (apfst ((#) (One c)) e) (t # tx') \<longleftrightarrow> fits c t \<and> begins e tx'"
    proof
      assume "begins (apfst ((#) (One c)) e) (t # tx')"
      then obtain u w r where "t # tx' = (u # w) @ r" "fits c u" "w \<in> words (fst e)" "r = [] \<or> \<not> snd e"
        unfolding begins_def w snd_apfst by (elim exE conjE) simp
      then show "fits c t \<and> begins e tx'" unfolding begins_def by auto
    next
      assume "fits c t \<and> begins e tx'"
      then obtain m r where "fits c t" "tx' = m @ r" "m \<in> words (fst e)" "r = [] \<or> \<not> snd e" unfolding begins_def by auto
      then show "begins (apfst ((#) (One c)) e) (t # tx')"
        unfolding begins_def w snd_apfst by (intro exI [of _ "t # m"] exI [of _ r]) simp
    qed
    then show ?thesis unfolding Cons list.case .
  qed (auto simp: begins_def)
qed

lemma begins_Many:
  "begins (apfst ((#) (Many c)) e) tx \<longleftrightarrow> (\<exists>v w. tx = v @ w \<and> list_all (fits c) v \<and> begins e w)"
proof -
  have w: "m \<in> words (fst (apfst ((#) (Many c)) e)) \<longleftrightarrow> (\<exists>v w. m = v @ w \<and> list_all (fits c) v \<and> w \<in> words (fst e))" for m
    by auto
  show ?thesis
  proof
    assume "begins (apfst ((#) (Many c)) e) tx"
    then obtain v w r where "tx = (v @ w) @ r" "list_all (fits c) v" "w \<in> words (fst e)" "r = [] \<or> \<not> snd e"
      unfolding begins_def w snd_apfst by (elim exE conjE) simp
    then show "\<exists>v w. tx = v @ w \<and> list_all (fits c) v \<and> begins e w"
      unfolding begins_def by (intro exI [of _ v] exI [of _ "w @ r"]) auto
  next
    assume "\<exists>v w. tx = v @ w \<and> list_all (fits c) v \<and> begins e w"
    then obtain v m r where "tx = v @ m @ r" "list_all (fits c) v" "m \<in> words (fst e)" "r = [] \<or> \<not> snd e"
      unfolding begins_def by auto
    then show "begins (apfst ((#) (Many c)) e) tx"
      unfolding begins_def w snd_apfst by (intro exI [of _ "v @ m"] exI [of _ r]) auto
  qed
qed

lemma begins_Many_step:
  "begins (apfst ((#) (Many c)) e) tx \<longleftrightarrow>
     begins e tx \<or> (case tx of [] \<Rightarrow> False | t # tx \<Rightarrow> fits c t \<and> begins (apfst ((#) (Many c)) e) tx)"
  unfolding begins_Many
proof (cases tx)
  case (Cons t tx')
  have "(\<exists>v w. t # tx' = v @ w \<and> list_all (fits c) v \<and> begins e w) \<longleftrightarrow>
      begins e (t # tx') \<or> fits c t \<and> (\<exists>v w. tx' = v @ w \<and> list_all (fits c) v \<and> begins e w)"
    (is "?l \<longleftrightarrow> ?r")
  proof
    assume ?l
    then obtain v w where v: "t # tx' = v @ w" "list_all (fits c) v" "begins e w" by blast
    then show ?r by (cases v) auto
  next
    assume ?r
    then show ?l
    proof (elim disjE exE conjE)
      assume "begins e (t # tx')"
      then show ?l by (intro exI [of _ "[]"] exI [of _ "t # tx'"]) simp
    next
      fix v w assume "fits c t" "tx' = v @ w" "list_all (fits c) v" "begins e w"
      then show ?l by (intro exI [of _ "t # v"] exI [of _ w]) simp
    qed
  qed
  then show "(\<exists>v w. tx = v @ w \<and> list_all (fits c) v \<and> begins e w) \<longleftrightarrow> begins e tx \<or>
      (case tx of [] \<Rightarrow> False | t # tx \<Rightarrow> fits c t \<and> (\<exists>v w. tx = v @ w \<and> list_all (fits c) v \<and> begins e w))"
    unfolding Cons by simp
qed auto

lemma matchhere_begins:
  "matchhere re tx \<longleftrightarrow> begins (atoms re) tx"
  "matchstar c re tx \<longleftrightarrow> begins (apfst ((#) (Many c)) (atoms re)) tx"
proof (induction re tx and c re tx rule: matchhere_matchstar.induct)
  case (1 re tx)
  show ?case
  proof (cases re rule: atoms.cases)
    case 1
    then show ?thesis by (simp add: matchhere.simps begins_Nil)
  next
    case (2 r)
    then show ?thesis
      using "1.IH"(2) by (auto simp: matchhere.simps [of _ tx] matchhere.simps [of "[]"] begins_Nil begins_One fits_def split: list.splits)
        (use begins_One [of r "([], False)"] in \<open>auto simp: begins_Nil fits_def\<close>)
  next
    case (3 r s re')
    then show ?thesis using "1.IH" by (auto simp: matchhere.simps [of _ tx] begins_One fits_def split: list.splits)
  qed
next
  case (2 c re tx)
  then show ?case
    by (subst begins_Many_step, subst matchstar.simps) (auto simp: fits_def split: list.splits)
qed

lemma match_from_begins: "match_from re tx \<longleftrightarrow> (\<exists>l r. tx = l @ r \<and> begins (atoms re) r)"
proof (induction tx)
  case (Cons t tx)
  have "(\<exists>l r. t # tx = l @ r \<and> begins (atoms re) r) \<longleftrightarrow> begins (atoms re) (t # tx) \<or> (\<exists>l r. tx = l @ r \<and> begins (atoms re) r)"
    by (auto simp: Cons_eq_append_conv)
  then show ?case using Cons by (auto simp: matchhere_begins)
qed (simp add: matchhere_begins)

section \<open>The lines of a file\<close>

text \<open>The lines of a text that end with a line feed.\<close>

function lines :: "string \<Rightarrow> string list" where
  "lines p = (if newline \<in> set p then takeWhile (\<lambda>c. c \<noteq> newline) p # lines (tl (dropWhile (\<lambda>c. c \<noteq> newline) p)) else [])"
  by auto
termination
  by (relation "measure length") (auto simp del: length_tl intro!: tl_dropWhile_shorter)

declare lines.simps [simp del]

lemma cut_line:
  "newline \<notin> set l \<Longrightarrow> takeWhile (\<lambda>c. c \<noteq> newline) (l @ newline # p) = l"
  "newline \<notin> set l \<Longrightarrow> dropWhile (\<lambda>c. c \<noteq> newline) (l @ newline # p) = newline # p"
  by (induction l) auto

lemma lines_line: "newline \<notin> set l \<Longrightarrow> lines (l @ newline # p) = l # lines p"
  by (simp add: lines.simps [of "l @ newline # p"] cut_line)

lemma lines_none: "newline \<notin> set p \<Longrightarrow> lines p = []"
  by (simp add: lines.simps)

lemma first_line: "newline \<in> set p \<Longrightarrow> \<exists>l q. p = l @ newline # q \<and> newline \<notin> set l"
  using split_list_first by fastforce

lemma no_zero: "CHR 0x00 \<notin> set p \<Longrightarrow> takeWhile (\<lambda>c. c \<noteq> CHR 0x00) p = p"
  by (simp add: takeWhile_eq_all_conv) blast

text \<open>What \<open>grep\<close> writes for a list of lines.\<close>

definition shown :: "string \<Rightarrow> string list \<Rightarrow> string" where
  "shown pattern ls = concat (map (\<lambda>l. if match pattern l then l @ [newline] else []) ls)"

lemma grep_lines_line:
  "CHR 0x00 \<notin> set (l @ newline # p) \<Longrightarrow> newline \<notin> set l \<Longrightarrow>
   grep_lines pattern (l @ newline # p) = apfst ((@) (if match pattern l then l @ [newline] else [])) (grep_lines pattern p)"
  by (subst grep_lines.simps) (simp add: no_zero cut_line split: prod.split)

lemma grep_lines_none: "newline \<notin> set p \<Longrightarrow> grep_lines pattern p = ([], p)"
  by (subst grep_lines.simps) (auto dest: set_takeWhileD)

lemma grep_lines_shown:
  assumes "CHR 0x00 \<notin> set p"
  obtains q rest where "grep_lines pattern p = (shown pattern (lines p), rest)" "p = q @ rest" "newline \<notin> set rest"
    "q = [] \<longleftrightarrow> newline \<notin> set p" "\<And>t. lines (p @ t) = lines p @ lines (rest @ t)"
  using assms
proof (induction "length p" arbitrary: p thesis rule: less_induct)
  case less
  show ?case
  proof (cases "newline \<in> set p")
    case False
    then show ?thesis by (intro less.prems(1) [of p "[]"]) (simp_all add: grep_lines_none lines_none shown_def)
  next
    case True
    then obtain l p' where p: "p = l @ newline # p'" "newline \<notin> set l" using first_line by blast
    then have len: "length p' < length p" "CHR 0x00 \<notin> set p'" using less.prems(2) by auto
    obtain q rest where I: "grep_lines pattern p' = (shown pattern (lines p'), rest)" "p' = q @ rest" "newline \<notin> set rest"
      "q = [] \<longleftrightarrow> newline \<notin> set p'" "\<And>t. lines (p' @ t) = lines p' @ lines (rest @ t)"
      by (rule less.hyps [OF len(1) _ len(2)]) blast
    show ?thesis
    proof (rule less.prems(1))
      show "grep_lines pattern p = (shown pattern (lines p), rest)"
        using grep_lines_line [OF _ p(2), of p' pattern] less.prems(2) I(1) by (simp add: p(1) lines_line [OF p(2)] shown_def)
      show "p = (l @ newline # q) @ rest" using p(1) I(2) by simp
      show "lines (p @ t) = lines p @ lines (rest @ t)" for t
        using I(5) lines_line [OF p(2)] by (simp add: p(1))
    qed (use I(3) True in simp_all)
  qed
qed

lemma lines_shorter: "l \<in> set (lines p) \<Longrightarrow> length l < length p"
proof (induction "length p" arbitrary: p rule: less_induct)
  case less
  show ?case
  proof (cases "newline \<in> set p")
    case True
    then obtain l' p' where p: "p = l' @ newline # p'" "newline \<notin> set l'" using first_line by blast
    then show ?thesis using less.prems less.hyps [of p'] by (fastforce simp: lines_line)
  qed (use less.prems in \<open>simp add: lines_none\<close>)
qed

text \<open>A file that is read from its current position.\<close>

definition file_read :: "string \<Rightarrow> nat \<Rightarrow> string \<times> string" where
  "file_read r room = (take room r, drop room r)"

text \<open>
  What \<open>grep\<close> sees of a line: whenever the buffer is full and has no line feed, its 1023 bytes are forgotten.
\<close>

definition seen :: "string \<Rightarrow> string" where
  "seen l = drop (1023 * (length l div 1023)) l"

lemma seen_full:
  assumes "length b = 1023"
  shows "seen (b @ l) = seen l"
proof -
  have "(1023 + length l) div 1023 = Suc (length l div 1023)" by simp
  then show ?thesis using assms by (simp add: seen_def)
qed

lemma seen_short: "length l < 1023 \<Longrightarrow> seen l = l"
  by (simp add: seen_def)

lemma grep_loop_seen:
  assumes "CHR 0x00 \<notin> set (held @ r)" "length held < 1023" "newline \<notin> set held" "length r < fuel"
  shows "grep_loop file_read pattern fuel held r = Some (shown pattern (map seen (lines (held @ r))))"
  using assms
proof (induction fuel arbitrary: held r)
  case (Suc fuel)
  let ?room = "1024 - length held - 1"
  let ?bs = "take ?room r" and ?r = "drop ?room r"
  have fr: "file_read r (1023 - length held) = (take (1023 - length held) r, drop (1023 - length held) r)"
    by (simp add: file_read_def)
  show ?case
  proof (cases "r = []")
    case True
    then show ?thesis using Suc.prems(3) by (simp add: file_read_def lines_none shown_def)
  next
    case False
    then have "0 < length r" by simp
    then have "length ?r < length r" unfolding length_drop using Suc.prems(2) by linarith
    moreover have "?bs \<noteq> []" using Suc.prems(2) False by simp
    ultimately have bs: "?bs \<noteq> []" "length ?r < length r" by blast+
    have buf: "held @ r = (held @ ?bs) @ ?r" by simp
    have z: "CHR 0x00 \<notin> set (held @ ?bs)" using Suc.prems(1) buf by (metis Un_iff set_append)
    obtain q rest where G: "grep_lines pattern (held @ ?bs) = (shown pattern (lines (held @ ?bs)), rest)" "held @ ?bs = q @ rest"
      "newline \<notin> set rest" "q = [] \<longleftrightarrow> newline \<notin> set (held @ ?bs)" "\<And>t. lines ((held @ ?bs) @ t) = lines (held @ ?bs) @ lines (rest @ t)"
      by (rule grep_lines_shown [OF z, of pattern]) blast
    have z': "CHR 0x00 \<notin> set (rest @ ?r)" using Suc.prems(1) unfolding buf G(2) by auto
    have all: "lines (held @ r) = lines (held @ ?bs) @ lines (rest @ ?r)" using G(5) [of ?r] unfolding buf .
    show ?thesis
    proof (cases "q = []")
      case True
      have nb: "newline \<notin> set (held @ ?bs)" using True G(4) by simp
      have e: "map seen (lines (held @ r)) = map seen (lines ([] @ ?r))"
      proof (cases "newline \<in> set ?r")
        case True
        then obtain l q' where l: "?r = l @ newline # q'" "newline \<notin> set l" using first_line by blast
        have "lines (held @ r) = ((held @ ?bs) @ l) # lines q'"
          unfolding buf l(1) using lines_line [of "(held @ ?bs) @ l" q'] nb l(2) by simp
        moreover have "length (held @ ?bs) = 1023" using True Suc.prems(2) by (cases "length r \<le> ?room") auto
        ultimately show ?thesis using seen_full [of "held @ ?bs" l] lines_line [OF l(2), of q'] by (simp only: l(1) list.map append_Nil)
      next
        case False
        then have "newline \<notin> set ((held @ ?bs) @ ?r)" using nb unfolding set_append by blast
        then have "newline \<notin> set (held @ r)" using buf by metis
        then show ?thesis using False by (simp add: lines_none)
      qed
      have "CHR 0x00 \<notin> set ([] @ ?r)" using z' by simp
      then have "grep_loop file_read pattern fuel [] ?r = Some (shown pattern (map seen (lines ([] @ ?r))))"
        using Suc.prems(4) bs(2) by (intro Suc.IH) simp_all
      then show ?thesis unfolding e using bs(1) grep_lines_none [OF nb] by (simp add: fr)
    next
      case False
      then have "rest \<noteq> held @ ?bs" "length rest < length (held @ ?bs)" unfolding G(2) by auto
      moreover have len: "length (held @ ?bs) \<le> 1023" using Suc.prems(2) by simp
      ultimately have ne: "rest \<noteq> held @ ?bs" "length rest < 1023" by linarith+
      have rec: "grep_loop file_read pattern fuel rest ?r = Some (shown pattern (map seen (lines (rest @ ?r))))"
        using Suc.IH [OF z' ne(2) G(3)] Suc.prems(4) bs(2) by simp
      have "length l < 1023" if "l \<in> set (lines (held @ ?bs))" for l
        using lines_shorter [OF that] len by linarith
      then have "map seen (lines (held @ ?bs)) = lines (held @ ?bs)" by (simp add: map_idI seen_short)
      then show ?thesis using rec ne(1) bs(1) G(1) all by (simp add: fr shown_def)
    qed
  qed
qed simp

section \<open>Properties\<close>

text \<open>
  Claim C10. The matcher accepts exactly the texts its expression describes: some part of the text is a word of the
  expression, read as a sequence of characters (\<^verbatim>\<open>.\<close> for any) that a following \<^verbatim>\<open>*\<close> repeats; the part is at the start of the text if the expression
  begins with \<^verbatim>\<open>^\<close> and at its end if the expression ends with \<^verbatim>\<open>$\<close>.
\<close>

theorem match_correct:
  assumes "anchored \<longleftrightarrow> re \<noteq> [] \<and> hd re = CHR ''^''" "e = atoms (if anchored then tl re else re)"
  shows "match re tx \<longleftrightarrow>
    (\<exists>l m r. tx = l @ m @ r \<and> m \<in> words (fst e) \<and> (anchored \<longrightarrow> l = []) \<and> (snd e \<longrightarrow> r = []))"
proof (cases anchored)
  case True
  then have "match re tx = begins e tx" using assms by (simp add: match_def matchhere_begins)
  then show ?thesis using True by (auto simp: begins_def)
next
  case False
  then have "match re tx = match_from re tx" using assms by (auto simp: match_def)
  then show ?thesis using False assms(2) by (auto simp: match_from_begins begins_def)
qed

theorem match_correct_witness:
  "match ''b.*d$'' ''abcd'' \<and> \<not> match ''^b'' ''ab''"
proof -
  have 1: "atoms ''b.*d$'' = ([One CHR ''b'', Many CHR ''.'', One CHR ''d''], True)" "atoms ''b'' = ([One CHR ''b''], False)" by simp_all
  have "''c'' @ ''d'' \<in> words [Many CHR ''.'', One CHR ''d'']" unfolding words.simps atom.case
    by (intro CollectI exI conjI) (auto simp: fits_def)
  then have w: "''bcd'' \<in> words [One CHR ''b'', Many CHR ''.'', One CHR ''d'']" by (simp add: fits_def)
  have "''abcd'' = ''a'' @ ''bcd'' @ []" "False \<longleftrightarrow> ''b.*d$'' \<noteq> [] \<and> hd ''b.*d$'' = CHR ''^''" by simp_all
  then have "match ''b.*d$'' ''abcd''"
    using match_correct [of False "''b.*d$''" _ "''abcd''", OF _ refl] w unfolding if_False 1 fst_conv by blast
  moreover have "\<not> match ''^b'' ''ab''"
    using match_correct [of True "''^b''" _ "''ab''", OF _ refl] by (auto simp: 1 fits_def)
  ultimately show ?thesis ..
qed

text \<open>
  Claim C32. \<open>grep\<close> on a file without zero bytes whose lines are shorter than 1023 bytes writes exactly the lines that
  match, in order, whatever the places where its reads cut the file; what follows the last line feed is not written.
\<close>

theorem grep_writes_matching_lines:
  assumes "CHR 0x00 \<notin> set f" "\<forall>l \<in> set (lines f). length l < 1023" "length f < fuel"
  shows "grep_loop file_read pattern fuel [] f = Some (concat (map (\<lambda>l. if match pattern l then l @ [newline] else []) (lines f)))"
proof -
  have "map seen (lines f) = lines f" using assms(2) by (simp add: map_idI seen_short)
  then show ?thesis using grep_loop_seen [of "[]" f fuel pattern] assms(1,3) by (simp add: shown_def)
qed

theorem grep_writes_matching_lines_witness:
  "grep_loop file_read ''b'' 10 [] [CHR ''a'', CHR ''b'', newline, CHR ''c'', newline, CHR ''b''] = Some [CHR ''a'', CHR ''b'', newline]"
proof -
  let ?f = "[CHR ''a'', CHR ''b'', newline, CHR ''c'', newline, CHR ''b'']"
  have l: "lines ?f = [''ab'', ''c'']" by (simp add: lines.simps)
  have m: "match ''b'' ''ab''" "\<not> match ''b'' ''c''" by (simp_all add: match_def matchhere.simps)
  show ?thesis using grep_writes_matching_lines [of ?f 10 "''b''"] unfolding l by (simp add: m)
qed

text \<open>
  Claim C33. On any file without zero bytes, \<open>grep\<close> forgets a full buffer that has no line feed: of a line of 1023 bytes or more
  it sees only what follows the last multiple of 1023 bytes. This end is what it matches against the
  expression and what it writes, and the beginning of the line appears nowhere.
\<close>

theorem grep_drops_partial_line:
  assumes "CHR 0x00 \<notin> set f" "length f < fuel"
  shows "grep_loop file_read pattern fuel [] f =
    Some (concat (map (\<lambda>l. let e = drop (1023 * (length l div 1023)) l in if match pattern e then e @ [newline] else []) (lines f)))"
  using grep_loop_seen [of "[]" f fuel pattern] assms
  unfolding shown_def seen_def map_map comp_def Let_def by simp

theorem grep_drops_partial_line_witness:
  "grep_loop file_read ''b'' 1026 [] (replicate 1023 CHR ''a'' @ [CHR ''b'', newline]) = Some [CHR ''b'', newline] \<and>
   grep_loop file_read ''a'' 1026 [] (replicate 1023 CHR ''a'' @ [CHR ''b'', newline]) = Some []"
proof -
  let ?f = "replicate 1023 CHR ''a'' @ [CHR ''b'', newline]"
  have "lines ((replicate 1023 CHR ''a'' @ ''b'') @ newline # []) = [replicate 1023 CHR ''a'' @ ''b'']"
    by (subst lines_line) (simp_all add: lines_none)
  then have l: "lines ?f = [replicate 1023 CHR ''a'' @ ''b'']" by simp
  have m: "match ''b'' ''b''" "\<not> match ''a'' ''b''" by (simp_all add: match_def matchhere.simps)
  have z: "CHR 0x00 \<notin> set ?f" "length ?f < 1026" by simp_all
  show ?thesis using grep_drops_partial_line [OF z] unfolding l by (simp add: m)
qed

end
