(* ===== verification/Sh.thy ===== *)
theory Sh
  imports Prelude
begin

text \<open>
  The parser of the shell (sh.c). A position in the command line is the rest of the line behind it, and a word, which the code
  keeps as two pointers until it terminates it with a 0, is the list of its characters.
\<close>

section \<open>Commands\<close>

abbreviation (input) MAXARGS :: nat where "MAXARGS \<equiv> 10"

datatype cmd =
    EXEC "string list"
  | REDIR cmd string u32 int
  | PIPE cmd cmd
  | LIST cmd cmd
  | BACK cmd

section \<open>Tokens\<close>

definition whitespace :: string where
  "whitespace = [CHR '' '', CHR 0x09, CHR 0x0D, CHR 0x0A, CHR 0x0B]"

definition symbols :: string where
  "symbols = ''<|>&;()''"

definition skip :: "string \<Rightarrow> string" where
  "skip s = dropWhile (\<lambda>c. c \<in> set whitespace) s"

definition word_char :: "char \<Rightarrow> bool" where
  "word_char c \<longleftrightarrow> c \<notin> set whitespace \<and> c \<notin> set symbols"

text \<open>\<open>gettoken\<close> gives the kind of the token, its characters and the position behind it and the following blanks.\<close>

definition gettoken :: "string \<Rightarrow> char \<times> string \<times> string" where
  "gettoken s = (case skip s of
     [] \<Rightarrow> (CHR 0x00, [], [])
   | c # cs \<Rightarrow>
       if c \<in> set ''|();&<'' then (c, [c], skip cs)
       else if c = CHR ''>'' then
         (if cs \<noteq> [] \<and> hd cs = CHR ''>'' then (CHR ''+'', ''>>'', skip (tl cs)) else (c, [c], skip cs))
       else (CHR ''a'', takeWhile word_char (c # cs), skip (dropWhile word_char (c # cs))))"

definition peek :: "string \<Rightarrow> string \<Rightarrow> bool" where
  "peek s toks = (case skip s of [] \<Rightarrow> False | c # _ \<Rightarrow> c \<in> set toks)"

lemma length_skip: "length (skip s) \<le> length s"
  by (simp add: skip_def length_dropWhile_le)

lemma gettoken_shorter: "skip s \<noteq> [] \<Longrightarrow> gettoken s = (tok, w, s') \<Longrightarrow> length s' < length s"
proof -
  assume ne: "skip s \<noteq> []" and g: "gettoken s = (tok, w, s')"
  obtain c cs where s: "skip s = c # cs" using ne by (cases "skip s") auto
  have l: "length cs < length s" using length_skip [of s] s by simp
  have t: "length (skip (tl cs)) \<le> length cs"
    by (rule order_trans [OF length_skip]) simp
  show ?thesis
  proof (cases "c \<in> set ''|();&<'' \<or> c = CHR ''>''")
    case True
    then show ?thesis using g s l t length_skip [of cs] by (auto simp: gettoken_def split: if_splits)
  next
    case False
    have "c \<notin> set whitespace" using s by (metis dropWhile_eq_Cons_conv skip_def)
    then have "word_char c" using False by (auto simp: word_char_def symbols_def)
    moreover have "s' = skip (dropWhile word_char (c # cs))" using g s False by (auto simp: gettoken_def)
    ultimately have "length s' \<le> length (dropWhile word_char cs)" by (simp add: length_skip)
    also have "\<dots> \<le> length cs" by (rule length_dropWhile_le)
    finally show ?thesis using l by simp
  qed
qed

lemma gettoken_word: "gettoken s = (CHR ''a'', w, s') \<Longrightarrow> skip s \<noteq> []"
  by (auto simp: gettoken_def)

lemma peek_ne: "peek s toks \<Longrightarrow> skip s \<noteq> []"
  by (auto simp: peek_def)

section \<open>Redirections\<close>

abbreviation (input) mode_read :: u32 where "mode_read \<equiv> 0"
abbreviation (input) mode_write :: u32 where "mode_write \<equiv> 0x201"

definition redircmd :: "char \<Rightarrow> string \<Rightarrow> cmd \<Rightarrow> cmd" where
  "redircmd tok file cmd =
     (if tok = CHR ''<'' then REDIR cmd file mode_read 0 else REDIR cmd file mode_write 1)"

text \<open>
  \<open>parseredirs\<close> gives the redirections as a list. They go around a command whose arguments may not be complete yet.
\<close>

function parseredirs :: "string \<Rightarrow> ((char \<times> string) list \<times> string) outcome" where
  "parseredirs s =
     (if peek s ''<>'' then
        let (tok, _, s) = gettoken s;
            (tok', file, s) = gettoken s
        in if tok' \<noteq> CHR ''a'' then Panic ''missing file for redirection''
           else obind (parseredirs s) (\<lambda>(rs, s). Ret ((tok, file) # rs, s))
      else Ret ([], skip s))"
  by auto

lemma gettoken_le: "gettoken s = (tok, w, s') \<Longrightarrow> length s' \<le> length s"
proof (cases "skip s = []")
  case True
  then show "gettoken s = (tok, w, s') \<Longrightarrow> ?thesis" by (simp add: gettoken_def)
next
  case False
  then show "gettoken s = (tok, w, s') \<Longrightarrow> ?thesis" using gettoken_shorter by (metis less_imp_le)
qed

termination parseredirs
proof (relation "measure length", goal_cases)
  case (2 s x xa y xb ya xc yb xd yc)
  then have "length s2 < length s" if "(tok, w, s1) = gettoken s" "(tok', w', s2) = gettoken s1" for tok w s1 tok' w' s2
    using peek_ne gettoken_shorter [OF _ that(1) [symmetric]] gettoken_le [OF that(2) [symmetric]] by fastforce
  then show ?case using 2 by auto
qed simp

declare parseredirs.simps [simp del]

lemma parseredirs_le: "parseredirs s = Ret (rs, s') \<Longrightarrow> length s' \<le> length s"
proof (induction s arbitrary: rs s' rule: parseredirs.induct)
  case (1 s)
  show ?case
  proof (cases "peek s ''<>''")
    case False
    then show ?thesis using 1(2) length_skip [of s] by (auto simp: parseredirs.simps [of s])
  next
    case True
    obtain tok w s1 where g1: "gettoken s = (tok, w, s1)" by (metis prod_cases3)
    obtain tok' w' s2 where g2: "gettoken s1 = (tok', w', s2)" by (metis prod_cases3)
    have "parseredirs s = (if tok' \<noteq> CHR ''a'' then Panic ''missing file for redirection''
        else obind (parseredirs s2) (\<lambda>(rs, s). Ret ((tok, w') # rs, s)))"
      using True g1 g2 by (simp add: parseredirs.simps [of s])
    then have a: "tok' = CHR ''a''" and "obind (parseredirs s2) (\<lambda>(rs, s). Ret ((tok, w') # rs, s)) = Ret (rs, s')"
      using 1(2) by (auto split: if_splits)
    then obtain rs2 where r: "parseredirs s2 = Ret (rs2, s')"
      by (auto simp: obind_eq_Ret split: prod.splits)
    have "length s' \<le> length s2" using 1(1) [OF True _ _ _ _ _ _ _ r] g1 g2 a by simp
    then show ?thesis using gettoken_le [OF g1] gettoken_le [OF g2] by simp
  qed
qed

definition redirected :: "cmd \<Rightarrow> (char \<times> string) list \<Rightarrow> cmd" where
  "redirected cmd rs = fold (\<lambda>(tok, file). redircmd tok file) rs cmd"

section \<open>Commands\<close>

text \<open>The loop of \<open>parseexec\<close>, with the arguments and the redirections so far.\<close>

function parseexec_loop :: "string list \<Rightarrow> (char \<times> string) list \<Rightarrow> string \<Rightarrow> (cmd \<times> string) outcome" where
  "parseexec_loop argv rs s =
     (if peek s ''|)&;'' then Ret (redirected (EXEC argv) rs, skip s)
      else
        let (tok, w, s') = gettoken s in
        if tok = CHR 0x00 then Ret (redirected (EXEC argv) rs, s')
        else if tok \<noteq> CHR ''a'' then Panic ''syntax''
        else if length argv + 1 \<ge> MAXARGS then Panic ''too many args''
        else obind (parseredirs s') (\<lambda>(rs', s'). parseexec_loop (argv @ [w]) (rs @ rs') s'))"
  by auto

termination parseexec_loop
proof (relation "measure (\<lambda>(argv, rs, s). length s)", goal_cases)
  case (2 argv rs s x tok y w s1 z rs' s2)
  then have "gettoken s = (CHR ''a'', w, s1)" "length s2 \<le> length s1" by (auto dest: parseredirs_le)
  then show ?case using gettoken_shorter gettoken_word by fastforce
qed simp

declare parseexec_loop.simps [simp del]

function parseback :: "cmd \<Rightarrow> string \<Rightarrow> cmd \<times> string" where
  "parseback cmd s =
     (if peek s ''&'' then let (_, _, s) = gettoken s in parseback (BACK cmd) s else (cmd, skip s))"
  by auto

termination parseback
proof (relation "measure (\<lambda>(cmd, s). length s)", goal_cases)
  case (2 cmd s x tok y w s1)
  then have "gettoken s = (tok, w, s1)" by simp
  then show ?case using 2 gettoken_shorter peek_ne by fastforce
qed simp

declare parseback.simps [simp del]

text \<open>
  The mutually recursive functions; \<open>fuel\<close> bounds the depth of the calls.
\<close>

fun parseline :: "nat \<Rightarrow> string \<Rightarrow> (cmd \<times> string) outcome"
  and parsepipe :: "nat \<Rightarrow> string \<Rightarrow> (cmd \<times> string) outcome"
  and parseblock :: "nat \<Rightarrow> string \<Rightarrow> (cmd \<times> string) outcome"
  and parseexec :: "nat \<Rightarrow> string \<Rightarrow> (cmd \<times> string) outcome" where
  "parseline 0 s = Diverge"
| "parseline (Suc n) s =
     obind (parsepipe n s) (\<lambda>(cmd, s).
       let (cmd, s) = parseback cmd s in
       if peek s '';'' then
         let (_, _, s) = gettoken s in obind (parseline n s) (\<lambda>(cmd2, s). Ret (LIST cmd cmd2, s))
       else Ret (cmd, s))"
| "parsepipe 0 s = Diverge"
| "parsepipe (Suc n) s =
     obind (parseexec n s) (\<lambda>(cmd, s).
       if peek s ''|'' then
         let (_, _, s) = gettoken s in obind (parsepipe n s) (\<lambda>(cmd2, s). Ret (PIPE cmd cmd2, s))
       else Ret (cmd, skip s))"
| "parseblock 0 s = Diverge"
| "parseblock (Suc n) s =
     (if \<not> peek s ''('' then Panic ''parseblock''
      else
        let (_, _, s) = gettoken s in
        obind (parseline n s) (\<lambda>(cmd, s).
          if \<not> peek s '')'' then Panic ''syntax - missing )''
          else
            let (_, _, s) = gettoken s in
            obind (parseredirs s) (\<lambda>(rs, s). Ret (redirected cmd rs, s))))"
| "parseexec 0 s = Diverge"
| "parseexec (Suc n) s =
     (if peek s ''('' then parseblock n s
      else obind (parseredirs s) (\<lambda>(rs, s). parseexec_loop [] rs s))"

text \<open>The depth is at most four calls for every character.\<close>

definition parsecmd :: "string \<Rightarrow> cmd outcome" where
  "parsecmd s =
     obind (parseline (4 * length s + 4) s) (\<lambda>(cmd, s). if skip s \<noteq> [] then Panic ''syntax'' else Ret cmd)"

end
