(* ===== verification/Sh_Parse.thy ===== *)
theory Sh_Parse
  imports Sh
begin

text \<open>
  The parser of the shell ends on every command line, and gives back every command that is printed as a command line.
\<close>

section \<open>The end of the recursion\<close>

lemma skip_skip [simp]: "skip (skip s) = skip s"
  by (simp add: skip_def dropWhile_idem)

lemma gettoken_skip [simp]: "gettoken (skip s) = gettoken s"
  by (simp add: gettoken_def)

lemma peek_skip [simp]: "peek (skip s) toks = peek s toks"
  by (simp add: peek_def)

lemma parseexec_loop_le: "parseexec_loop argv rs s = Ret (c, s') \<Longrightarrow> length s' \<le> length s"
proof (induction argv rs s arbitrary: c s' rule: parseexec_loop.induct)
  case (1 argv rs s)
  obtain tok w s1 where g: "gettoken s = (tok, w, s1)" by (metis prod_cases3)
  have l: "length s1 \<le> length s" by (rule gettoken_le [OF g])
  consider "peek s ''|)&;''" | "\<not> peek s ''|)&;''" "tok = CHR 0x00"
    | "\<not> peek s ''|)&;''" "tok = CHR ''a''" "length argv + 1 < MAXARGS"
    using 1(2) g by (fastforce simp: parseexec_loop.simps [of argv] split: if_splits)
  then show ?case
  proof cases
    case 1
    then show ?thesis using "1.prems" length_skip by (auto simp: parseexec_loop.simps [of argv])
  next
    case 2
    then show ?thesis using "1.prems" g l by (auto simp: parseexec_loop.simps [of argv])
  next
    case 3
    then obtain rs' s2 where r: "parseredirs s1 = Ret (rs', s2)" "parseexec_loop (argv @ [w]) (rs @ rs') s2 = Ret (c, s')"
      using "1.prems" g by (auto simp: parseexec_loop.simps [of argv])
    then have "length s' \<le> length s2" using "1.IH" [OF 3(1) g [symmetric] refl refl] 3 by simp
    then show ?thesis using parseredirs_le [OF r(1)] l by linarith
  qed
qed

lemma parseback_le: "parseback c s = (c', s') \<Longrightarrow> length s' \<le> length s"
proof (induction c s arbitrary: c' s' rule: parseback.induct)
  case (1 c s)
  obtain tok w s1 where g: "gettoken s = (tok, w, s1)" by (metis prod_cases3)
  show ?case
  proof (cases "peek s ''&''")
    case True
    then have "length s' \<le> length s1" using 1 g by (simp add: parseback.simps [of c])
    then show ?thesis using gettoken_le [OF g] by linarith
  next
    case False
    then show ?thesis using 1(2) length_skip [of s] by (auto simp: parseback.simps [of c])
  qed
qed

text \<open>A parser that leaves no more than it was given and, with enough fuel for the line, ends.\<close>

definition consumes :: "string \<Rightarrow> (cmd \<times> string) outcome \<Rightarrow> bool" where
  "consumes s r \<longleftrightarrow> (\<forall>c s'. r = Ret (c, s') \<longrightarrow> length s' \<le> length s)"

lemma parseredirs_ends: "parseredirs s \<noteq> Diverge"
proof (induction s rule: parseredirs.induct)
  case (1 s)
  obtain tok w s1 where g1: "gettoken s = (tok, w, s1)" by (metis prod_cases3)
  obtain tok' w' s2 where g2: "gettoken s1 = (tok', w', s2)" by (metis prod_cases3)
  show ?case
  proof (cases "peek s ''<>'' \<and> tok' = CHR ''a''")
    case True
    then have "parseredirs s2 \<noteq> Diverge" using 1 g1 g2 by simp
    then show ?thesis using True g1 g2 by (subst parseredirs.simps) (auto simp: obind_eq_Diverge)
  next
    case False
    then show ?thesis using g1 g2 by (subst parseredirs.simps) auto
  qed
qed

lemma parseexec_loop_ends: "parseexec_loop argv rs s \<noteq> Diverge"
proof (induction argv rs s rule: parseexec_loop.induct)
  case (1 argv rs s)
  obtain tok w s1 where g: "gettoken s = (tok, w, s1)" by (metis prod_cases3)
  show ?case
  proof (cases "\<not> peek s ''|)&;'' \<and> tok = CHR ''a'' \<and> length argv + 1 < MAXARGS")
    case True
    then have "parseexec_loop (argv @ [w]) (rs @ rs') s2 \<noteq> Diverge" if "parseredirs s1 = Ret (rs', s2)" for rs' s2
      using 1 [OF _ g [symmetric] refl refl] that by simp
    then show ?thesis using True g parseredirs_ends [of s1] by (subst parseexec_loop.simps) (auto simp: obind_eq_Diverge)
  next
    case False
    then show ?thesis using g by (subst parseexec_loop.simps) auto
  qed
qed

text \<open>The position behind the next token.\<close>

definition after :: "string \<Rightarrow> string" where
  "after s = snd (snd (gettoken s))"

lemma token_after: "(let (_, _, s) = gettoken s in f s) = f (after s)"
  by (simp add: after_def split: prod.split)

lemma after_le: "length (after s) \<le> length s"
  unfolding after_def using gettoken_le [of s "fst (gettoken s)" "fst (snd (gettoken s))" "snd (snd (gettoken s))"] by simp

lemma after_less: "peek s toks \<Longrightarrow> length (after s) < length s"
  unfolding after_def
  using gettoken_shorter [OF peek_ne, of s toks "fst (gettoken s)" "fst (snd (gettoken s))" "snd (snd (gettoken s))"] by simp

lemmas parse_simps = parseline.simps [unfolded token_after] parsepipe.simps [unfolded token_after]
  parseblock.simps [unfolded token_after] parseexec.simps

declare parseline.simps [simp del] parsepipe.simps [simp del] parseblock.simps [simp del] parseexec.simps [simp del]

lemma parse_consumes:
  "consumes s (parseline n s) \<and> consumes s (parsepipe n s) \<and> consumes s (parseblock n s) \<and> consumes s (parseexec n s)"
proof (induction n arbitrary: s)
  case 0
  then show ?case by (simp add: consumes_def parse_simps)
next
  case (Suc n)
  have IH: "parseline n s = Ret (c, s') \<Longrightarrow> length s' \<le> length s" "parsepipe n s = Ret (c, s') \<Longrightarrow> length s' \<le> length s"
    "parseblock n s = Ret (c, s') \<Longrightarrow> length s' \<le> length s" "parseexec n s = Ret (c, s') \<Longrightarrow> length s' \<le> length s" for s c s'
    using Suc [of s] by (auto simp: consumes_def)
  have line: "length s' \<le> length s" if l: "parseline (Suc n) s = Ret (c, s')" for c s'
  proof -
    obtain c1 s1 where p: "parsepipe n s = Ret (c1, s1)" using l by (auto simp: parse_simps)
    obtain c2 s2 where b: "parseback c1 s1 = (c2, s2)" by fastforce
    have "length s' \<le> length s2"
    proof (cases "peek s2 '';''")
      case True
      then obtain c3 where "parseline n (after s2) = Ret (c3, s')" using l p b by (auto simp: parse_simps)
      then show ?thesis using IH(1) [of "after s2"] after_le [of s2] by fastforce
    qed (use l p b in \<open>auto simp: parse_simps\<close>)
    then show ?thesis using IH(2) [OF p] parseback_le [OF b] by linarith
  qed
  have pipe: "length s' \<le> length s" if l: "parsepipe (Suc n) s = Ret (c, s')" for c s'
  proof -
    obtain c1 s1 where p: "parseexec n s = Ret (c1, s1)" using l by (auto simp: parse_simps)
    have "length s' \<le> length s1"
    proof (cases "peek s1 ''|''")
      case True
      then obtain c3 where "parsepipe n (after s1) = Ret (c3, s')" using l p by (auto simp: parse_simps)
      then show ?thesis using IH(2) [of "after s1"] after_le [of s1] by fastforce
    qed (use l p length_skip [of s1] in \<open>auto simp: parse_simps\<close>)
    then show ?thesis using IH(4) [OF p] by linarith
  qed
  have block: "length s' \<le> length s" if l: "parseblock (Suc n) s = Ret (c, s')" for c s'
  proof -
    obtain c1 s1 rs where p: "parseline n (after s) = Ret (c1, s1)" "parseredirs (after s1) = Ret (rs, s')"
      using l by (auto simp: parse_simps split: if_splits)
    then show ?thesis using IH(1) [OF p(1)] parseredirs_le [OF p(2)] after_le [of s] after_le [of s1] by linarith
  qed
  have "length s' \<le> length s" if l: "parseexec (Suc n) s = Ret (c, s')" for c s'
  proof (cases "peek s ''(''")
    case False
    then obtain rs s1 where "parseredirs s = Ret (rs, s1)" "parseexec_loop [] rs s1 = Ret (c, s')" using l by (auto simp: parse_simps)
    then show ?thesis using parseredirs_le parseexec_loop_le by fastforce
  qed (use l IH(3) in \<open>auto simp: parse_simps\<close>)
  then show ?case using line pipe block unfolding consumes_def by blast
qed

lemma parse_le:
  "parseline n s = Ret (c, s') \<Longrightarrow> length s' \<le> length s" "parsepipe n s = Ret (c, s') \<Longrightarrow> length s' \<le> length s"
  "parseexec n s = Ret (c, s') \<Longrightarrow> length s' \<le> length s"
  using parse_consumes [of s n] by (auto simp: consumes_def)

lemma parse_ends:
  "(4 * length s + 4 \<le> n \<longrightarrow> parseline n s \<noteq> Diverge) \<and> (4 * length s + 3 \<le> n \<longrightarrow> parsepipe n s \<noteq> Diverge) \<and>
   (4 * length s + 1 \<le> n \<longrightarrow> parseblock n s \<noteq> Diverge) \<and> (4 * length s + 2 \<le> n \<longrightarrow> parseexec n s \<noteq> Diverge)"
proof (induction n arbitrary: s)
  case 0
  then show ?case by simp
next
  case (Suc n)
  have IH: "4 * length s + 4 \<le> n \<Longrightarrow> parseline n s \<noteq> Diverge" "4 * length s + 3 \<le> n \<Longrightarrow> parsepipe n s \<noteq> Diverge"
    "4 * length s + 1 \<le> n \<Longrightarrow> parseblock n s \<noteq> Diverge" "4 * length s + 2 \<le> n \<Longrightarrow> parseexec n s \<noteq> Diverge" for s
    using Suc by auto
  have line: "parseline (Suc n) s \<noteq> Diverge" if n: "4 * length s + 4 \<le> Suc n"
  proof
    assume "parseline (Suc n) s = Diverge"
    then obtain c1 s1 where p: "parsepipe n s = Ret (c1, s1)"
      and d: "(let (cmd, s) = parseback c1 s1 in if peek s '';'' then obind (parseline n (after s)) (\<lambda>(cmd2, s). Ret (LIST cmd cmd2, s)) else Ret (cmd, s)) = Diverge"
      using IH(2) [of s] n by (auto simp: parse_simps obind_eq_Diverge)
    obtain c2 s2 where b: "parseback c1 s1 = (c2, s2)" by fastforce
    then have "peek s2 '';''" "parseline n (after s2) = Diverge" using d by (auto simp: obind_eq_Diverge split: if_splits)
    moreover have "length s2 \<le> length s" using parse_le(2) [OF p] parseback_le [OF b] by linarith
    ultimately show False using IH(1) [of "after s2"] after_less [of s2] n by fastforce
  qed
  have pipe: "parsepipe (Suc n) s \<noteq> Diverge" if n: "4 * length s + 3 \<le> Suc n"
  proof
    assume "parsepipe (Suc n) s = Diverge"
    then obtain c1 s1 where p: "parseexec n s = Ret (c1, s1)" "peek s1 ''|''" "parsepipe n (after s1) = Diverge"
      using IH(4) [of s] n by (auto simp: parse_simps obind_eq_Diverge split: if_splits)
    then show False using IH(2) [of "after s1"] after_less [of s1] parse_le(3) [OF p(1)] n by fastforce
  qed
  have block: "parseblock (Suc n) s \<noteq> Diverge" if n: "4 * length s + 1 \<le> Suc n"
  proof
    assume "parseblock (Suc n) s = Diverge"
    then have "peek s ''(''" "parseline n (after s) = Diverge"
      using parseredirs_ends by (auto simp: parse_simps obind_eq_Diverge split: if_splits)
    then show False using IH(1) [of "after s"] after_less [of s] n by fastforce
  qed
  have "parseexec (Suc n) s \<noteq> Diverge" if n: "4 * length s + 2 \<le> Suc n"
    using IH(3) [of s] n parseredirs_ends [of s] parseexec_loop_ends by (auto simp: parse_simps obind_eq_Diverge)
  then show ?case using line pipe block by blast
qed

section \<open>Printing\<close>

definition word_ok :: "string \<Rightarrow> bool" where
  "word_ok w \<longleftrightarrow> w \<noteq> [] \<and> list_all word_char w"

text \<open>A command as a command line, with every part in parentheses.\<close>

primrec line :: "cmd \<Rightarrow> string" where
  "line (EXEC argv) = concat (map (\<lambda>w. w @ '' '') argv)"
| "line (REDIR c f m fd) = ''('' @ line c @ '')'' @ (if fd = 0 then ''<'' else ''>'') @ f"
| "line (PIPE a b) = ''('' @ line a @ '')|('' @ line b @ '')''"
| "line (LIST a b) = ''('' @ line a @ '');('' @ line b @ '')''"
| "line (BACK a) = ''('' @ line a @ '')&''"

primrec cmd_ok :: "cmd \<Rightarrow> bool" where
  "cmd_ok (EXEC argv) \<longleftrightarrow> length argv < MAXARGS \<and> list_all word_ok argv"
| "cmd_ok (REDIR c f m fd) \<longleftrightarrow> cmd_ok c \<and> word_ok f \<and> (m = mode_read \<and> fd = 0 \<or> m = mode_write \<and> fd = 1)"
| "cmd_ok (PIPE a b) \<longleftrightarrow> cmd_ok a \<and> cmd_ok b"
| "cmd_ok (LIST a b) \<longleftrightarrow> cmd_ok a \<and> cmd_ok b"
| "cmd_ok (BACK a) \<longleftrightarrow> cmd_ok a"

text \<open>What may follow a command line: nothing, or a closing parenthesis.\<close>

definition closed :: "string \<Rightarrow> bool" where
  "closed t \<longleftrightarrow> skip t = [] \<or> hd (skip t) = CHR '')''"

lemma skip_stop: "c \<notin> set whitespace \<Longrightarrow> skip (c # s) = c # s"
  by (simp add: skip_def)

lemma skip_sym [simp]: "c \<in> set ''|();&<>'' \<Longrightarrow> skip (c # s) = c # s"
  by (intro skip_stop) (auto simp: whitespace_def)

lemma skip_blank [simp]: "skip (CHR '' '' # s) = skip s"
  by (simp add: skip_def whitespace_def)

lemma skip_Nil [simp]: "skip [] = []"
  by (simp add: skip_def)

lemma peek_sym: "c \<in> set ''|();&<>'' \<Longrightarrow> peek (c # s) toks \<longleftrightarrow> c \<in> set toks"
  by (simp add: peek_def)

lemma after_sym: "c \<in> set ''|();&<'' \<Longrightarrow> after (c # s) = skip s"
  using skip_sym [of c s] by (auto simp: after_def gettoken_def simp del: skip_sym)

lemma word_ok_Cons:
  assumes "word_ok w"
  obtains c cs where "w = c # cs" "word_char c" "skip (w @ t) = w @ t"
proof -
  obtain c cs where w: "w = c # cs" using assms by (cases w) (auto simp: word_ok_def)
  have "word_char c" using assms w by (simp add: word_ok_def)
  then show ?thesis using that [OF w] skip_stop [of c] w by (simp add: word_char_def)
qed

lemma gettoken_wd:
  assumes w: "word_ok w" and t: "t = [] \<or> \<not> word_char (hd t)"
  shows "gettoken (w @ t) = (CHR ''a'', w, skip t)"
proof -
  obtain c cs where c: "w = c # cs" "word_char c" "skip (w @ t) = w @ t" by (rule word_ok_Cons [OF w])
  have n: "c \<notin> set ''|();&<''" "c \<noteq> CHR ''>''" using c(2) by (auto simp: word_char_def symbols_def)
  have a: "takeWhile word_char (w @ t) = w" "dropWhile word_char (w @ t) = t"
    using w t by (cases t; auto simp: word_ok_def list_all_iff takeWhile_append dropWhile_append)+
  show ?thesis unfolding gettoken_def c(3) using a n unfolding c(1) by simp
qed

lemma closed_word_end: "closed t \<Longrightarrow> t = [] \<or> \<not> word_char (hd t)"
  by (cases t) (auto simp: closed_def word_char_def symbols_def skip_def split: if_splits)

lemma closed_peek: "closed t \<Longrightarrow> CHR '')'' \<notin> set toks \<Longrightarrow> \<not> peek t toks"
  by (auto simp: closed_def peek_def split: list.splits)

lemma parseredirs_none: "\<not> peek t ''<>'' \<Longrightarrow> parseredirs t = Ret ([], skip t)"
  by (subst parseredirs.simps) simp

lemma parseredirs_one:
  assumes "r \<in> set ''<>''" "word_ok f" "closed t"
  shows "parseredirs (r # f @ t) = Ret ([(r, f)], skip t)"
proof -
  obtain c cs where c: "f = c # cs" "word_char c" "skip (f @ t) = f @ t" by (rule word_ok_Cons [OF assms(2)])
  have "c \<noteq> CHR ''>''" using c(2) by (auto simp: word_char_def symbols_def)
  then have g: "gettoken (r # f @ t) = (r, [r], f @ t)"
    using assms(1) c skip_sym [of r "f @ t"] by (auto simp: gettoken_def)
  have "parseredirs (skip t) = Ret ([], skip t)" using parseredirs_none [of "skip t"] closed_peek [OF assms(3), of "''<>''"] by simp
  then show ?thesis
    using assms(1) gettoken_wd [OF assms(2) closed_word_end [OF assms(3)]]
    by (subst parseredirs.simps) (simp add: peek_sym g)
qed

lemma parseredirs_skip: "parseredirs (skip s) = parseredirs s"
  by (subst (1 2) parseredirs.simps) simp

lemma parseexec_loop_skip: "parseexec_loop argv rs (skip s) = parseexec_loop argv rs s"
  by (subst (1 2) parseexec_loop.simps) simp

lemma parse_skip: "parseexec n (skip s) = parseexec n s" "parsepipe n (skip s) = parsepipe n s" "parseline n (skip s) = parseline n s"
proof -
  have b: "parseblock n (skip s) = parseblock n s" for n
    by (cases n) (simp_all add: parse_simps after_def)
  show e: "parseexec n (skip s) = parseexec n s" for n
    by (cases n) (simp_all add: parse_simps b parseredirs_skip)
  show p: "parsepipe n (skip s) = parsepipe n s" for n
    by (cases n) (simp_all add: parse_simps e)
  show "parseline n (skip s) = parseline n s"
    by (cases n) (simp_all add: parse_simps p)
qed

lemma exec_words:
  assumes "list_all word_ok ws" "length argv + length ws < MAXARGS" "closed t"
  shows "parseexec_loop argv [] (concat (map (\<lambda>w. w @ '' '') ws) @ t) = Ret (EXEC (argv @ ws), skip t)"
  using assms
proof (induction ws arbitrary: argv)
  case Nil
  show ?case
  proof (cases "skip t = []")
    case True
    then show ?thesis by (subst parseexec_loop.simps) (simp add: peek_def gettoken_def redirected_def)
  next
    case False
    then have "peek t ''|)&;''" using Nil(3) by (cases "skip t") (auto simp: closed_def peek_def)
    then show ?thesis by (subst parseexec_loop.simps) (simp add: redirected_def)
  qed
next
  case (Cons w ws)
  let ?r = "concat (map (\<lambda>w. w @ '' '') ws) @ t"
  have w: "word_ok w" using Cons.prems(1) by simp
  obtain c cs where c: "w = c # cs" "word_char c" "skip (w @ '' '' @ ?r) = w @ '' '' @ ?r" by (rule word_ok_Cons [OF w])
  have g: "gettoken (w @ '' '' @ ?r) = (CHR ''a'', w, skip ?r)"
    using gettoken_wd [OF w, of "'' '' @ ?r"] by (simp add: word_char_def whitespace_def)
  have np: "\<not> peek (w @ '' '' @ ?r) ''|)&;''"
    using c by (auto simp: peek_def word_char_def symbols_def)
  have "\<not> peek ?r ''<>''"
  proof (cases ws)
    case Nil
    then show ?thesis using closed_peek [OF Cons.prems(3)] by simp
  next
    case C: (Cons v vs)
    then have v: "word_ok v" using Cons.prems(1) by simp
    obtain d ds where "v = d # ds" "word_char d" "skip (v @ '' '' @ concat (map (\<lambda>w. w @ '' '') vs) @ t) = v @ '' '' @ concat (map (\<lambda>w. w @ '' '') vs) @ t"
      by (rule word_ok_Cons [OF v])
    then show ?thesis using C by (auto simp: peek_def word_char_def symbols_def)
  qed
  then have "parseredirs (skip ?r) = Ret ([], skip ?r)" using parseredirs_none by (simp add: parseredirs_skip)
  then have "parseexec_loop argv [] (w @ '' '' @ ?r) = parseexec_loop (argv @ [w]) [] ?r"
    using np g Cons.prems(2) by (subst parseexec_loop.simps) (simp add: parseexec_loop_skip)
  then show ?case using Cons.IH [of "argv @ [w]"] Cons.prems by simp
qed

section \<open>Reading back\<close>

text \<open>What the recursion gives for a part of a command.\<close>

definition reads :: "cmd \<Rightarrow> bool" where
  "reads c \<longleftrightarrow> (\<forall>t n. closed t \<longrightarrow> 4 * length (line c @ t) + 4 \<le> n \<longrightarrow> parseline n (line c @ t) = Ret (c, skip t))"

lemma closed_paren [simp]: "closed (CHR '')'' # t)"
  by (simp add: closed_def)

lemma parse_block:
  assumes "reads c" "4 * length (line c @ CHR '')'' # t) + 6 \<le> n"
  shows "parseexec n (CHR ''('' # line c @ CHR '')'' # t) = obind (parseredirs t) (\<lambda>(rs, s). Ret (redirected c rs, s))"
proof -
  obtain m where n: "n = Suc (Suc m)" "4 * length (line c @ CHR '')'' # t) + 4 \<le> m" using assms(2) by (cases n; cases "n - 1") auto
  have "parseline m (line c @ CHR '')'' # t) = Ret (c, CHR '')'' # t)"
    using assms(1) n(2) unfolding reads_def by (metis closed_paren skip_sym list.set_intros(1) list.set_intros(2))
  then show ?thesis by (simp add: n(1) parse_simps peek_sym after_sym parse_skip parseredirs_skip)
qed

lemma redirected_none [simp]: "redirected c [] = c"
  by (simp add: redirected_def)

lemma parse_unit:
  assumes "reads c" "4 * length (line c @ CHR '')'' # t) + 6 \<le> n" "\<not> peek t ''<>''"
  shows "parseexec n (CHR ''('' # line c @ CHR '')'' # t) = Ret (c, skip t)"
  using parse_block [OF assms(1,2)] parseredirs_none [OF assms(3)] by simp

text \<open>The end of a line.\<close>

lemma parseback_closed: "closed t \<Longrightarrow> parseback c t = (c, skip t)"
  using closed_peek [of t "''&''"] by (subst parseback.simps) simp

lemma parsepipe_end:
  assumes "parseexec n s = Ret (c, skip t)" "\<not> peek t ''|''"
  shows "parsepipe (Suc n) s = Ret (c, skip t)"
  using assms by (simp add: parse_simps)

lemma parseline_end:
  assumes "parsepipe n s = Ret (c, skip t)" "closed t"
  shows "parseline (Suc n) s = Ret (c, skip t)"
  using assms parseback_closed [of "skip t"] closed_peek [OF assms(2), of "'';''"] by (simp add: parse_simps closed_def)

lemma reads_exec:
  assumes "cmd_ok (EXEC argv)"
  shows "reads (EXEC argv)"
  unfolding reads_def
proof (intro allI impI)
  fix t n assume t: "closed t" and n: "4 * length (line (EXEC argv) @ t) + 4 \<le> n"
  obtain m where m: "n = Suc (Suc (Suc m))" using n by (cases n; cases "n - 1"; cases "n - 2") auto
  let ?s = "line (EXEC argv) @ t"
  have np: "\<not> peek ?s toks" if "set toks \<subseteq> set ''(<>''" for toks
  proof (cases argv)
    case Nil
    then show ?thesis using closed_peek [OF t] that by auto
  next
    case (Cons v vs)
    then have v: "word_ok v" using assms by simp
    obtain d ds where "v = d # ds" "word_char d" "skip (v @ '' '' @ concat (map (\<lambda>w. w @ '' '') vs) @ t) = v @ '' '' @ concat (map (\<lambda>w. w @ '' '') vs) @ t"
      by (rule word_ok_Cons [OF v])
    then show ?thesis using Cons that by (auto simp: peek_def word_char_def symbols_def)
  qed
  have "parseexec_loop [] [] ?s = Ret (EXEC argv, skip t)" using exec_words [of argv "[]" t] assms t by simp
  then have "parseexec (Suc m) ?s = Ret (EXEC argv, skip t)"
    using parseredirs_none [OF np] np [of "''(''"] by (simp add: parse_simps parseexec_loop_skip)
  then show "parseline n ?s = Ret (EXEC argv, skip t)"
    unfolding m using parsepipe_end parseline_end closed_peek [OF t, of "''|''"] t by simp
qed

lemma reads_redir:
  assumes "reads c" "cmd_ok (REDIR c f m fd)"
  shows "reads (REDIR c f m fd)"
  unfolding reads_def
proof (intro allI impI)
  fix t n assume t: "closed t" and n: "4 * length (line (REDIR c f m fd) @ t) + 4 \<le> n"
  obtain k where k: "n = Suc (Suc k)" using n by (cases n; cases "n - 1") auto
  define r where "r = (if fd = 0 then CHR ''<'' else CHR ''>'')"
  have s: "line (REDIR c f m fd) @ t = CHR ''('' # line c @ CHR '')'' # (r # f @ t)" by (simp add: r_def)
  have "redirected c [(r, f)] = REDIR c f m fd" using assms(2) by (auto simp: redirected_def redircmd_def r_def)
  moreover have "parseredirs (r # f @ t) = Ret ([(r, f)], skip t)" using assms(2) t by (intro parseredirs_one) (simp_all add: r_def)
  ultimately have "parseexec k (CHR ''('' # line c @ CHR '')'' # (r # f @ t)) = Ret (REDIR c f m fd, skip t)"
    using parse_block [of c "r # f @ t" k] assms n [unfolded s] k by simp
  then show "parseline n (line (REDIR c f m fd) @ t) = Ret (REDIR c f m fd, skip t)"
    unfolding k s using parsepipe_end parseline_end closed_peek [OF t, of "''|''"] t by simp
qed

lemma reads_pipe:
  assumes "reads a" "reads b"
  shows "reads (PIPE a b)"
  unfolding reads_def
proof (intro allI impI)
  fix t n assume t: "closed t" and n: "4 * length (line (PIPE a b) @ t) + 4 \<le> n"
  obtain k where k: "n = Suc (Suc (Suc k))" using n by (cases n; cases "n - 1"; cases "n - 2") auto
  let ?b = "CHR ''('' # line b @ CHR '')'' # t"
  have s: "line (PIPE a b) @ t = CHR ''('' # line a @ CHR '')'' # CHR ''|'' # ?b" by simp
  have "parseexec (Suc k) (CHR ''('' # line a @ CHR '')'' # CHR ''|'' # ?b) = Ret (a, CHR ''|'' # ?b)"
    using parse_unit [of a "CHR ''|'' # ?b" "Suc k"] assms n k by (simp add: peek_sym)
  moreover have "parseexec k ?b = Ret (b, skip t)"
    using parse_unit [of b t k] assms n k closed_peek [OF t, of "''<>''"] by simp
  then have "parsepipe (Suc k) ?b = Ret (b, skip t)" using closed_peek [OF t, of "''|''"] by (intro parsepipe_end) simp_all
  ultimately have "parsepipe (Suc (Suc k)) (line (PIPE a b) @ t) = Ret (PIPE a b, skip t)"
    unfolding s by (simp add: parse_simps(4) peek_sym after_sym)
  then show "parseline n (line (PIPE a b) @ t) = Ret (PIPE a b, skip t)" unfolding k by (rule parseline_end [OF _ t])
qed

lemma reads_list:
  assumes "reads a" "reads b"
  shows "reads (LIST a b)"
  unfolding reads_def
proof (intro allI impI)
  fix t n assume t: "closed t" and n: "4 * length (line (LIST a b) @ t) + 4 \<le> n"
  obtain k where k: "n = Suc (Suc (Suc k))" using n by (cases n; cases "n - 1"; cases "n - 2") auto
  let ?b = "CHR ''('' # line b @ CHR '')'' # t"
  have s: "line (LIST a b) @ t = CHR ''('' # line a @ CHR '')'' # CHR '';'' # ?b" by simp
  have "parseexec (Suc k) (CHR ''('' # line a @ CHR '')'' # CHR '';'' # ?b) = Ret (a, skip (CHR '';'' # ?b))"
    using parse_unit [of a "CHR '';'' # ?b" "Suc k"] assms n k by (simp add: peek_sym)
  then have p: "parsepipe (Suc (Suc k)) (line (LIST a b) @ t) = Ret (a, skip (CHR '';'' # ?b))"
    unfolding s by (rule parsepipe_end) (simp add: peek_sym)
  have "parseexec k ?b = Ret (b, skip t)"
    using parse_unit [of b t k] assms n k closed_peek [OF t, of "''<>''"] by simp
  then have "parsepipe (Suc k) ?b = Ret (b, skip t)" using closed_peek [OF t, of "''|''"] by (intro parsepipe_end) simp_all
  then have "parseline (Suc (Suc k)) ?b = Ret (b, skip t)" by (rule parseline_end [OF _ t])
  then show "parseline n (line (LIST a b) @ t) = Ret (LIST a b, skip t)"
    unfolding k using p by (simp add: parse_simps(2) [of "Suc (Suc k)"] parseback.simps peek_sym after_sym)
qed

lemma reads_back:
  assumes "reads a"
  shows "reads (BACK a)"
  unfolding reads_def
proof (intro allI impI)
  fix t n assume t: "closed t" and n: "4 * length (line (BACK a) @ t) + 4 \<le> n"
  obtain k where k: "n = Suc (Suc k)" using n by (cases n; cases "n - 1") auto
  have s: "line (BACK a) @ t = CHR ''('' # line a @ CHR '')'' # CHR ''&'' # t" by simp
  have "parseexec k (CHR ''('' # line a @ CHR '')'' # CHR ''&'' # t) = Ret (a, skip (CHR ''&'' # t))"
    using parse_unit [of a "CHR ''&'' # t" k] assms n k by (simp add: peek_sym)
  then have p: "parsepipe (Suc k) (line (BACK a) @ t) = Ret (a, skip (CHR ''&'' # t))"
    unfolding s by (rule parsepipe_end) (simp add: peek_sym)
  have "closed (skip t)" using t by (simp add: closed_def)
  then have "parseback (BACK a) (skip t) = (BACK a, skip t)" using parseback_closed by fastforce
  then have "parseback a (CHR ''&'' # t) = (BACK a, skip t)"
    by (subst parseback.simps) (simp add: token_after peek_sym after_sym)
  then show "parseline n (line (BACK a) @ t) = Ret (BACK a, skip t)"
    unfolding k using p closed_peek [OF t, of "'';''"] by (simp add: parse_simps(2) [of "Suc k"])
qed

lemma cmd_reads: "cmd_ok c \<Longrightarrow> reads c"
  by (induction c) (auto intro!: reads_exec reads_redir reads_pipe reads_list reads_back)

section \<open>Properties\<close>

text \<open>
  Claim C34. The parser of the shell ends on every command line: the depth of its recursion is bounded by four calls for
  each character, and it gives a command or stops with an error message.
\<close>

theorem parsecmd_ends: "parsecmd s \<noteq> Diverge"
  using parse_ends [of s "4 * length s + 4"] by (auto simp: parsecmd_def obind_eq_Diverge)

text \<open>
  Claim C9. Every command can be typed: printed with all its parts in parentheses, a command of at most nine words without
  blanks and symbols, with redirections, pipes, lists and background parts nested to any depth, parses to itself.
\<close>

theorem parsecmd_line:
  assumes "cmd_ok c"
  shows "parsecmd (line c) = Ret c"
proof -
  have "closed []" by (simp add: closed_def)
  then have "parseline (4 * length (line c) + 4) (line c @ []) = Ret (c, skip [])"
    using cmd_reads [OF assms] unfolding reads_def by (metis append_Nil2 order_refl)
  then show ?thesis by (simp add: parsecmd_def)
qed

theorem parsecmd_line_witness:
  "parsecmd ''((ls -l )<f)|((wc )&)'' = Ret (PIPE (REDIR (EXEC [''ls'', ''-l'']) ''f'' mode_read 0) (BACK (EXEC [''wc''])))"
  using parsecmd_line [of "PIPE (REDIR (EXEC [''ls'', ''-l'']) ''f'' mode_read 0) (BACK (EXEC [''wc'']))"]
  by (simp add: word_ok_def word_char_def whitespace_def symbols_def)

end
