(* ===== verification/Umalloc.thy ===== *)
theory Umalloc
  imports Layout
begin

text \<open>
  The user-level allocator (umalloc.c): two pools of free blocks, one in 4 KB pages and one in 4 MB pages, each a circular list
  in ascending order of addresses.

  Memory is seen as the headers at their addresses. What the kernel's calls \<^verbatim>\<open>sbrk\<close>, \<^verbatim>\<open>shugebrk\<close> and \<^verbatim>\<open>getthp\<close> do is a
  parameter of the allocator, with a state of their own.
\<close>

section \<open>State\<close>

record 'os umem =
  h_ptr :: "u32 \<Rightarrow> u32"
  h_size :: "u32 \<Rightarrow> u32"
  freep :: u32
  hugefreep :: u32
  os :: 'os
  uout :: "string list"

text \<open>The addresses of \<^verbatim>\<open>base\<close> and \<^verbatim>\<open>hugebase\<close>, and the kernel: \<^verbatim>\<open>-1\<close> is the failure of a call.\<close>

record 'os kernel =
  base_addr :: u32
  hugebase_addr :: u32
  sbrk :: "u32 \<Rightarrow> 'os \<Rightarrow> u32 \<times> 'os"
  shugebrk :: "u32 \<Rightarrow> 'os \<Rightarrow> u32 \<times> 'os"
  getthp :: "'os \<Rightarrow> int"

abbreviation (input) HDR :: u32 where "HDR \<equiv> 8"
abbreviation (input) VMALLOC_SIZE_BASE :: u32 where "VMALLOC_SIZE_BASE \<equiv> 0"
abbreviation (input) VMALLOC_SIZE_HUGE :: u32 where "VMALLOC_SIZE_HUGE \<equiv> 1"

definition set_ptr :: "u32 \<Rightarrow> u32 \<Rightarrow> 'os umem \<Rightarrow> 'os umem" where
  "set_ptr a v u = u\<lparr>h_ptr := (h_ptr u)(a := v)\<rparr>"

definition set_size :: "u32 \<Rightarrow> u32 \<Rightarrow> 'os umem \<Rightarrow> 'os umem" where
  "set_size a v u = u\<lparr>h_size := (h_size u)(a := v)\<rparr>"

text \<open>The entry point of the pool, for 4 MB pages or for 4 KB pages.\<close>

definition free_ptr :: "bool \<Rightarrow> 'os umem \<Rightarrow> u32" where
  "free_ptr hg u = (if hg then hugefreep u else freep u)"

definition set_free_ptr :: "bool \<Rightarrow> u32 \<Rightarrow> 'os umem \<Rightarrow> 'os umem" where
  "set_free_ptr hg p u = (if hg then u\<lparr>hugefreep := p\<rparr> else u\<lparr>freep := p\<rparr>)"

definition pool_base :: "bool \<Rightarrow> 'os kernel \<Rightarrow> u32" where
  "pool_base hg sys = (if hg then hugebase_addr sys else base_addr sys)"

section \<open>Freeing\<close>

text \<open>The place in the list for the block at \<open>bp\<close>. The search does not end when the list is damaged.\<close>

partial_function (option) find_prev :: "(u32 \<Rightarrow> u32) \<Rightarrow> u32 \<Rightarrow> u32 \<Rightarrow> u32 option" where
  "find_prev nxt bp p =
     (if bp > p \<and> bp < nxt p then Some p
      else if p \<ge> nxt p \<and> (bp > p \<or> bp < nxt p) then Some p
      else find_prev nxt bp (nxt p))"

text \<open>The block joins its upper neighbour and its lower neighbour where they touch.\<close>

definition join_upper :: "u32 \<Rightarrow> u32 \<Rightarrow> 'os umem \<Rightarrow> 'os umem" where
  "join_upper bp p u =
     (let q = h_ptr u p in
      if bp + HDR * h_size u bp = q
      then set_ptr bp (h_ptr u q) (set_size bp (h_size u bp + h_size u q) u)
      else set_ptr bp q u)"

definition join_lower :: "u32 \<Rightarrow> u32 \<Rightarrow> 'os umem \<Rightarrow> 'os umem" where
  "join_lower bp p u =
     (if p + HDR * h_size u p = bp
      then set_ptr p (h_ptr u bp) (set_size p (h_size u p + h_size u bp) u)
      else set_ptr p bp u)"

definition vfree :: "u32 \<Rightarrow> 'os umem \<Rightarrow> 'os umem option" where
  "vfree ap u =
     (let hg = (ap \<ge> HUGE_PAGE_START);
          bp = ap - HDR
      in case find_prev (h_ptr u) bp (free_ptr hg u) of None \<Rightarrow> None
         | Some p \<Rightarrow> Some (set_free_ptr hg p (join_lower bp p (join_upper bp p u))))"

definition free :: "u32 \<Rightarrow> 'os umem \<Rightarrow> 'os umem option" where
  "free ap u = vfree ap u"

section \<open>Allocating\<close>

text \<open>More memory from the kernel: the new entry point, or 0.\<close>

definition morecore :: "'os kernel \<Rightarrow> u32 \<Rightarrow> 'os umem \<Rightarrow> (u32 \<times> 'os umem) option" where
  "morecore sys nu u =
     (let nu = (if nu < 4096 then 4096 else nu);
          (p, s) = sbrk sys (nu * HDR) (os u);
          u = u\<lparr>os := s\<rparr>
      in if p = - 1 then Some (0, u)
         else case vfree (p + HDR) (set_size p nu u) of None \<Rightarrow> None | Some u \<Rightarrow> Some (freep u, u))"

definition morehugecore :: "'os kernel \<Rightarrow> u32 \<Rightarrow> 'os umem \<Rightarrow> (u32 \<times> 'os umem) option" where
  "morehugecore sys nu u =
     (let nu = (if nu < HUGE_PAGE_SIZE div HDR then HUGE_PAGE_SIZE div HDR else nu);
          (p, s) = shugebrk sys (nu * HDR) (os u);
          u = u\<lparr>os := s\<rparr>
      in if p = - 1 then Some (0, u)
         else case vfree (p + HDR) (set_size p nu u) of None \<Rightarrow> None | Some u \<Rightarrow> Some (hugefreep u, u))"

text \<open>Taking \<open>nunits\<close> units from the block at \<open>p\<close>, whose predecessor is \<open>prevp\<close>.\<close>

definition take_units :: "bool \<Rightarrow> u32 \<Rightarrow> u32 \<Rightarrow> u32 \<Rightarrow> 'os umem \<Rightarrow> u32 \<times> 'os umem" where
  "take_units hg nunits prevp p u =
     (if h_size u p = nunits then (p + HDR, set_free_ptr hg prevp (set_ptr prevp (h_ptr u p) u))
      else
        let u = set_size p (h_size u p - nunits) u;
            p = p + HDR * h_size u p;
            u = set_size p nunits u
        in (p + HDR, set_free_ptr hg prevp u))"

text \<open>The loop of \<open>malloc\<close> and of \<open>vmalloc\<close>, which differ in the pool.\<close>

partial_function (option) alloc_loop ::
  "(u32 \<Rightarrow> 'os umem \<Rightarrow> (u32 \<times> 'os umem) option) \<Rightarrow> bool \<Rightarrow> u32 \<Rightarrow> u32 \<Rightarrow> u32 \<Rightarrow> 'os umem \<Rightarrow> (u32 \<times> 'os umem) option" where
  "alloc_loop grow hg nunits prevp p u =
     (if h_size u p \<ge> nunits then Some (take_units hg nunits prevp p u)
      else if p = free_ptr hg u then
        (case grow nunits u of None \<Rightarrow> None
         | Some (p, u) \<Rightarrow> if p = 0 then Some (0, u) else alloc_loop grow hg nunits p (h_ptr u p) u)
      else alloc_loop grow hg nunits p (h_ptr u p) u)"

definition units :: "u32 \<Rightarrow> u32" where
  "units nbytes = (nbytes + HDR - 1) div HDR + 1"

definition init_pool :: "'os kernel \<Rightarrow> bool \<Rightarrow> 'os umem \<Rightarrow> 'os umem" where
  "init_pool sys hg u =
     (if free_ptr hg u = 0 then
        let b = pool_base hg sys in set_size b 0 (set_free_ptr hg b (set_ptr b b u))
      else u)"

definition alloc_units :: "'os kernel \<Rightarrow> bool \<Rightarrow> u32 \<Rightarrow> 'os umem \<Rightarrow> (u32 \<times> 'os umem) option" where
  "alloc_units sys hg nunits u =
     (let u = init_pool sys hg u; prevp = free_ptr hg u
      in alloc_loop (if hg then morehugecore sys else morecore sys) hg nunits prevp (h_ptr u prevp) u)"

definition malloc :: "'os kernel \<Rightarrow> u32 \<Rightarrow> 'os umem \<Rightarrow> (u32 \<times> 'os umem) option" where
  "malloc sys nbytes u =
     (if nbytes > 1000000 \<and> getthp sys (os u) \<noteq> 0
      then alloc_units sys True (units nbytes) (u\<lparr>uout := uout u @ [''Triggered thp'' @ [CHR 0x0A]]\<rparr>)
      else alloc_units sys False (units nbytes) u)"

definition vmalloc :: "'os kernel \<Rightarrow> u32 \<Rightarrow> u32 \<Rightarrow> 'os umem \<Rightarrow> (u32 \<times> 'os umem) option" where
  "vmalloc sys nbytes flag u =
     (if flag = VMALLOC_SIZE_BASE then malloc sys nbytes u else alloc_units sys True (units nbytes) u)"

end
