(* ===== verification/Umalloc_Pool.thy ===== *)
theory Umalloc_Pool
  imports Umalloc
begin

text \<open>
  The pools of the user-level allocator as lists of blocks: freeing puts a block into the list, at its place and
  joined with its neighbours, and allocating takes one out. The memory of the blocks is a set of byte addresses.
\<close>

section \<open>The circular list\<close>

primrec path :: "(u32 \<Rightarrow> u32) \<Rightarrow> u32 \<Rightarrow> u32 list \<Rightarrow> bool" where
  "path nxt e [] \<longleftrightarrow> True"
| "path nxt e (a # as) \<longleftrightarrow> nxt a = hd (as @ [e]) \<and> path nxt e as"

lemma path_append: "path nxt e (xs @ ys) \<longleftrightarrow> path nxt (hd (ys @ [e])) xs \<and> path nxt e ys"
  by (induction xs) (auto simp: hd_append)

lemma path_cong: "(\<And>a. a \<in> set as \<Longrightarrow> nxt a = nxt' a) \<Longrightarrow> path nxt e as = path nxt' e as"
  by (induction as) auto

lemma path_update: "a \<notin> set as \<Longrightarrow> path (nxt(a := v)) e as = path nxt e as"
  by (rule path_cong) auto

lemma find_prev_below:
  assumes "path nxt b (xs @ q # ys)" "sorted_wrt (<) (xs @ q # ys)" "\<And>x. x \<in> set xs \<Longrightarrow> x < bp" "q < bp"
    "\<And>y. y \<in> set ys \<Longrightarrow> bp < y" "\<And>x. x \<in> set (xs @ [q]) \<Longrightarrow> b \<le> x" "p \<in> set (xs @ [q])"
  shows "find_prev nxt bp p = Some q"
  using assms
proof (induction xs arbitrary: p)
  case Nil
  show ?case
  proof (cases ys)
    case Nil' : Nil
    then have "nxt q = b" "b \<le> q" using Nil by auto
    then show ?thesis using Nil by (simp add: find_prev.simps)
  next
    case (Cons y ys')
    then show ?thesis using Nil by (simp add: find_prev.simps)
  qed
next
  case (Cons x xs)
  let ?y = "hd (xs @ q # ys)"
  have y: "?y = hd (xs @ [q])" by (cases xs) auto
  have m: "?y \<in> set (xs @ [q])" unfolding y by (cases xs) auto
  have IH: "find_prev nxt bp p = Some q" if "p \<in> set (xs @ [q])" for p
    by (rule Cons.IH [OF _ _ _ _ _ _ that]) (use Cons.prems in auto)
  show ?case
  proof (cases "p = x")
    case True
    have "nxt p = ?y" using Cons.prems(1) True by (cases xs) auto
    moreover have "p < ?y" using Cons.prems(2) m True by auto
    moreover have "?y < bp" using Cons.prems(3,4) m by auto
    ultimately show ?thesis using IH [OF m] by (subst find_prev.simps) auto
  next
    case False
    then show ?thesis using Cons.prems(7) IH by auto
  qed
qed

lemma find_prev_above:
  assumes "path nxt b ys" "sorted_wrt (<) ys" "\<And>y. y \<in> set ys \<Longrightarrow> bp < y" "b < bp" "p \<in> set ys"
    and "find_prev nxt bp b = Some q"
  shows "find_prev nxt bp p = Some q"
  using assms
proof (induction ys arbitrary: p)
  case (Cons y ys)
  show ?case
  proof (cases "p = y")
    case False
    then show ?thesis using Cons by auto
  next
    case True
    show ?thesis
    proof (cases ys)
      case Nil
      then show ?thesis using Cons.prems True by (subst find_prev.simps) auto
    next
      case (Cons z zs)
      have n: "nxt p = z" "bp < p" "p < z" "z \<in> set ys" using Cons Cons.prems True by auto
      have "find_prev nxt bp z = Some q" by (rule Cons.IH) (use Cons.prems n in auto)
      then show ?thesis using n by (subst find_prev.simps) auto
    qed
  qed
qed simp

lemma find_prev_place:
  assumes p: "path nxt b (b # as)" and s: "sorted_wrt (<) (b # as)" and bp: "b < bp" "bp \<notin> set as" and m: "p \<in> set (b # as)"
  obtains xs q ys where "b # as = xs @ q # ys" "\<And>x. x \<in> set xs \<Longrightarrow> x < bp" "q < bp" "\<And>y. y \<in> set ys \<Longrightarrow> bp < y"
    "find_prev nxt bp p = Some q"
proof -
  let ?l = "takeWhile (\<lambda>x. x < bp) (b # as)"
  obtain ys where ys: "dropWhile (\<lambda>x. x < bp) (b # as) = ys" by simp
  have ne: "?l \<noteq> []" using bp by simp
  obtain xs q where l: "?l = xs @ [q]" using ne by (metis rev_exhaust)
  have eq: "b # as = xs @ q # ys" using takeWhile_dropWhile_id [of "\<lambda>x. x < bp" "b # as"] unfolding l ys by simp
  have P: "path nxt b (xs @ q # ys)" and S: "sorted_wrt (<) (xs @ q # ys)" using p s unfolding eq .
  have lt: "x < bp" if "x \<in> set (xs @ [q])" for x using that l set_takeWhileD by metis
  have gt: "bp < y" if y: "y \<in> set ys" for y
  proof (cases ys)
    case (Cons z zs)
    have "\<not> z < bp" using Cons ys by (metis hd_dropWhile list.distinct(1) list.sel(1))
    moreover have "z \<in> set (b # as)" using Cons ys by (metis list.set_intros(1) set_dropWhileD)
    then have "z \<noteq> bp" using bp by auto
    ultimately have "bp < z" by simp
    moreover have "sorted_wrt (<) (z # zs)" using S Cons by (simp add: sorted_wrt_append)
    then have "z \<le> y" using y Cons by auto
    ultimately show ?thesis by simp
  qed (use y in simp)
  have lo: "b \<le> x" if "x \<in> set (xs @ [q])" for x
  proof -
    have "x \<in> set (b # as)" unfolding eq using that by auto
    then show ?thesis using s by auto
  qed
  have below: "find_prev nxt bp x = Some q" if "x \<in> set (xs @ [q])" for x
    by (rule find_prev_below [OF _ _ _ _ gt lo that]) (use P S lt in auto)
  have b: "b \<in> set (xs @ [q])" using eq by (cases xs) auto
  have "find_prev nxt bp p = Some q"
  proof (cases "p \<in> set (xs @ [q])")
    case False
    then have "p \<in> set ys" using m unfolding eq by auto
    moreover have "path nxt b ys" using P by (simp add: path_append)
    moreover have "sorted_wrt (<) ys" using S by (simp add: sorted_wrt_append)
    ultimately show ?thesis using find_prev_above [OF _ _ gt bp(1) _ below [OF b]] by blast
  qed (rule below)
  then show ?thesis using that [OF eq] lt gt by auto
qed

section \<open>Blocks\<close>

definition fin :: "(u32 \<Rightarrow> u32) \<Rightarrow> u32 \<Rightarrow> nat" where
  "fin sz a = unat a + 8 * unat (sz a)"

text \<open>Every block ends before the next one begins: two free blocks never touch.\<close>

primrec gaps :: "(u32 \<Rightarrow> u32) \<Rightarrow> nat \<Rightarrow> u32 list \<Rightarrow> bool" where
  "gaps sz lim [] \<longleftrightarrow> True"
| "gaps sz lim (a # as) \<longleftrightarrow> fin sz a < hd (map unat as @ [lim]) \<and> gaps sz lim as"

definition pool :: "(u32 \<Rightarrow> u32) \<Rightarrow> (u32 \<Rightarrow> u32) \<Rightarrow> u32 \<Rightarrow> u32 list \<Rightarrow> bool" where
  "pool nxt sz b as \<longleftrightarrow> path nxt b (b # as) \<and> gaps sz (2 ^ 32) (b # as) \<and> sz b = 0 \<and> (\<forall>a \<in> set as. 0 < sz a)"

definition block :: "(u32 \<Rightarrow> u32) \<Rightarrow> u32 \<Rightarrow> nat set" where
  "block sz a = {unat a..<fin sz a}"

definition free_bytes :: "(u32 \<Rightarrow> u32) \<Rightarrow> u32 list \<Rightarrow> nat set" where
  "free_bytes sz as = (\<Union>a \<in> set as. block sz a)"

lemma fin_update: "fin (sz(a := v)) x = (if x = a then unat a + 8 * unat v else fin sz x)"
  by (simp add: fin_def)

lemma fin_ge: "unat a \<le> fin sz a"
  by (simp add: fin_def)

lemma free_bytes_cong: "(\<And>a. a \<in> set as \<Longrightarrow> sz a = sz' a) \<Longrightarrow> free_bytes sz as = free_bytes sz' as"
  unfolding free_bytes_def block_def fin_def by (rule SUP_cong) auto

lemma free_bytes_update: "a \<notin> set as \<Longrightarrow> free_bytes (sz(a := v)) as = free_bytes sz as"
  by (rule free_bytes_cong) auto

lemma free_bytes_Cons [simp]: "free_bytes sz (a # as) = block sz a \<union> free_bytes sz as" "free_bytes sz [] = {}"
  by (auto simp: free_bytes_def)

lemma free_bytes_append [simp]: "free_bytes sz (xs @ ys) = free_bytes sz xs \<union> free_bytes sz ys"
  by (auto simp: free_bytes_def)

lemma gaps_append: "gaps sz lim (xs @ ys) \<longleftrightarrow> gaps sz (hd (map unat ys @ [lim])) xs \<and> gaps sz lim ys"
  by (induction xs) (auto simp: hd_append)

lemma gaps_cong: "(\<And>a. a \<in> set as \<Longrightarrow> sz a = sz' a) \<Longrightarrow> gaps sz lim as = gaps sz' lim as"
  by (induction as) (auto simp: fin_def)

lemma gaps_update: "a \<notin> set as \<Longrightarrow> gaps (sz(a := v)) lim as = gaps sz lim as"
  by (rule gaps_cong) auto

lemma gaps_lower: "gaps sz lim as \<Longrightarrow> as \<noteq> [] \<Longrightarrow> unat (hd as) < lim"
proof (induction as)
  case (Cons a as)
  then show ?case using fin_ge [of a sz] by (cases as) auto
qed simp

lemma gaps_sorted: "gaps sz lim as \<Longrightarrow> sorted_wrt (<) as"
proof (induction as)
  case (Cons a as)
  have "a < x" if "x \<in> set as" for x
  proof (cases as)
    case Nil
    then show ?thesis using that by simp
  next
    case (Cons c cs)
    have "a < c" using Cons.prems Cons fin_ge [of a sz] by (auto simp: word_less_nat_alt)
    moreover have "c \<le> x" using Cons.IH Cons.prems Cons that by auto
    ultimately show ?thesis by simp
  qed
  then show ?case using Cons by auto
qed simp

lemma gaps_fin: "gaps sz lim as \<Longrightarrow> a \<in> set as \<Longrightarrow> fin sz a < lim"
proof (induction as)
  case (Cons c cs)
  show ?case
  proof (cases "a = c")
    case True
    show ?thesis
    proof (cases "cs = []")
      case False
      then have "unat (hd cs) < lim" using Cons.prems by (auto intro: gaps_lower)
      then show ?thesis using Cons.prems True False by (cases cs) auto
    qed (use Cons.prems True in simp)
  next
    case False
    then show ?thesis using Cons by auto
  qed
qed simp

lemma word_fin: "fin sz a < 2 ^ 32 \<Longrightarrow> unat (a + 8 * sz a) = fin sz a"
proof -
  assume f: "fin sz a < 2 ^ 32"
  have "unat (8 * sz a) = 8 * unat (sz a)"
    using f by (simp add: fin_def unat_word_ariths)
  then show ?thesis using f by (simp add: fin_def unat_word_ariths)
qed

lemma touch_iff: "fin sz a < 2 ^ 32 \<Longrightarrow> a + 8 * sz a = c \<longleftrightarrow> fin sz a = unat c"
  by (simp add: word_unat_eq_iff word_fin)

lemma poolD:
  assumes "pool nxt sz b as"
  shows "path nxt b (b # as)" "gaps sz (2 ^ 32) (b # as)" "sz b = 0" "\<And>a. a \<in> set as \<Longrightarrow> 0 < sz a"
    "sorted_wrt (<) (b # as)" "distinct (b # as)" "\<And>a. a \<in> set as \<Longrightarrow> b < a"
proof -
  show "path nxt b (b # as)" "gaps sz (2 ^ 32) (b # as)" "sz b = 0" "\<And>a. a \<in> set as \<Longrightarrow> 0 < sz a"
    using assms by (auto simp: pool_def)
  show s: "sorted_wrt (<) (b # as)" by (rule gaps_sorted [of sz "2 ^ 32"]) (use assms in \<open>simp add: pool_def\<close>)
  then show "distinct (b # as)" "\<And>a. a \<in> set as \<Longrightarrow> b < a" using strict_sorted_iff [of "b # as"] by auto
qed

section \<open>Freeing\<close>

lemma join_simps [simp]:
  "h_ptr (set_ptr a v u) = (h_ptr u)(a := v)" "h_size (set_ptr a v u) = h_size u"
  "h_ptr (set_size a v u) = h_ptr u" "h_size (set_size a v u) = (h_size u)(a := v)"
  "h_ptr (set_free_ptr hg a u) = h_ptr u" "h_size (set_free_ptr hg a u) = h_size u"
  "free_ptr hg (set_ptr a v u) = free_ptr hg u" "free_ptr hg (set_size a v u) = free_ptr hg u"
  "free_ptr hg' (set_free_ptr hg a u) = (if hg' = hg then a else free_ptr hg' u)"
  "os (set_ptr a v u) = os u" "os (set_size a v u) = os u" "os (set_free_ptr hg a u) = os u"
  by (auto simp: set_ptr_def set_size_def set_free_ptr_def free_ptr_def)

lemma interval_beside:
  "unat a < unat c \<Longrightarrow> unat a < fin sz a \<Longrightarrow> unat c < fin sz c \<Longrightarrow> block sz a \<inter> block sz c = {} \<Longrightarrow> fin sz a \<le> unat c"
  unfolding block_def by (metis atLeastLessThan_iff disjoint_iff not_le less_imp_le order_refl)

text \<open>
  What the upper neighbours \<open>ys\<close> of the block become: \<open>zs\<close>, without the first of them where the block touches it and
  has grown to \<open>m\<close> units.
\<close>

lemma join_upper_pool:
  assumes sz: "sz = h_size u" and hq: "h_ptr u q = hd (ys @ [b])" and py: "path (h_ptr u) b ys" and gy: "gaps sz (2 ^ 32) ys" and nin: "bp \<notin> set ys"
    and b: "b < bp" and n: "0 < sz bp" and lim: "fin sz bp < 2 ^ 32" and yle: "ys \<noteq> [] \<Longrightarrow> fin sz bp \<le> unat (hd ys)"
  obtains zs m where "set zs \<subseteq> set ys" "h_ptr (join_upper bp q u) = (h_ptr u)(bp := hd (zs @ [b]))"
    "h_size (join_upper bp q u) = sz(bp := m)" "path (h_ptr u) b zs" "gaps (sz(bp := m)) (2 ^ 32) (bp # zs)" "0 < m"
    "free_bytes (sz(bp := m)) (bp # zs) = block sz bp \<union> free_bytes sz ys"
proof (cases "ys \<noteq> [] \<and> fin sz bp = unat (hd ys)")
  case True
  then obtain y zs where ys: "ys = y # zs" and t: "fin sz bp = unat y" by (cases ys) auto
  have ny: "y \<noteq> bp" "bp \<notin> set zs" using nin ys by auto
  let ?m = "sz bp + sz y" and ?sz = "sz(bp := sz bp + sz y)"
  have gz: "fin sz y < hd (map unat zs @ [2 ^ 32])" "gaps sz (2 ^ 32) zs" using gy ys by auto
  have "fin sz y < 2 ^ 32" using gaps_fin [OF gy] ys by simp
  then have sum: "unat ?m = unat (sz bp) + unat (sz y)" using t by (intro unat_add_no_wrap) (auto simp: fin_def)
  then have f: "fin ?sz bp = fin sz y" using t by (simp add: fin_def)
  have "block ?sz bp = block sz bp \<union> block sz y" using f t fin_ge [of y sz] fin_ge [of bp sz] by (auto simp: block_def)
  then have "free_bytes ?sz (bp # zs) = block sz bp \<union> free_bytes sz ys" using ny by (simp add: free_bytes_update ys Un_assoc)
  moreover have "gaps ?sz (2 ^ 32) (bp # zs)" using gz f ny by (simp add: gaps_update)
  moreover have "0 < ?m" using n sum by (simp add: word_less_nat_alt)
  moreover have "h_ptr (join_upper bp q u) = (h_ptr u)(bp := hd (zs @ [b]))" "h_size (join_upper bp q u) = ?sz"
    using touch_iff [OF lim, of y] t hq py ys by (simp_all add: join_upper_def Let_def sz)
  ultimately show ?thesis using that [of zs ?m] py ys by auto
next
  case False
  have "bp + HDR * sz bp \<noteq> h_ptr u q"
  proof (cases ys)
    case Nil
    have "unat b < fin sz bp" using b fin_ge [of bp sz] by (simp add: word_less_nat_alt)
    then show ?thesis using Nil hq touch_iff [OF lim, of b] by simp
  next
    case (Cons y zs)
    then show ?thesis using False hq touch_iff [OF lim, of y] by simp
  qed
  then have "h_ptr (join_upper bp q u) = (h_ptr u)(bp := hd (ys @ [b]))" "h_size (join_upper bp q u) = sz(bp := sz bp)"
    using hq by (simp_all add: join_upper_def Let_def sz)
  moreover have "gaps sz (2 ^ 32) (bp # ys)" using gy lim yle False by (cases ys) auto
  ultimately show ?thesis using that [of ys "sz bp"] py n by simp
qed

text \<open>The lower neighbour \<open>q\<close> swallows the block where it touches it.\<close>

lemma join_lower_pool:
  assumes sz: "sz = h_size u" and u': "u' = join_lower bp q u" and hb: "h_ptr u bp = hd (zs @ [b])" and pz: "path (h_ptr u) b zs" and gz: "gaps sz (2 ^ 32) (bp # zs)"
    and px: "path (h_ptr u) q xs" and gx: "gaps sz (unat q) xs" and qle: "fin sz q \<le> unat bp"
    and d: "q \<notin> set xs" "q \<notin> set zs" "q \<noteq> bp"
  obtains ws where "set ws \<subseteq> insert bp (set zs)" "path (h_ptr u') b (xs @ q # ws)" "gaps (h_size u') (2 ^ 32) (xs @ q # ws)"
    "\<And>a. a \<noteq> q \<Longrightarrow> h_size u' a = sz a" "sz q \<le> h_size u' q" "fin sz q < unat bp \<Longrightarrow> h_size u' q = sz q"
    "free_bytes (h_size u') (q # ws) = block sz q \<union> free_bytes sz (bp # zs)"
proof (cases "fin sz q = unat bp")
  case True
  let ?m = "sz q + sz bp" and ?sz = "sz(q := sz q + sz bp)"
  have lim: "fin sz bp < 2 ^ 32" using gaps_fin [OF gz, of bp] by simp
  have sum: "unat ?m = unat (sz q) + unat (sz bp)" using lim True by (intro unat_add_no_wrap) (auto simp: fin_def)
  have f: "fin ?sz q = fin sz bp" using sum True by (simp add: fin_def)
  have l: "fin sz q < 2 ^ 32" using True unat_lt_2p32 [of bp] by simp
  have h: "h_ptr u' = (h_ptr u)(q := hd (zs @ [b]))" "h_size u' = ?sz"
    using touch_iff [OF l, of bp] True hb by (simp_all add: u' join_lower_def sz)
  have "path (h_ptr u') b (xs @ q # zs)" using px pz d by (simp add: h path_append path_update)
  moreover have "gaps (h_size u') (2 ^ 32) (xs @ q # zs)" using gx gz d f by (simp add: h gaps_append gaps_update)
  moreover have "block ?sz q = block sz q \<union> block sz bp"
    using True f fin_ge [of q sz] fin_ge [of bp sz] by (auto simp: block_def)
  then have "free_bytes (h_size u') (q # zs) = block sz q \<union> free_bytes sz (bp # zs)"
    using d by (simp add: h free_bytes_update Un_assoc)
  moreover have "sz q \<le> h_size u' q" using sum by (simp add: h word_le_nat_alt)
  ultimately show ?thesis using that [of zs] True h by auto
next
  case False
  have "fin sz q < 2 ^ 32" using le_less_trans [OF qle unat_lt_2p32] by simp
  then have h: "h_ptr u' = (h_ptr u)(q := bp)" "h_size u' = sz"
    using touch_iff [of sz q bp] False by (simp_all add: u' join_lower_def sz)
  have "path (h_ptr u') b (xs @ q # bp # zs)" using px pz hb d by (simp add: h path_append path_update)
  moreover have "gaps (h_size u') (2 ^ 32) (xs @ q # bp # zs)" using gx gz qle False by (simp add: h gaps_append)
  ultimately show ?thesis using that [of "bp # zs"] h by auto
qed

lemma pool_beside:
  assumes p: "pool nxt sz b as" and bp: "b < bp" "0 < sz bp" and dis: "block sz bp \<inter> free_bytes sz as = {}" and a: "a \<in> set (b # as)"
  shows "a < bp \<Longrightarrow> fin sz a \<le> unat bp" "bp < a \<Longrightarrow> fin sz bp \<le> unat a"
proof -
  have d: "block sz a \<inter> block sz bp = {}" "0 < sz a" if "a \<noteq> b"
    using that a dis poolD(4) [OF p, of a] by (auto simp: free_bytes_def)
  show "fin sz a \<le> unat bp" if "a < bp"
  proof (cases "a = b")
    case True
    then show ?thesis using that poolD(3) [OF p] by (simp add: fin_def word_less_nat_alt)
  next
    case False
    then show ?thesis using d that bp by (intro interval_beside) (simp_all add: fin_def word_less_nat_alt)
  qed
  show "fin sz bp \<le> unat a" if "bp < a"
  proof -
    have "a \<noteq> b" using that bp by auto
    then show ?thesis using d that bp by (intro interval_beside) (simp_all add: fin_def word_less_nat_alt Int_commute)
  qed
qed

lemma join_pool:
  assumes sz: "sz = h_size u" and p: "pool (h_ptr u) sz b as" and eq: "b # as = xs @ q # ys" and lt: "\<And>x. x \<in> set xs \<Longrightarrow> x < bp" "q < bp"
    and gt: "\<And>y. y \<in> set ys \<Longrightarrow> bp < y" and n: "0 < sz bp" and lim: "fin sz bp < 2 ^ 32"
    and dis: "block sz bp \<inter> free_bytes sz as = {}" and u': "u' = join_lower bp q (join_upper bp q u)"
  obtains as' where "pool (h_ptr u') (h_size u') b as'" "q \<in> set (b # as')" "set as' \<subseteq> insert bp (set as)"
    "free_bytes (h_size u') as' = free_bytes sz as \<union> block sz bp"
proof -
  note P = poolD [OF p]
  have S: "distinct (xs @ q # ys)" using P(6) unfolding eq .
  have bq: "b \<in> set (xs @ [q])" using eq by (cases xs) simp_all
  have nin: "bp \<notin> set xs" "bp \<noteq> q" "bp \<notin> set ys" using lt gt by fastforce+
  have b: "b < bp" using bq lt by auto
  have mem: "a \<in> set (b # as)" if "a \<in> set (xs @ q # ys)" for a using that unfolding eq .
  have L: "h_ptr u q = hd (ys @ [b])" "path (h_ptr u) b ys" "path (h_ptr u) q xs" "gaps sz (unat q) xs" "gaps sz (2 ^ 32) ys"
    using P(1,2) unfolding eq by (auto simp: path_append gaps_append)
  have yle: "fin sz bp \<le> unat (hd ys)" if "ys \<noteq> []" using that gt by (intro pool_beside(2) [OF p b n dis] mem) auto
  have qle: "fin sz q \<le> unat bp" using lt by (intro pool_beside(1) [OF p b n dis] mem) auto
  obtain zs m where Z: "set zs \<subseteq> set ys" "h_ptr (join_upper bp q u) = (h_ptr u)(bp := hd (zs @ [b]))"
    "h_size (join_upper bp q u) = sz(bp := m)" "path (h_ptr u) b zs" "gaps (sz(bp := m)) (2 ^ 32) (bp # zs)" "0 < m"
    "free_bytes (sz(bp := m)) (bp # zs) = block sz bp \<union> free_bytes sz ys"
    using join_upper_pool [OF sz L(1,2,5) nin(3) b n lim yle] by metis
  let ?sz1 = "sz(bp := m)"
  have nz: "bp \<notin> set zs" "q \<notin> set zs" "q \<notin> set xs" using Z(1) nin S by auto
  obtain ws where W: "set ws \<subseteq> insert bp (set zs)" "path (h_ptr u') b (xs @ q # ws)" "gaps (h_size u') (2 ^ 32) (xs @ q # ws)"
    "\<And>a. a \<noteq> q \<Longrightarrow> h_size u' a = ?sz1 a" "sz q \<le> h_size u' q" "fin sz q < unat bp \<Longrightarrow> h_size u' q = sz q"
    "free_bytes (h_size u') (q # ws) = block sz q \<union> free_bytes ?sz1 (bp # zs)"
  proof (rule join_lower_pool [OF Z(3) [symmetric] u'])
    show "h_ptr (join_upper bp q u) bp = hd (zs @ [b])" "path (h_ptr (join_upper bp q u)) b zs" "gaps ?sz1 (2 ^ 32) (bp # zs)"
      "path (h_ptr (join_upper bp q u)) q xs" "gaps ?sz1 (unat q) xs" "fin ?sz1 q \<le> unat bp"
      using Z L nin nz qle by (simp_all add: path_update gaps_update fin_update)
  qed (use nin nz that in \<open>auto simp: fin_update block_def\<close>)
  let ?as = "tl (xs @ q # ws)"
  have as: "b # ?as = xs @ q # ws" using eq by (cases xs) auto
  have sub: "set ?as \<subseteq> insert bp (set as)"
    using as eq W(1) Z(1) P(6) by (cases xs) auto
  have b0: "h_size u' b = 0" using W(4,6) P(3) b qle by (cases "b = q") (auto simp: fin_def word_less_nat_alt)
  have "pool (h_ptr u') (h_size u') b ?as"
    unfolding pool_def as
  proof (intro conjI ballI W(2,3) b0)
    fix a assume a: "a \<in> set ?as"
    have "sorted_wrt (<) (b # ?as)" using gaps_sorted [OF W(3)] unfolding as .
    then have "a \<noteq> b" using a by auto
    then have "a \<noteq> bp \<Longrightarrow> 0 < sz a" using a sub P(4) by auto
    then show "0 < h_size u' a" using W(4) [of a] W(5) Z(6) nin by (cases "a = q") (auto intro: less_le_trans)
  qed
  moreover have "free_bytes (h_size u') ?as = free_bytes sz as \<union> block sz bp"
  proof -
    have "free_bytes (h_size u') xs = free_bytes sz xs" using W(4) nz nin by (intro free_bytes_cong) (metis fun_upd_other)
    moreover have "block (h_size u') b = {}" "block sz b = {}" using b0 P(3) by (simp_all add: block_def fin_def)
    ultimately show ?thesis
      using W(7) Z(7) arg_cong [OF as, of "free_bytes (h_size u')"] arg_cong [OF eq, of "free_bytes sz"] by auto
  qed
  moreover have "q \<in> set (b # ?as)" unfolding as by simp
  ultimately show ?thesis using that sub by blast
qed

text \<open>
  A pool of the allocator with its entry point, and what freeing a block does to it. Headers other than the ones of the list and of the
  block stay as they are.
\<close>

definition pool_at :: "bool \<Rightarrow> u32 \<Rightarrow> u32 list \<Rightarrow> 'os umem \<Rightarrow> bool" where
  "pool_at hg b as u \<longleftrightarrow> pool (h_ptr u) (h_size u) b as \<and> free_ptr hg u \<in> set (b # as)"

definition same_headers :: "u32 set \<Rightarrow> 'os umem \<Rightarrow> 'os umem \<Rightarrow> bool" where
  "same_headers A u u' \<longleftrightarrow> (\<forall>a. a \<notin> A \<longrightarrow> h_ptr u' a = h_ptr u a \<and> h_size u' a = h_size u a)"

lemma join_same: "same_headers {bp, q} u (join_lower bp q (join_upper bp q u))"
  "os (join_lower bp q (join_upper bp q u)) = os u" "free_ptr hg (join_lower bp q (join_upper bp q u)) = free_ptr hg u"
  by (simp_all add: same_headers_def join_lower_def join_upper_def Let_def)

lemma vfree_pool:
  assumes p: "pool_at hg b as u" and hg: "hg \<longleftrightarrow> HUGE_PAGE_START \<le> ap" and bp: "bp = ap - HDR" "b < bp" and n: "0 < h_size u bp"
    and lim: "fin (h_size u) bp < 2 ^ 32" and dis: "block (h_size u) bp \<inter> free_bytes (h_size u) as = {}"
  obtains u' as' where "vfree ap u = Some u'" "pool_at hg b as' u'" "set as' \<subseteq> insert bp (set as)"
    "free_bytes (h_size u') as' = free_bytes (h_size u) as \<union> block (h_size u) bp"
    "same_headers (insert bp (set (b # as))) u u'" "os u' = os u" "free_ptr (\<not> hg) u' = free_ptr (\<not> hg) u"
proof -
  have P: "pool (h_ptr u) (h_size u) b as" and f: "free_ptr hg u \<in> set (b # as)" using p by (auto simp: pool_at_def)
  have nin: "bp \<notin> set as"
  proof
    assume a: "bp \<in> set as"
    have "unat bp \<in> block (h_size u) bp" using n by (simp add: block_def fin_def word_less_nat_alt)
    then show False using dis a by (auto simp: free_bytes_def)
  qed
  obtain xs q ys where X: "b # as = xs @ q # ys" "\<And>x. x \<in> set xs \<Longrightarrow> x < bp" "q < bp" "\<And>y. y \<in> set ys \<Longrightarrow> bp < y"
    "find_prev (h_ptr u) bp (free_ptr hg u) = Some q"
    using find_prev_place [OF poolD(1,5) [OF P] bp(2) nin f] by metis
  let ?u = "join_lower bp q (join_upper bp q u)"
  obtain as' where A: "pool (h_ptr ?u) (h_size ?u) b as'" "q \<in> set (b # as')" "set as' \<subseteq> insert bp (set as)"
    "free_bytes (h_size ?u) as' = free_bytes (h_size u) as \<union> block (h_size u) bp"
    using join_pool [OF refl P X(1-4) n lim dis refl] by metis
  have "vfree ap u = Some (set_free_ptr hg q ?u)"
    using X(5) by (simp add: vfree_def Let_def hg bp)
  moreover have "q \<in> set (b # as)" using X(1) by simp
  then have "same_headers (insert bp (set (b # as))) u ?u" using join_same(1) [of bp q u] by (auto simp: same_headers_def)
  ultimately show ?thesis using that [of "set_free_ptr hg q ?u" as'] A
    by (auto simp: pool_at_def same_headers_def join_same)
qed

end
