(* ===== verification/Umalloc_Alloc.thy ===== *)
theory Umalloc_Alloc
  imports Umalloc_Pool
begin

text \<open>
  Allocating from a pool of the user-level allocator: what is taken out of a block, the search for a block that is large enough, and the
  memory that comes from the kernel when there is none.
\<close>

section \<open>Taking a block\<close>

lemma gaps_after: "gaps sz lim (xs @ p # ys) \<Longrightarrow> y \<in> set ys \<Longrightarrow> fin sz p < unat y"
proof (cases ys)
  case (Cons z zs)
  assume "gaps sz lim (xs @ p # ys)" "y \<in> set ys"
  then have "fin sz p < unat z" "sorted_wrt (<) ys" using Cons gaps_sorted [of sz lim ys] by (auto simp: gaps_append)
  then show ?thesis using Cons \<open>y \<in> set ys\<close> by (auto simp: word_less_nat_alt)
qed simp

lemma disjoint_sorted: "gaps sz lim as \<Longrightarrow> a \<in> set as \<Longrightarrow> c \<in> set as \<Longrightarrow> a \<noteq> c \<Longrightarrow> block sz a \<inter> block sz c = {}"
proof (induction as)
  case (Cons x xs)
  have f: "fin sz x < unat y" if "y \<in> set xs" for y using gaps_after [of sz lim "[]" x xs y] Cons.prems(1) that by simp
  show ?case
  proof (cases "a = x \<or> c = x")
    case True
    then show ?thesis using f Cons.prems by (fastforce simp: block_def)
  next
    case False
    then show ?thesis using Cons by auto
  qed
qed simp

lemma free_bytes_remove:
  assumes "gaps sz lim (xs @ p # ys)"
  shows "free_bytes sz (xs @ ys) \<inter> block sz p = {}"
proof -
  have d: "distinct (xs @ p # ys)" using gaps_sorted [OF assms] strict_sorted_iff by blast
  have "block sz a \<inter> block sz p = {}" if "a \<in> set (xs @ ys)" for a
    using disjoint_sorted [OF assms, of a p] that d by auto
  then show ?thesis unfolding free_bytes_def by blast
qed

definition allotted :: "bool \<Rightarrow> u32 \<Rightarrow> u32 list \<Rightarrow> 'os umem \<Rightarrow> u32 \<Rightarrow> u32 \<Rightarrow> u32 list \<Rightarrow> 'os umem \<Rightarrow> bool" where
  "allotted hg b as u n a as' u' \<longleftrightarrow>
     pool_at hg b as' u' \<and> set as' \<subseteq> set as \<and> b < a \<and> h_size u' a = n \<and> fin (h_size u') a < 2 ^ 32 \<and>
     free_bytes (h_size u') as' \<union> block (h_size u') a = free_bytes (h_size u) as \<and>
     free_bytes (h_size u') as' \<inter> block (h_size u') a = {} \<and>
     same_headers (insert a (set (b # as))) u u' \<and> os u' = os u \<and> free_ptr (\<not> hg) u' = free_ptr (\<not> hg) u"

lemma take_exact:
  assumes p: "pool_at hg b (tl (xs @ prevp # p # ys)) u" and b: "b # tl (xs @ prevp # p # ys) = xs @ prevp # p # ys"
    and n: "h_size u p = n" "0 < n"
  shows "allotted hg b (tl (xs @ prevp # p # ys)) u n p (tl (xs @ prevp # ys)) (snd (take_units hg n prevp p u))"
    "fst (take_units hg n prevp p u) = p + HDR"
proof -
  let ?l = "xs @ prevp # p # ys" and ?as = "tl (xs @ prevp # p # ys)" and ?as' = "tl (xs @ prevp # ys)"
  let ?u = "set_free_ptr hg prevp (set_ptr prevp (h_ptr u p) u)"
  have P: "pool (h_ptr u) (h_size u) b ?as" using p by (simp add: pool_at_def)
  note Q = poolD [OF P, unfolded b]
  have t: "take_units hg n prevp p u = (p + HDR, ?u)" using n by (simp add: take_units_def)
  then show "fst (take_units hg n prevp p u) = p + HDR" by simp
  have b': "b # ?as' = xs @ prevp # ys" using b by (cases xs) auto
  have g: "gaps (h_size u) (2 ^ 32) (xs @ prevp # ys)"
    using Q(2) fin_ge [of p "h_size u"] by (cases ys) (auto simp: gaps_append)
  have pp: "path ((h_ptr u)(prevp := h_ptr u p)) b (xs @ prevp # ys)"
    using Q(1,6) by (auto simp: path_append path_update)
  have sub: "set ?as' \<subseteq> set ?as" "p \<in> set ?as" by (cases xs; auto)+
  have "pool (h_ptr ?u) (h_size ?u) b ?as'"
    unfolding pool_def b' using g pp Q(3,4) sub by auto
  moreover have "b < p" "fin (h_size u) p < 2 ^ 32" using Q(7) sub gaps_fin [OF Q(2), of p] by auto
  moreover have "free_bytes (h_size u) ?as' \<union> block (h_size u) p = free_bytes (h_size u) ?as" by (cases xs) auto
  moreover have "free_bytes (h_size u) ?as' \<inter> block (h_size u) p = {}"
    using free_bytes_remove [of "h_size u" "2 ^ 32" "xs @ [prevp]" p ys] Q(2) by (cases xs) auto
  moreover have "prevp \<in> set (b # ?as')" unfolding b' by simp
  moreover have "prevp \<in> set (b # ?as)" unfolding b by simp
  ultimately show "allotted hg b ?as u n p ?as' (snd (take_units hg n prevp p u))"
    unfolding t allotted_def using n sub by (auto simp: pool_at_def same_headers_def)
qed

lemma take_split:
  assumes p: "pool_at hg b as u" and m: "p \<in> set as" "prevp \<in> set (b # as)" and n: "n < h_size u p" "0 < n"
    and a: "a = p + HDR * (h_size u p - n)"
  shows "allotted hg b as u n a as (snd (take_units hg n prevp p u))" "fst (take_units hg n prevp p u) = a + HDR"
proof -
  let ?sz = "h_size u" and ?r = "h_size u p - n"
  let ?u = "set_free_ptr hg prevp (set_size a n (set_size p ?r u))" and ?sz' = "(h_size u)(p := ?r, a := n)"
  have P: "pool (h_ptr u) ?sz b as" using p by (simp add: pool_at_def)
  note Q = poolD [OF P]
  have t: "take_units hg n prevp p u = (a + HDR, ?u)" using n(1) by (simp add: take_units_def Let_def a)
  then show "fst (take_units hg n prevp p u) = a + HDR" by simp
  have r: "unat ?r = unat (?sz p) - unat n" "0 < unat n" "unat n < unat (?sz p)"
    using n by (simp_all add: unat_sub word_less_nat_alt word_le_nat_alt)
  have lim: "fin ?sz p < 2 ^ 32" using gaps_fin [OF Q(2)] m(1) by simp
  have ua: "unat a = unat p + 8 * unat ?r"
    unfolding a using word_fin [of "\<lambda>_. ?r" p] lim r by (simp add: fin_def)
  obtain xs ys where l: "b # as = xs @ p # ys" using m(1) by (metis in_set_conv_decomp list.set_intros(2))
  have pa: "p < a" "unat a < fin ?sz p" using ua r by (auto simp: fin_def word_less_nat_alt)
  have na: "a \<notin> set (b # as)"
  proof
    assume "a \<in> set (b # as)"
    then have "a \<in> set ys" using l Q(5) pa(1) by (auto simp: sorted_wrt_append)
    then show False using gaps_after [of ?sz "2 ^ 32" xs p ys a] Q(2) l pa(2) by simp
  qed
  have fp: "fin ?sz' p = unat a" "fin ?sz' a = fin ?sz p" using ua r pa(1) by (auto simp: fin_def)
  have fo: "fin ?sz' x = fin ?sz x" if "x \<noteq> p" "x \<noteq> a" for x using that by (simp add: fin_def)
  have dp: "p \<notin> set xs" "p \<notin> set ys" using Q(6) l by auto
  have g: "gaps ?sz' (2 ^ 32) (b # as)"
  proof -
    have "gaps ?sz' (unat p) xs" "gaps ?sz' (2 ^ 32) ys"
      using Q(2) na dp unfolding l by (auto simp: gaps_append gaps_update)
    moreover have "fin ?sz' p < hd (map unat ys @ [2 ^ 32])" using Q(2) pa(2) unfolding l fp by (auto simp: gaps_append)
    ultimately show ?thesis unfolding l by (simp add: gaps_append)
  qed
  have bp: "b < p" using Q(7) m(1) .
  have "pool (h_ptr ?u) (h_size ?u) b as"
    unfolding pool_def using g Q(1,3,4) na bp r by (auto simp: word_less_nat_alt)
  moreover have "free_bytes ?sz' as \<union> block ?sz' a = free_bytes ?sz as \<and> free_bytes ?sz' as \<inter> block ?sz' a = {}"
  proof -
    have o: "free_bytes ?sz' (xs @ ys) = free_bytes ?sz (xs @ ys)" using na dp unfolding l by (intro free_bytes_cong) auto
    have e: "free_bytes s (b # as) = block s p \<union> free_bytes s (xs @ ys)" for s unfolding l by auto
    have b0: "block ?sz b = {}" "block ?sz' b = {}" using Q(3) na bp by (auto simp: block_def fin_def)
    have pb: "block ?sz' p \<union> block ?sz' a = block ?sz p" "block ?sz' p \<inter> block ?sz' a = {}"
      using fp pa ua by (auto simp: block_def)
    have "free_bytes ?sz (xs @ ys) \<inter> block ?sz p = {}" using free_bytes_remove Q(2) unfolding l .
    then show ?thesis using e [of ?sz] e [of ?sz'] b0 o pb by auto
  qed
  ultimately show "allotted hg b as u n a as (snd (take_units hg n prevp p u))"
    unfolding t allotted_def using m n pa bp lim fp(2) na by (auto simp: pool_at_def same_headers_def)
qed

lemma take_units_allots:
  assumes p: "pool_at hg b as u" and m: "prevp \<in> set (b # as)" "h_ptr u prevp = p" and n: "n \<le> h_size u p" "0 < n"
  obtains a as' where "take_units hg n prevp p u = (a + HDR, snd (take_units hg n prevp p u))"
    "allotted hg b as u n a as' (snd (take_units hg n prevp p u))"
proof -
  have P: "pool (h_ptr u) (h_size u) b as" using p by (simp add: pool_at_def)
  note Q = poolD [OF P]
  have pb: "p \<noteq> b" using n Q(3) by auto
  obtain xs zs where l: "b # as = xs @ prevp # zs" using m(1) by (meson split_list)
  have "p = hd (zs @ [b])" using Q(1) m(2) unfolding l by (simp add: path_append)
  then obtain ys where zs: "zs = p # ys" using pb by (cases zs) auto
  have as: "as = tl (xs @ prevp # p # ys)" using l zs by (cases xs) auto
  show ?thesis
  proof (cases "h_size u p = n")
    case True
    then show ?thesis using take_exact [of hg b xs prevp p ys u n] p l zs n as that by (metis prod.collapse)
  next
    case False
    then have "n < h_size u p" using n by simp
    moreover have "p \<in> set as" unfolding as by (cases xs) auto
    ultimately show ?thesis using take_split [OF p _ m(1) _ n(2) refl] that by (metis prod.collapse)
  qed
qed

section \<open>The search\<close>

lemma alloc_search:
  assumes "path (h_ptr u) e (p # vs)" "last (p # vs) = free_ptr hg u" "distinct (p # vs)" "h_ptr u prevp = p"
  shows "(\<exists>r q. r \<in> insert prevp (set (p # vs)) \<and> q \<in> set (p # vs) \<and> h_ptr u r = q \<and> n \<le> h_size u q \<and>
      alloc_loop grow hg n prevp p u = Some (take_units hg n r q u)) \<or>
    (\<forall>q \<in> set (p # vs). h_size u q < n) \<and>
      alloc_loop grow hg n prevp p u = (case grow n u of None \<Rightarrow> None
        | Some (p, u) \<Rightarrow> if p = 0 then Some (0, u) else alloc_loop grow hg n p (h_ptr u p) u)"
  using assms
proof (induction vs arbitrary: p prevp)
  case Nil
  then show ?case by (subst (1 2) alloc_loop.simps) auto
next
  case (Cons v vs)
  show ?case
  proof (cases "n \<le> h_size u p")
    case True
    then show ?thesis using Cons.prems by (subst (1 2) alloc_loop.simps) auto
  next
    case False
    have l: "last (v # vs) \<in> set (v # vs)" by (rule last_in_set) simp
    have "h_ptr u p = v" using Cons.prems(1) by simp
    moreover have "p \<noteq> free_ptr hg u" using Cons.prems(2,3) l by (auto split: if_splits)
    ultimately have s: "alloc_loop grow hg n prevp p u = alloc_loop grow hg n p v u" using False by (subst alloc_loop.simps) auto
    have "(\<exists>r q. r \<in> insert p (set (v # vs)) \<and> q \<in> set (v # vs) \<and> h_ptr u r = q \<and> n \<le> h_size u q \<and>
        alloc_loop grow hg n p v u = Some (take_units hg n r q u)) \<or>
      (\<forall>q \<in> set (v # vs). h_size u q < n) \<and>
        alloc_loop grow hg n p v u = (case grow n u of None \<Rightarrow> None
          | Some (p, u) \<Rightarrow> if p = 0 then Some (0, u) else alloc_loop grow hg n p (h_ptr u p) u)"
      by (rule Cons.IH) (use Cons.prems \<open>h_ptr u p = v\<close> in auto)
    then show ?thesis unfolding s using False by auto
  qed
qed

text \<open>From the entry point the search goes once around.\<close>

lemma pool_rotate:
  assumes "pool_at hg b as u"
  obtains p vs where "h_ptr u (free_ptr hg u) = p" "path (h_ptr u) p (p # vs)" "last (p # vs) = free_ptr hg u" "distinct (p # vs)"
    "set (p # vs) = set (b # as)"
proof -
  let ?f = "free_ptr hg u"
  have P: "pool (h_ptr u) (h_size u) b as" and f: "?f \<in> set (b # as)" using assms by (auto simp: pool_at_def)
  obtain xs ys where l: "b # as = xs @ ?f # ys" using f by (meson split_list)
  have hb: "hd (xs @ [?f]) = b" using l by (cases xs) auto
  have Q: "path (h_ptr u) ?f xs" "h_ptr u ?f = hd (ys @ [b])" "path (h_ptr u) b ys" "distinct (xs @ ?f # ys)"
    using poolD(1,6) [OF P] unfolding l by (auto simp: path_append)
  let ?rs = "ys @ xs @ [?f]"
  have h: "hd ?rs = hd (ys @ [b])" using hb by (cases ys) auto
  have "path (h_ptr u) (hd ?rs) ?rs" using Q hb h by (cases xs) (auto simp: path_append hd_append)
  then obtain p vs where rs: "?rs = p # vs" and pv: "path (h_ptr u) p (p # vs)" by (cases ?rs) auto
  have "last (p # vs) = ?f" "distinct (p # vs)" "set (p # vs) = set (b # as)"
    unfolding rs [symmetric] l using Q(4) by auto
  moreover have "h_ptr u ?f = p" using Q(2) h rs by simp
  ultimately show ?thesis using that pv by blast
qed

section \<open>A pool and the blocks in use\<close>

text \<open>
  The pool \<open>as\<close> and the blocks \<open>us\<close> that are in use lie between \<open>lo\<close> and \<open>hi\<close>, the end of the process's memory, and do not overlap.
\<close>

definition heap :: "bool \<Rightarrow> nat \<Rightarrow> nat \<Rightarrow> u32 \<Rightarrow> u32 list \<Rightarrow> u32 set \<Rightarrow> 'os umem \<Rightarrow> bool" where
  "heap hg lo hi b as us u \<longleftrightarrow> pool_at hg b as u \<and> 0 < b \<and> unat b < lo \<and> lo \<le> hi \<and> hi < 2 ^ 32 \<and>
     (\<forall>a \<in> set as \<union> us. lo \<le> unat a \<and> 0 < h_size u a \<and> fin (h_size u) a \<le> hi) \<and>
     (\<forall>c \<in> us. block (h_size u) c \<inter> free_bytes (h_size u) as = {}) \<and>
     (\<forall>c \<in> us. \<forall>d \<in> us. c \<noteq> d \<longrightarrow> block (h_size u) c \<inter> block (h_size u) d = {})"

lemma heapD:
  assumes "heap hg lo hi b as us u"
  shows "pool_at hg b as u" "0 < b" "unat b < lo" "lo \<le> hi" "hi < 2 ^ 32"
    "\<And>a. a \<in> set as \<or> a \<in> us \<Longrightarrow> lo \<le> unat a \<and> 0 < h_size u a \<and> fin (h_size u) a \<le> hi"
    "\<And>c. c \<in> us \<Longrightarrow> block (h_size u) c \<inter> free_bytes (h_size u) as = {}"
    "\<And>c d. c \<in> us \<Longrightarrow> d \<in> us \<Longrightarrow> c \<noteq> d \<Longrightarrow> block (h_size u) c \<inter> block (h_size u) d = {}"
  using assms unfolding heap_def by auto

lemma block_start: "0 < sz a \<Longrightarrow> unat a \<in> block sz a"
  by (simp add: block_def fin_def word_less_nat_alt)

lemma heap_used:
  assumes h: "heap hg lo hi b as us u" and c: "c \<in> us"
  shows "c \<notin> set (b # as)"
proof
  assume "c \<in> set (b # as)"
  then consider "c = b" | "c \<in> set as" by auto
  then show False
  proof cases
    case 1
    then show ?thesis using heapD(3,6) [OF h] c by force
  next
    case 2
    then show ?thesis using heapD(6,7) [OF h] c block_start [of "h_size u" c] by (auto simp: free_bytes_def)
  qed
qed

lemma heap_free_ptr: "heap hg lo hi b as us u \<Longrightarrow> free_ptr hg u \<noteq> 0"
proof -
  assume h: "heap hg lo hi b as us u"
  have "free_ptr hg u \<in> set (b # as)" "\<And>a. a \<in> set as \<Longrightarrow> b < a" "0 < b"
    using heapD(1,2) [OF h] poolD(7) by (auto simp: pool_at_def)
  then show ?thesis by (metis not_less_zero set_ConsD word_not_simps(1))
qed

text \<open>Changes to other headers, and to the state of the kernel, do not matter.\<close>

lemma pool_at_cong:
  assumes "pool_at hg b as u" "same_headers A u u'" "A \<inter> set (b # as) = {}" "free_ptr hg u' = free_ptr hg u"
  shows "pool_at hg b as u'"
proof -
  have s: "h_ptr u' a = h_ptr u a" "h_size u' a = h_size u a" if "a \<in> set (b # as)" for a
    using that assms(2,3) by (auto simp: same_headers_def)
  have "path (h_ptr u') b (b # as) = path (h_ptr u) b (b # as)" by (rule path_cong) (rule s)
  moreover have "gaps (h_size u') (2 ^ 32) (b # as) = gaps (h_size u) (2 ^ 32) (b # as)" by (rule gaps_cong) (rule s)
  ultimately show ?thesis using assms(1,4) s by (auto simp: pool_at_def pool_def simp del: path.simps gaps.simps)
qed

lemma block_cong: "sz a = sz' a \<Longrightarrow> block sz a = block sz' a"
  by (simp add: block_def fin_def)

lemma heap_cong:
  assumes h: "heap hg lo hi b as us u" and s: "same_headers A u u'" "A \<inter> (set (b # as) \<union> us) = {}" "free_ptr hg u' = free_ptr hg u"
    and hi: "hi \<le> hi'" "hi' < 2 ^ 32"
  shows "heap hg lo hi' b as us u'" "free_bytes (h_size u') as = free_bytes (h_size u) as"
proof -
  note H = heapD [OF h]
  have e: "h_size u' a = h_size u a" if "a \<in> set as \<or> a \<in> us" for a using that s by (auto simp: same_headers_def)
  then have b: "block (h_size u') a = block (h_size u) a" "fin (h_size u') a = fin (h_size u) a" if "a \<in> set as \<or> a \<in> us" for a
    using that by (auto simp: block_def fin_def)
  show f: "free_bytes (h_size u') as = free_bytes (h_size u) as" using e by (intro free_bytes_cong) auto
  have "pool_at hg b as u'" using pool_at_cong [OF H(1) s(1) _ s(3)] s(2) by auto
  then show "heap hg lo hi' b as us u'"
    unfolding heap_def using H(2-8) e b f hi by (auto simp: order_trans [OF _ hi(1)])
qed

text \<open>A block leaves the pool.\<close>

lemma heap_take:
  assumes h: "heap hg lo hi b as us u" and t: "allotted hg b as u n a as' u'" and n: "0 < n"
  shows "heap hg lo hi b as' (insert a us) u'" "a \<notin> us"
proof -
  note H = heapD [OF h]
  have T: "pool_at hg b as' u'" "set as' \<subseteq> set as" "b < a" "h_size u' a = n"
    "free_bytes (h_size u') as' \<union> block (h_size u') a = free_bytes (h_size u) as" "free_bytes (h_size u') as' \<inter> block (h_size u') a = {}"
    "same_headers (insert a (set (b # as))) u u'"
    using t by (auto simp: allotted_def)
  have fb: "x \<in> {lo..<hi}" if "x \<in> free_bytes (h_size u) as" for x
    using that H(6) by (fastforce simp: free_bytes_def block_def)
  have ab: "unat a \<in> block (h_size u') a" using T(4) n by (simp add: block_start)
  then have af: "unat a \<in> free_bytes (h_size u) as" using T(5) by blast
  show na: "a \<notin> us" using af H(6,7) block_start by blast
  have same: "h_size u' c = h_size u c" if "c \<in> us" for c
    using that na heap_used [OF h that] T(7) by (auto simp: same_headers_def)
  have sb: "block (h_size u') c = block (h_size u) c" "fin (h_size u') c = fin (h_size u) c" if "c \<in> us" for c
    using same [OF that] by (auto simp: block_def fin_def)
  have fin: "lo \<le> unat c \<and> fin (h_size u') c \<le> hi" if c: "0 < h_size u' c" "block (h_size u') c \<subseteq> free_bytes (h_size u) as" for c
  proof -
    have "unat c \<in> block (h_size u') c" "fin (h_size u') c - 1 \<in> block (h_size u') c"
      using c(1) by (auto simp: block_def fin_def word_less_nat_alt)
    then show ?thesis using c fb by fastforce
  qed
  have pos: "0 < h_size u' c" if "c \<in> set as'" for c using that T(1) poolD(4) by (auto simp: pool_at_def)
  have sub: "block (h_size u') c \<subseteq> free_bytes (h_size u) as" if "c \<in> insert a (set as')" for c
    using that T(5) by (auto simp: free_bytes_def)
  have A: "lo \<le> unat c \<and> 0 < h_size u' c \<and> fin (h_size u') c \<le> hi" if "c \<in> insert a (set as')" for c
    using that fin [OF _ sub] pos T(4) n by auto
  have d: "block (h_size u') c \<inter> free_bytes (h_size u') as' = {}" "block (h_size u') c \<inter> block (h_size u') a = {}" if "c \<in> us" for c
    using H(7) [OF that] sb(1) [OF that] T(5) by blast+
  show "heap hg lo hi b as' (insert a us) u'"
    unfolding heap_def
  proof (intro conjI T(1) H(2-5) ballI impI)
    fix c assume "c \<in> set as' \<union> insert a us"
    then show "lo \<le> unat c" "0 < h_size u' c" "fin (h_size u') c \<le> hi" using A H(6) same sb by auto
  next
    fix c assume "c \<in> insert a us"
    then show "block (h_size u') c \<inter> free_bytes (h_size u') as' = {}" using T(6) d by blast
  next
    fix c d assume "c \<in> insert a us" "d \<in> insert a us" "c \<noteq> d"
    then show "block (h_size u') c \<inter> block (h_size u') d = {}" using d H(8) sb by (cases "c = a"; cases "d = a") (auto simp: Int_commute)
  qed
qed

text \<open>A block comes back.\<close>

lemma heap_give:
  assumes h: "heap hg lo hi b as us u" and c: "c \<in> us" and hg: "hg \<longleftrightarrow> HUGE_PAGE_START \<le> c + HDR"
  obtains u' as' where "vfree (c + HDR) u = Some u'" "heap hg lo hi b as' (us - {c}) u'"
    "free_bytes (h_size u') as' = free_bytes (h_size u) as \<union> block (h_size u) c"
    "same_headers (insert c (set (b # as))) u u'" "os u' = os u" "free_ptr (\<not> hg) u' = free_ptr (\<not> hg) u"
proof -
  note H = heapD [OF h]
  have bc: "b < c" "0 < h_size u c" "fin (h_size u) c < 2 ^ 32" using H(3,5) H(6) [of c] c by (auto simp: word_less_nat_alt)
  obtain u' as' where V: "vfree (c + HDR) u = Some u'" "pool_at hg b as' u'" "set as' \<subseteq> insert c (set as)"
    "free_bytes (h_size u') as' = free_bytes (h_size u) as \<union> block (h_size u) c"
    "same_headers (insert c (set (b # as))) u u'" "os u' = os u" "free_ptr (\<not> hg) u' = free_ptr (\<not> hg) u"
    using vfree_pool [OF H(1) hg _ bc H(7) [OF c]] by (metis add_diff_cancel)
  have same: "h_size u' d = h_size u d" if "d \<in> us - {c}" for d
    using that heap_used [OF h] V(5) by (auto simp: same_headers_def)
  have sb: "block (h_size u') d = block (h_size u) d" "fin (h_size u') d = fin (h_size u) d" if "d \<in> us - {c}" for d
    using same [OF that] by (auto simp: block_def fin_def)
  have A: "lo \<le> unat d \<and> 0 < h_size u' d \<and> fin (h_size u') d \<le> hi" if d: "d \<in> set as'" for d
  proof -
    have p: "0 < h_size u' d" using d V(2) poolD(4) by (auto simp: pool_at_def)
    have "fin (h_size u') d - 1 \<in> block (h_size u') d" using p by (auto simp: block_def fin_def word_less_nat_alt)
    then have "fin (h_size u') d - 1 \<in> free_bytes (h_size u) as \<union> block (h_size u) c" using d V(4) by (auto simp: free_bytes_def)
    then have "fin (h_size u') d - 1 < hi" using H(6) c by (fastforce simp: free_bytes_def block_def)
    moreover have "lo \<le> unat d" using d V(3) H(6) c by auto
    ultimately show ?thesis using p by simp
  qed
  have "heap hg lo hi b as' (us - {c}) u'"
    unfolding heap_def
  proof (intro conjI V(2) H(2-5) ballI impI)
    fix d assume "d \<in> set as' \<union> (us - {c})"
    then show "lo \<le> unat d" "0 < h_size u' d" "fin (h_size u') d \<le> hi" using A H(6) same sb by auto
  next
    fix d assume "d \<in> us - {c}"
    then show "block (h_size u') d \<inter> free_bytes (h_size u') as' = {}" using V(4) H(7) [of d] H(8) [of d c] c sb by auto
  next
    fix d e assume "d \<in> us - {c}" "e \<in> us - {c}" "d \<noteq> e"
    then show "block (h_size u') d \<inter> block (h_size u') e = {}" using H(8) sb by auto
  qed
  then show ?thesis using that V by blast
qed

text \<open>New memory above the old end, seen as one block in use.\<close>

lemma heap_extend:
  assumes h: "heap hg lo hi b as us u" and p: "unat p = hi" "0 < nu" "hi + 8 * unat nu < 2 ^ 32"
  shows "heap hg lo (hi + 8 * unat nu) b as (insert p us) (set_size p nu (u\<lparr>os := s\<rparr>))" "p \<notin> us"
proof -
  note H = heapD [OF h]
  let ?u = "set_size p nu (u\<lparr>os := s\<rparr>)"
  have lt: "unat a < hi" if "a \<in> set as \<or> a \<in> us" for a using H(6) [OF that] by (auto simp: fin_def word_less_nat_alt)
  have np: "p \<notin> set (b # as) \<union> us" using lt p H(3,4) by auto
  then show "p \<notin> us" by simp
  have fp: "free_ptr hg ?u = free_ptr hg u" by (simp add: free_ptr_def set_size_def)
  have "same_headers {p} u ?u" by (simp add: same_headers_def set_size_def)
  then have C: "heap hg lo (hi + 8 * unat nu) b as us ?u"
    using np p(3) by (intro heap_cong(1) [OF h _ _ fp, of "{p}"]) auto
  note K = heapD [OF C]
  have sz: "h_size ?u a = h_size u a" if "a \<in> set as \<or> a \<in> us" for a using that np by (auto simp: set_size_def)
  have bp: "block (h_size ?u) p = {hi..<hi + 8 * unat nu}" "fin (h_size ?u) p = hi + 8 * unat nu" using p by (simp_all add: block_def fin_def set_size_def)
  have dis: "block (h_size ?u) a \<inter> block (h_size ?u) p = {}" if "a \<in> set as \<or> a \<in> us" for a
    unfolding bp(1) using H(6) [OF that] sz [OF that] by (auto simp: block_def fin_def)
  show "heap hg lo (hi + 8 * unat nu) b as (insert p us) ?u"
    unfolding heap_def
  proof (intro conjI K(1-5) ballI impI)
    fix c assume "c \<in> set as \<union> insert p us"
    then show "lo \<le> unat c" "0 < h_size ?u c" "fin (h_size ?u) c \<le> hi + 8 * unat nu" using K(6) [of c] p H(4) bp by (auto simp: set_size_def split: if_splits)
  next
    fix c assume "c \<in> insert p us"
    then show "block (h_size ?u) c \<inter> free_bytes (h_size ?u) as = {}" using K(7) dis by (auto simp: free_bytes_def)
  next
    fix c d assume "c \<in> insert p us" "d \<in> insert p us" "c \<noteq> d"
    then show "block (h_size ?u) c \<inter> block (h_size ?u) d = {}" using K(8) [of c d] dis [of c] dis [of d] by (cases "c = p"; cases "d = p") (simp_all add: Int_commute)
  qed
qed

text \<open>Free memory without a hole is in one block.\<close>

lemma one_block:
  assumes p: "pool nxt sz b as" and r: "{x..<y} \<subseteq> free_bytes sz as" "x < y"
  obtains q where "q \<in> set as" "{x..<y} \<subseteq> block sz q"
proof -
  obtain q where q: "q \<in> set as" "x \<in> block sz q" using r by (auto simp: free_bytes_def)
  have "fin sz q \<notin> block sz c" if c: "c \<in> set as" for c
  proof (cases "c = q")
    case False
    have s: "sorted_wrt (<) as" "gaps sz (2 ^ 32) as" using poolD(2,5) [OF p] by auto
    have after: "fin sz a < unat d" if m: "a \<in> set as" "d \<in> set as" "a < d" for a d
    proof -
      obtain xs ys where l: "as = xs @ a # ys" using m by (meson split_list)
      then have "d \<in> set ys" using m s(1) by (auto simp: sorted_wrt_append)
      then show ?thesis using gaps_after s(2) l by metis
    qed
    then have "c < q \<and> fin sz c < unat q \<or> fin sz q < unat c" using False q(1) c by (meson neqE)
    then show ?thesis using fin_ge [of q sz] by (auto simp: block_def)
  qed (simp add: block_def)
  then have "fin sz q \<notin> {x..<y}" using r(1) by (auto simp: free_bytes_def)
  then have "{x..<y} \<subseteq> block sz q" using q(2) r(2) by (auto simp: block_def)
  then show ?thesis using that q(1) by blast
qed

section \<open>Properties\<close>

text \<open>
  Claim C6. \<open>free\<close> of a block in use returns: the circular list is searched to the block's place, whatever entry the search starts from, and never
  around forever. The bytes of the block, and no others, join the free bytes of its pool, the pool is again in order with no two
  free blocks touching, and the other blocks in use, the other pool and the kernel are as before.
\<close>

theorem free_returns_block:
  assumes "heap hg lo hi b as us u" "c \<in> us" "if hg then unat HUGE_PAGE_START \<le> lo else hi < unat HUGE_PAGE_START"
  shows "\<exists>u' as'. free (c + HDR) u = Some u' \<and> heap hg lo hi b as' (us - {c}) u' \<and>
    free_bytes (h_size u') as' = free_bytes (h_size u) as \<union> block (h_size u) c \<and>
    same_headers (insert c (set (b # as))) u u' \<and> os u' = os u \<and> free_ptr (\<not> hg) u' = free_ptr (\<not> hg) u"
proof -
  have c: "lo \<le> unat c" "unat c + 8 * unat (h_size u c) \<le> hi" "0 < unat (h_size u c)" "hi < 2 ^ 32"
    using heapD(5,6) [OF assms(1)] assms(2) by (auto simp: fin_def word_less_nat_alt)
  then have "unat (c + HDR) = unat c + 8" by (simp add: unat_word_ariths)
  then have "hg \<longleftrightarrow> HUGE_PAGE_START \<le> c + HDR" using assms(3) c by (cases hg) (simp_all add: word_le_nat_alt)
  then obtain u' as' where "vfree (c + HDR) u = Some u'" "heap hg lo hi b as' (us - {c}) u'"
    "free_bytes (h_size u') as' = free_bytes (h_size u) as \<union> block (h_size u) c"
    "same_headers (insert c (set (b # as))) u u'" "os u' = os u" "free_ptr (\<not> hg) u' = free_ptr (\<not> hg) u"
    using heap_give [OF assms(1,2)] by blast
  then show ?thesis by (auto simp: free_def)
qed

theorem free_returns_block_witness:
  "\<exists>(u :: unit umem) u' as'. heap False 0x2000 0x2020 0x1000 [0x2000] {0x2010} u \<and> free 0x2018 u = Some u' \<and>
     heap False 0x2000 0x2020 0x1000 as' {} u' \<and> free_bytes (h_size u') as' = {0x2000..<0x2020} \<and> h_size u' 0x2000 = 4"
proof -
  let ?u = "\<lparr>h_ptr = (\<lambda>_. 0)(0x1000 := 0x2000, 0x2000 := 0x1000), h_size = (\<lambda>_. 0)(0x2000 := 2, 0x2010 := 2),
     freep = 0x1000, hugefreep = 0, os = (), uout = []\<rparr> :: unit umem"
  have b: "free_bytes (h_size ?u) [0x2000] = {0x2000..<0x2010}" "block (h_size ?u) 0x2010 = {0x2010..<0x2020}"
    by (simp_all add: free_bytes_def block_def fin_def)
  have "{0x2000..<0x2010} \<union> {0x2010..<0x2020} = {0x2000..<0x2020 :: nat}" by auto
  note B = this
  have h: "heap False 0x2000 0x2020 0x1000 [0x2000] {0x2010} ?u"
    unfolding heap_def b by (auto simp: block_def pool_at_def pool_def free_ptr_def fin_def word_less_nat_alt)
  obtain u' as' where F: "free (0x2010 + HDR) ?u = Some u'" "heap False 0x2000 0x2020 0x1000 as' ({0x2010} - {0x2010}) u'"
    "free_bytes (h_size u') as' = {0x2000..<0x2010} \<union> {0x2010..<0x2020}"
    using free_returns_block [OF h, of "0x2010"] unfolding b by auto
  moreover have "h_size u' 0x2000 = 4"
    using F(1) by (simp add: free_def vfree_def Let_def find_prev.simps free_ptr_def join_lower_def join_upper_def set_ptr_def set_size_def set_free_ptr_def)
      (auto simp: free_def)
  ultimately show ?thesis using h unfolding B by (intro exI [of _ ?u] exI [of _ u'] exI [of _ as']) simp
qed

end
