(* ===== verification/Umalloc_Heap.thy ===== *)
theory Umalloc_Heap
  imports Umalloc_Alloc
begin

text \<open>
  The interface between the allocator and the kernel, and the allocator over any kernel that keeps it: \<open>malloc\<close> gives a block that
  overlaps no other one, and fails only if the kernel does.
\<close>

section \<open>More memory\<close>

text \<open>What \<open>morecore\<close> and \<open>morehugecore\<close> have in common.\<close>

definition core :: "bool \<Rightarrow> (u32 \<Rightarrow> 'os \<Rightarrow> u32 \<times> 'os) \<Rightarrow> u32 \<Rightarrow> u32 \<Rightarrow> 'os umem \<Rightarrow> (u32 \<times> 'os umem) option" where
  "core hg brk least nu u =
     (let nu = (if nu < least then least else nu);
          (p, s) = brk (nu * HDR) (os u);
          u = u\<lparr>os := s\<rparr>
      in if p = - 1 then Some (0, u)
         else case vfree (p + HDR) (set_size p nu u) of None \<Rightarrow> None | Some u \<Rightarrow> Some (free_ptr hg u, u))"

lemma morecore_core: "morecore sys = core False (sbrk sys) 4096"
  by (intro ext) (unfold morecore_def core_def free_ptr_def if_False, rule refl)

lemma morehugecore_core: "morehugecore sys = core True (shugebrk sys) (HUGE_PAGE_SIZE div HDR)"
  by (intro ext) (unfold morehugecore_def core_def free_ptr_def if_True, rule refl)

section \<open>Before the first block\<close>

text \<open>
  The blocks in use, from the state before the first call on: the pool is empty and not yet initialised, or a heap.
\<close>

definition owned :: "bool \<Rightarrow> nat \<Rightarrow> nat \<Rightarrow> u32 \<Rightarrow> u32 set \<Rightarrow> 'os umem \<Rightarrow> bool" where
  "owned hg lo hi b us u \<longleftrightarrow> 0 < b \<and> unat b < lo \<and> lo \<le> hi \<and> hi < 2 ^ 32 \<and>
     (if free_ptr hg u = 0 then us = {} else \<exists>as. heap hg lo hi b as us u)"

lemma heap_owned: "heap hg lo hi b as us u \<Longrightarrow> owned hg lo hi b us u"
  using heapD [of hg lo hi b as us u] heap_free_ptr [of hg lo hi b as us u] by (auto simp: owned_def)

lemma init_pool_os: "os (init_pool sys hg u) = os u"
  by (simp add: init_pool_def set_ptr_def set_size_def set_free_ptr_def Let_def)

lemma init_pool_frame:
  "free_ptr (\<not> hg) (init_pool sys hg u) = free_ptr (\<not> hg) u" "same_headers {pool_base hg sys} u (init_pool sys hg u)"
  by (simp_all add: init_pool_def set_ptr_def set_size_def set_free_ptr_def free_ptr_def same_headers_def Let_def)

lemma owned_init:
  assumes "owned hg lo hi b us u" "b = pool_base hg sys"
  shows "\<exists>as. heap hg lo hi b as us (init_pool sys hg u)"
proof (cases "free_ptr hg u = 0")
  case True
  let ?u = "init_pool sys hg u"
  have B: "0 < b" "unat b < lo" "lo \<le> hi" "hi < 2 ^ 32" "us = {}" using assms(1) True by (auto simp: owned_def)
  have i: "h_ptr ?u b = b" "h_size ?u b = 0" "free_ptr hg ?u = b"
    using True assms(2) by (simp_all add: init_pool_def set_ptr_def set_size_def set_free_ptr_def free_ptr_def Let_def)
  have "pool_at hg b [] ?u" using i B by (simp add: pool_at_def pool_def fin_def)
  then have "heap hg lo hi b [] {} ?u" using B by (simp add: heap_def)
  then show ?thesis using B(5) by blast
next
  case False
  then show ?thesis using assms(1) by (simp add: owned_def init_pool_def)
qed

section \<open>The kernel's promise\<close>

text \<open>
  A call of the kernel that extends the memory of a process: \<open>top\<close> is the end of that memory, \<open>other\<close> the end of the memory for the
  other pool and \<open>ready\<close> holds as long as calls have
  succeeded. A call for \<open>n\<close> bytes fails or gives the old end and moves it up by \<open>n\<close>. A pool in 4 KB pages stays below
  \<^verbatim>\<open>HUGE_PAGE_START\<close>, one in 4 MB pages above.
\<close>

locale break_call =
  fixes brk :: "u32 \<Rightarrow> 'os \<Rightarrow> u32 \<times> 'os" and top other :: "'os \<Rightarrow> nat" and ready :: "'os \<Rightarrow> bool" and hg :: bool and lo lim :: nat
  assumes brk_call: "ready s \<Longrightarrow> 0 < n \<Longrightarrow> unat n < 2 ^ 31 \<Longrightarrow> lo \<le> top s \<Longrightarrow> top s + unat n \<le> lim \<Longrightarrow> brk n s = (p, s') \<Longrightarrow>
      other s' = other s \<and>
      (p = - 1 \<and> top s' = top s \<or> p \<noteq> - 1 \<and> unat p = top s \<and> top s' = top s + unat n \<and> ready s')"
    and region: "if hg then unat HUGE_PAGE_START \<le> lo \<and> lim < 2 ^ 32 else lim \<le> unat HUGE_PAGE_START"
begin

abbreviation heap_now :: "u32 \<Rightarrow> u32 list \<Rightarrow> u32 set \<Rightarrow> 'os umem \<Rightarrow> bool" where
  "heap_now b as us u \<equiv> heap hg lo (top (os u)) b as us u"

text \<open>The request for \<open>n\<close> units fits the region.\<close>

definition room :: "u32 \<Rightarrow> u32 \<Rightarrow> 'os umem \<Rightarrow> bool" where
  "room least n u \<longleftrightarrow> 0 < n \<and> 1 < least \<and> unat (max least n) < 2 ^ 28 \<and> top (os u) + 8 * unat (max least n) \<le> lim"

text \<open>The headers of the pool.\<close>

definition mine :: "u32 \<Rightarrow> u32 set" where
  "mine b = insert b {a. lo \<le> unat a \<and> unat a < lim}"

lemma heap_mine:
  assumes h: "heap_now b as us u" and t: "top (os u) \<le> lim"
  shows "set (b # as) \<union> us \<subseteq> mine b"
proof -
  have "lo \<le> unat a \<and> unat a < lim" if "a \<in> set as \<or> a \<in> us" for a
    using heapD(6) [OF h that] t by (auto simp: fin_def word_less_nat_alt)
  then show ?thesis by (auto simp: mine_def)
qed

lemma core_grows:
  assumes h: "heap_now b as us u" and r: "ready (os u)" "room least n u"
  shows "\<exists>f u'. core hg brk least n u = Some (f, u') \<and> free_ptr (\<not> hg) u' = free_ptr (\<not> hg) u \<and>
    same_headers (mine b) u u' \<and> top (os u') \<le> lim \<and> other (os u') = other (os u) \<and>
    (f = 0 \<and> fst (brk (max least n * HDR) (os u)) = - 1 \<and> heap_now b as us u' \<or>
     (\<exists>as'. f = free_ptr hg u' \<and> heap_now b as' us u' \<and> ready (os u') \<and> (\<exists>q \<in> set as'. n \<le> h_size u' q)))"
proof -
  let ?m = "max least n"
  note H = heapD [OF h]
  have m: "(if n < least then least else n) = ?m" by (auto simp: max_def)
  have R: "1 < unat ?m" "0 < ?m" "unat ?m < 2 ^ 28" "top (os u) + 8 * unat ?m \<le> lim"
    using r(2) by (auto simp: room_def max_def word_less_nat_alt word_le_nat_alt)
  have m8: "unat (?m * HDR) = 8 * unat ?m" using R(3) by (simp add: unat_word_ariths)
  obtain p s where ps: "brk (?m * HDR) (os u) = (p, s)" by fastforce
  have c: "core hg brk least n u = (if p = - 1 then Some (0, u\<lparr>os := s\<rparr>)
      else case vfree (p + HDR) (set_size p ?m (u\<lparr>os := s\<rparr>)) of None \<Rightarrow> None | Some u \<Rightarrow> Some (free_ptr hg u, u))"
    unfolding core_def m Let_def ps by simp
  have fo: "free_ptr hh (u\<lparr>os := s\<rparr>) = free_ptr hh u" for hh by (simp add: free_ptr_def)
  have pos: "0 < ?m * HDR" using R(2) m8 by (simp add: word_less_nat_alt)
  have law: "other s = other (os u)"
    "p = - 1 \<and> top s = top (os u) \<or> p \<noteq> - 1 \<and> unat p = top (os u) \<and> top s = top (os u) + 8 * unat ?m \<and> ready s"
    using brk_call [OF r(1) pos _ H(4) _ ps] R m8 by auto
  note law_brk = law(2)
  show ?thesis
  proof (cases "p = - 1")
    case True
    have "same_headers {} u (u\<lparr>os := s\<rparr>)" by (simp add: same_headers_def)
    then have "heap_now b as us (u\<lparr>os := s\<rparr>)" using heap_cong(1) [OF h _ _ fo, of "{}"] law_brk True H(5) by simp
    moreover have "same_headers (mine b) u (u\<lparr>os := s\<rparr>)" by (simp add: same_headers_def)
    ultimately show ?thesis using c True fo ps law R(4) by auto
  next
    case False
    then have L: "unat p = top (os u)" "top s = top (os u) + 8 * unat ?m" "ready s" using law by auto
    have lim: "lim < 2 ^ 32" "p + HDR \<ge> HUGE_PAGE_START \<longleftrightarrow> hg"
    proof -
      show l: "lim < 2 ^ 32" using region by (cases hg) auto
      have "unat p + 8 < lim" using L(1) R(1,4) by linarith
      then have "unat (p + HDR) = unat p + 8" using l by (simp add: unat_word_ariths)
      then show "p + HDR \<ge> HUGE_PAGE_START \<longleftrightarrow> hg"
        using region L(1) H(4) R(1,4) by (cases hg) (auto simp: word_le_nat_alt word_less_nat_alt)
    qed
    let ?u = "set_size p ?m (u\<lparr>os := s\<rparr>)"
    have E: "heap hg lo (top s) b as (insert p us) ?u" "p \<notin> us"
      unfolding L(2) using heap_extend [OF h L(1) R(2)] R(4) lim(1) by auto
    obtain u' as' where G: "vfree (p + HDR) ?u = Some u'" "heap hg lo (top s) b as' (insert p us - {p}) u'"
      "free_bytes (h_size u') as' = free_bytes (h_size ?u) as \<union> block (h_size ?u) p" "os u' = os ?u" "free_ptr (\<not> hg) u' = free_ptr (\<not> hg) ?u"
      "same_headers (insert p (set (b # as))) ?u u'"
      using heap_give [OF E(1) insertI1] lim(2) by metis
    have "set (b # as) \<subseteq> mine b" "p \<in> mine b"
      using heap_mine [OF h] R(1,4) L(1) H(4) by (auto simp: mine_def)
    then have sh: "same_headers (mine b) u u'" using G(6) by (auto simp: same_headers_def set_size_def)
    have os: "os u' = s" using G(4) by (simp add: set_size_def)
    have P: "pool (h_ptr u') (h_size u') b as'" using heapD(1) [OF G(2)] by (simp add: pool_at_def)
    have "{unat p..<unat p + 8 * unat ?m} \<subseteq> free_bytes (h_size u') as'" using G(3) by (auto simp: block_def fin_def set_size_def)
    then obtain q where q: "q \<in> set as'" "{unat p..<unat p + 8 * unat ?m} \<subseteq> block (h_size u') q"
      using one_block [OF P, of "unat p" "unat p + 8 * unat ?m"] R(1) by auto
    then have "8 * unat ?m \<le> 8 * unat (h_size u' q)" using R(1) by (auto simp: block_def fin_def ivl_subset)
    then have "n \<le> h_size u' q" by (auto simp: word_le_nat_alt max_def split: if_splits)
    then show ?thesis using c False G q(1) os L(2,3) E(2) sh R(4) law(1) by (auto simp: set_size_def free_ptr_def)
  qed
qed

lemma alloc_found:
  assumes h: "heap_now b as us u" and n: "0 < n" and q: "q \<in> set as" "n \<le> h_size u q" and t: "top (os u) \<le> lim"
  shows "\<exists>a as' u'. alloc_loop grow hg n (free_ptr hg u) (h_ptr u (free_ptr hg u)) u = Some (a + HDR, u') \<and>
    free_ptr (\<not> hg) u' = free_ptr (\<not> hg) u \<and> os u' = os u \<and> same_headers (mine b) u u' \<and> a \<notin> us \<and> h_size u' a = n \<and> heap_now b as' (insert a us) u'"
proof -
  note H = heapD [OF h]
  obtain p vs where V: "h_ptr u (free_ptr hg u) = p" "path (h_ptr u) p (p # vs)" "last (p # vs) = free_ptr hg u" "distinct (p # vs)"
    "set (p # vs) = set (b # as)"
    by (rule pool_rotate [OF H(1)])
  have "\<not> (\<forall>q \<in> set (p # vs). h_size u q < n)" using q unfolding V(5) by (meson list.set_intros(2) not_less)
  then have "\<exists>r q. r \<in> insert (free_ptr hg u) (set (p # vs)) \<and> q \<in> set (p # vs) \<and> h_ptr u r = q \<and> n \<le> h_size u q \<and>
      alloc_loop grow hg n (free_ptr hg u) p u = Some (take_units hg n r q u)"
    using alloc_search [OF V(2-4,1), of n grow] by blast
  then obtain r q where R: "r \<in> insert (free_ptr hg u) (set (p # vs))" "h_ptr u r = q" "n \<le> h_size u q"
    "alloc_loop grow hg n (free_ptr hg u) p u = Some (take_units hg n r q u)"
    by (elim exE conjE)
  have r: "r \<in> set (b # as)" using R(1) H(1) unfolding V(5) by (auto simp: pool_at_def)
  obtain a as' where A: "take_units hg n r q u = (a + HDR, snd (take_units hg n r q u))"
    "allotted hg b as u n a as' (snd (take_units hg n r q u))"
    by (rule take_units_allots [OF H(1) r R(2,3) n])
  have o: "os (snd (take_units hg n r q u)) = os u" "free_ptr (\<not> hg) (snd (take_units hg n r q u)) = free_ptr (\<not> hg) u"
    "h_size (snd (take_units hg n r q u)) a = n"
    using A(2) by (auto simp: allotted_def)
  note T = heap_take [OF h A(2) n]
  have "same_headers (insert a (set (b # as))) u (snd (take_units hg n r q u))" using A(2) by (simp add: allotted_def)
  moreover have "insert a (set (b # as)) \<subseteq> mine b"
    using heap_mine [OF h t] heap_mine [of "snd (take_units hg n r q u)" b as' "insert a us"] T(1) t o(1) by auto
  ultimately have "same_headers (mine b) u (snd (take_units hg n r q u))" by (auto simp: same_headers_def)
  then show ?thesis using T A(1) R(4) V(1) o by (metis (no_types, lifting))
qed

theorem alloc_ok:
  assumes h: "heap_now b as us u" and r: "ready (os u)" "room least n u"
  shows "\<exists>r u'. alloc_loop (core hg brk least) hg n (free_ptr hg u) (h_ptr u (free_ptr hg u)) u = Some (r, u') \<and>
    free_ptr (\<not> hg) u' = free_ptr (\<not> hg) u \<and> same_headers (mine b) u u' \<and> top (os u') \<le> lim \<and>
    other (os u') = other (os u) \<and>
    (r = 0 \<and> fst (brk (max least n * HDR) (os u)) = - 1 \<and> heap_now b as us u' \<or>
     (\<exists>a as'. r = a + HDR \<and> a \<notin> us \<and> h_size u' a = n \<and> ready (os u') \<and> heap_now b as' (insert a us) u'))"
proof (cases "\<exists>q \<in> set as. n \<le> h_size u q")
  case True
  then obtain q where q: "q \<in> set as" "n \<le> h_size u q" by blast
  have "0 < n" "top (os u) \<le> lim" using r(2) by (auto simp: room_def)
  then show ?thesis using alloc_found [OF h _ q, of "core hg brk least"] r(1) by metis
next
  case False
  note H = heapD [OF h]
  obtain p vs where V: "h_ptr u (free_ptr hg u) = p" "path (h_ptr u) p (p # vs)" "last (p # vs) = free_ptr hg u" "distinct (p # vs)"
    "set (p # vs) = set (b # as)"
    by (rule pool_rotate [OF H(1)])
  have n: "0 < n" using r(2) by (simp add: room_def)
  have "h_size u b = 0" using H(1) by (simp add: pool_at_def pool_def)
  then have small: "\<not> n \<le> h_size u q" if "q \<in> set (b # as)" for q using that False n by auto
  have s: "alloc_loop (core hg brk least) hg n (free_ptr hg u) p u = (case core hg brk least n u of None \<Rightarrow> None
      | Some (p, u) \<Rightarrow> if p = 0 then Some (0, u) else alloc_loop (core hg brk least) hg n p (h_ptr u p) u)"
    using alloc_search [OF V(2-4,1), of n "core hg brk least"] small unfolding V(5) by blast
  obtain f u1 where C: "core hg brk least n u = Some (f, u1)" "free_ptr (\<not> hg) u1 = free_ptr (\<not> hg) u"
    "same_headers (mine b) u u1" "top (os u1) \<le> lim" "other (os u1) = other (os u)"
    "f = 0 \<and> fst (brk (max least n * HDR) (os u)) = - 1 \<and> heap_now b as us u1 \<or>
     (\<exists>as'. f = free_ptr hg u1 \<and> heap_now b as' us u1 \<and> ready (os u1) \<and> (\<exists>q \<in> set as'. n \<le> h_size u1 q))"
    using core_grows [OF h r] by metis
  from C(6) show ?thesis
  proof (elim disjE exE conjE)
    assume "f = 0" "fst (brk (max least n * HDR) (os u)) = - 1" "heap_now b as us u1"
    then show ?thesis using s C(1-5) V(1) by auto
  next
    fix as' assume f: "f = free_ptr hg u1" and h1: "heap_now b as' us u1" and r1: "ready (os u1)" and q: "\<exists>q \<in> set as'. n \<le> h_size u1 q"
    have "f \<noteq> 0" using heap_free_ptr [OF h1] f by simp
    then have s': "alloc_loop (core hg brk least) hg n (free_ptr hg u) p u =
        alloc_loop (core hg brk least) hg n (free_ptr hg u1) (h_ptr u1 (free_ptr hg u1)) u1"
      using s C(1) f by simp
    obtain q where q: "q \<in> set as'" "n \<le> h_size u1 q" using q by blast
    obtain a as2 u' where F: "alloc_loop (core hg brk least) hg n (free_ptr hg u1) (h_ptr u1 (free_ptr hg u1)) u1 = Some (a + HDR, u')"
      "free_ptr (\<not> hg) u' = free_ptr (\<not> hg) u1" "os u' = os u1" "same_headers (mine b) u1 u'" "a \<notin> us" "h_size u' a = n"
      "heap_now b as2 (insert a us) u'"
      using alloc_found [OF h1 n q C(4), of "core hg brk least"] by metis
    have "same_headers (mine b) u u'" using C(3) F(4) by (auto simp: same_headers_def)
    then show ?thesis unfolding V(1) s' using F C(2,4,5) r1 by metis
  qed
qed

text \<open>The allocator from its first call on.\<close>

theorem alloc_units_ok:
  assumes o: "owned hg lo (top (os u)) b us u" and b: "b = pool_base hg sys"
    and sys: "brk = (if hg then shugebrk sys else sbrk sys)" "least = (if hg then 0x80000 else 4096)"
    and r: "ready (os u)" "room least n u"
  shows "\<exists>r u'. alloc_units sys hg n u = Some (r, u') \<and>
    free_ptr (\<not> hg) u' = free_ptr (\<not> hg) u \<and> same_headers (mine b) u u' \<and> top (os u') \<le> lim \<and>
    other (os u') = other (os u) \<and>
    (r = 0 \<and> fst (brk (max least n * HDR) (os u)) = - 1 \<and> owned hg lo (top (os u')) b us u' \<or>
     (\<exists>a. r = a + HDR \<and> a \<notin> us \<and> h_size u' a = n \<and> ready (os u') \<and> owned hg lo (top (os u')) b (insert a us) u'))"
proof -
  let ?u = "init_pool sys hg u"
  obtain as where h: "heap_now b as us ?u" using owned_init [OF o b] by (auto simp: init_pool_os)
  have i: "os ?u = os u" "free_ptr (\<not> hg) ?u = free_ptr (\<not> hg) u" "same_headers (mine b) u ?u"
    using init_pool_frame [of hg sys u] b by (auto simp: mine_def same_headers_def init_pool_os)
  have g: "(if hg then morehugecore sys else morecore sys) = core hg brk least"
    using sys by (cases hg) (simp_all add: morecore_core morehugecore_core)
  have "room least n ?u" using r(2) i(1) by (simp add: room_def)
  then obtain r u' where A: "alloc_loop (core hg brk least) hg n (free_ptr hg ?u) (h_ptr ?u (free_ptr hg ?u)) ?u = Some (r, u')"
    "free_ptr (\<not> hg) u' = free_ptr (\<not> hg) ?u" "same_headers (mine b) ?u u'" "top (os u') \<le> lim" "other (os u') = other (os ?u)"
    "r = 0 \<and> fst (brk (max least n * HDR) (os ?u)) = - 1 \<and> heap_now b as us u' \<or>
     (\<exists>a as'. r = a + HDR \<and> a \<notin> us \<and> h_size u' a = n \<and> ready (os u') \<and> heap_now b as' (insert a us) u')"
    using alloc_ok [OF h] r(1) i(1) by metis
  have "same_headers (mine b) u u'" using i(3) A(3) by (auto simp: same_headers_def)
  moreover have "alloc_units sys hg n u = Some (r, u')" using A(1) by (simp add: alloc_units_def Let_def g)
  ultimately show ?thesis using A(2,4-6) i(1,2) heap_owned by metis
qed

end

end
