(* ===== verification/Umalloc_Kernel.thy ===== *)
theory Umalloc_Kernel
  imports Umalloc_Heap Syscall
begin

text \<open>
  The allocator over the kernel it runs on: the system calls \<^verbatim>\<open>sbrk\<close> and \<^verbatim>\<open>shugebrk\<close> keep the promise the allocator relies on.
\<close>

section \<open>The CPU\<close>

text \<open>No operation on an address space moves to another CPU.\<close>

lemma kmem_cpu:
  "acquire_kmem s = Ret s' \<Longrightarrow> cpu_id s' = cpu_id s" "release_kmem s = Ret s' \<Longrightarrow> cpu_id s' = cpu_id s"
  "acquire_khugemem s = Ret s' \<Longrightarrow> cpu_id s' = cpu_id s" "release_khugemem s = Ret s' \<Longrightarrow> cpu_id s' = cpu_id s"
  by (auto simp: acquire_kmem_def release_kmem_def acquire_khugemem_def release_khugemem_def)

lemma kalloc_cpu:
  "kalloc s = Ret (p, s') \<Longrightarrow> cpu_id s' = cpu_id s" "khugealloc s = Ret (p, s') \<Longrightarrow> cpu_id s' = cpu_id s"
  "kfree v s = Ret s' \<Longrightarrow> cpu_id s' = cpu_id s" "khugefree v s = Ret s' \<Longrightarrow> cpu_id s' = cpu_id s"
  by (auto simp: kalloc_def khugealloc_def kfree_def khugefree_def Let_def dest!: kmem_cpu split: if_splits)

lemma walkpgdir_cpu: "walkpgdir d va a s = Ret (p, s') \<Longrightarrow> cpu_id s' = cpu_id s"
  by (auto simp: walkpgdir_def Let_def dest!: kalloc_cpu split: if_splits)

lemma loop_keeps:
  assumes "loop n b x = Ret (r, s')" "\<And>x y. b x = Ret (Inl y) \<Longrightarrow> f y = f x" "\<And>x r t. b x = Ret (Inr (r, t)) \<Longrightarrow> g t = f x" "f x = c"
  shows "g s' = c"
proof -
  have "g (snd (r, s')) = f x"
    by (rule loop_invariant [OF assms(1), where I = "\<lambda>y. f y = f x" and Q = "\<lambda>z. g (snd z) = f x"]) (auto dest: assms(2,3))
  then show ?thesis using assms(4) by simp
qed

lemma mappages_cpu:
  assumes "mappages d va sz pa perm s = Ret (r, s')"
  shows "cpu_id s' = cpu_id s"
proof (cases "HUGE_PAGE_START \<le> pa \<and> pa < HUGE_PAGE_END")
  case True
  then have "loop all_pages (map_huge_step d perm (HUGEPGROUNDDOWN (va + sz - 1))) (HUGEPGROUNDDOWN va, pa, s) = Ret (r, s')"
    using assms by (simp add: mappages_def)
  then show ?thesis
    by (rule loop_keeps [where f = "\<lambda>(a, pa, t). cpu_id t" and g = cpu_id])
      (auto simp: map_huge_step_def Let_def split: if_splits)
next
  case False
  have "loop all_pages (map_base_step d perm (PGROUNDDOWN (va + sz - 1))) (PGROUNDDOWN va, pa, s) = Ret (r, s')"
    using assms unfolding mappages_def if_not_P [OF False] .
  then show ?thesis
    by (rule loop_keeps [where f = "\<lambda>(a, pa, t). cpu_id t" and g = cpu_id])
      (auto simp: map_base_step_def Let_def dest!: walkpgdir_cpu split: if_splits)
qed

lemma deallocuvm_cpu:
  assumes "deallocuvm d oldsz newsz s = Ret (r, s')"
  shows "cpu_id s' = cpu_id s"
proof (cases "newsz \<ge> oldsz")
  case False
  then obtain a where "loop all_pages (dealloc_step d oldsz newsz) (a, s) = Ret (r, s')" using assms by (auto simp: deallocuvm_def)
  then show ?thesis
    by (rule loop_keeps [where f = "\<lambda>(a, t). cpu_id t" and g = cpu_id])
      (auto simp: dealloc_step_def Let_def dest!: walkpgdir_cpu kalloc_cpu split: if_splits)
qed (use assms in \<open>simp add: deallocuvm_def\<close>)

lemma cprintf_cpu [simp]: "cpu_id (cprintf m s) = cpu_id s"
  by (simp add: cprintf_def)

lemmas space_cpu = kalloc_cpu mappages_cpu deallocuvm_cpu

lemma allocuvm_cpu:
  assumes "allocuvm d oldsz newsz s = Ret (r, s')"
  shows "cpu_id s' = cpu_id s"
proof (cases "newsz \<ge> KERNBASE \<or> newsz < oldsz")
  case False
  then obtain a where "loop all_pages (alloc_step d oldsz newsz) (a, s) = Ret (r, s')" using assms by (auto simp: allocuvm_def)
  then show ?thesis
    by (rule loop_keeps [where f = "\<lambda>(a, t). cpu_id t" and g = cpu_id])
      (auto simp: alloc_step_def Let_def dest!: space_cpu split: if_splits)
qed (use assms in \<open>auto simp: allocuvm_def split: if_splits\<close>)

lemma allochugeuvm_cpu:
  assumes "allochugeuvm d oldsz newsz s = Ret (r, s')"
  shows "cpu_id s' = cpu_id s"
proof (cases "newsz < oldsz")
  case False
  then obtain a where "loop all_pages (alloc_huge_step d oldsz newsz) (a, s) = Ret (r, s')" using assms by (auto simp: allochugeuvm_def)
  then show ?thesis
    by (rule loop_keeps [where f = "\<lambda>(a, t). cpu_id t" and g = cpu_id])
      (auto simp: alloc_huge_step_def Let_def dest!: space_cpu split: if_splits)
qed (use assms in \<open>simp add: allochugeuvm_def\<close>)

section \<open>sbrk\<close>

text \<open>
  The two calls as the user sees them. A call that does not return gives no value.
\<close>

definition user_call :: "(u32 \<Rightarrow> 'k \<Rightarrow> (int \<times> 'k) outcome) \<Rightarrow> u32 \<Rightarrow> 'k \<Rightarrow> u32 \<times> 'k" where
  "user_call f n k = (case f n k of Ret (r, k) \<Rightarrow> (of_int r, k))"

text \<open>Process \<open>p\<close> runs, and below \<^verbatim>\<open>HUGE_PAGE_START\<close> nothing is mapped above its size.\<close>

definition base_ready :: "nat \<Rightarrow> 'a pstate_scheme \<Rightarrow> bool" where
  "base_ready p k \<longleftrightarrow> (\<exists>d ps. runs k p d ps \<and>
     (\<forall>x. unat (PGROUNDUP (p_sz (procs k ! p))) \<le> unat x \<longrightarrow> unat x < 0x1E000000 \<longrightarrow> entry (mem (mach k)) d x AND PTE_P = 0) \<and>
     (\<forall>x. unat x < 0x1E000000 \<longrightarrow> \<not> huge (mem (mach k)) d (PDX x)))"

lemma sbrk_result:
  assumes "calm k" "cproc k (cpu_id (mach k)) = Some p" "growproc n k = Ret (r, k')" "unat (p_sz (procs k ! p)) < 2 ^ 31"
  shows "user_call sbrk_op n k = (if r < 0 then - 1 else p_sz (procs k ! p), k')"
  using assms by (simp add: user_call_def sbrk_op_def with_proc_def Let_def)

lemma space_switched:
  "aspace (s\<lparr>this_cpu := remember_if (this_cpu s), cr3 := c\<rparr>) d ps = aspace s d ps"
  "uspace (s\<lparr>this_cpu := remember_if (this_cpu s), cr3 := c\<rparr>) d ps = uspace s d ps"
  "hpool (s\<lparr>this_cpu := remember_if (this_cpu s), cr3 := c\<rparr>) hs = hpool s hs"
  by (simp_all add: uspace_def aspace_def kpool_def hpool_def locks_ok_def kpage_def)

lemma runs_again:
  assumes r: "runs k p d ps" and u: "uspace s' d ps'" and c: "cpu_id s' = cpu_id (mach k)"
    and f: "\<And>q. p_kstack (f q) = p_kstack q" "\<And>q. p_pgdir (f q) = p_pgdir q"
  shows "runs (switched p (upd_proc p f (k\<lparr>mach := s'\<rparr>))) p d ps'"
proof -
  note b = uspace_basic(2) [OF u]
  have R: "p < length (procs k)" "p_kstack (procs k ! p) \<noteq> 0" "p_pgdir (procs k ! p) = d" "calm k" "cproc k (cpu_id (mach k)) = Some p"
    using r by (simp_all add: runs_def)
  have "mach (switched p (upd_proc p f (k\<lparr>mach := s'\<rparr>))) = s'\<lparr>this_cpu := remember_if (this_cpu s'), cr3 := V2P d\<rparr>"
    using R f by (simp add: switched_def upd_proc_def)
  then have u': "uspace (mach (switched p (upd_proc p f (k\<lparr>mach := s'\<rparr>)))) d ps'" using u by (simp add: space_switched)
  have "calm (switched p (upd_proc p f (k\<lparr>mach := s'\<rparr>)))" using R(4) b c by (simp add: calm_def switched_def)
  then show ?thesis unfolding runs_def using u' R f c by (simp add: upd_proc_def switched_def)
qed

lemma growproc_cpu:
  assumes "calm k" "growproc n k = Ret (r, k')"
  shows "cpu_id (mach k') = cpu_id (mach k)"
  using assms by (auto simp: growproc_def with_proc_def on_mach_val_def switchuvm_def upd_cpu_def upd_proc_def Let_def
      dest!: allocuvm_cpu deallocuvm_cpu split: if_splits option.splits)

lemma below_minus_one: "\<not> unat (- 1 :: u32) < 2 ^ 31"
  by (simp add: unsigned_minus_1_eq_mask mask_eq_exp_minus_1)

lemma below_boundary:
  assumes "in_span lo hi x" "hi \<le> 0x1E000000"
  shows "unat x < 0x1E000000"
proof -
  have "unat x div 4096 * 4096 < 122880 * 4096"
    using assms by (simp add: in_span_def unat_PGROUNDDOWN minus_mod_eq_div_mult)
  then have "unat x div 4096 < 122880" by simp
  then show ?thesis by (simp add: div_less_iff_less_mult)
qed

lemma sbrk_law:
  assumes r: "base_ready p k" and n: "0 < n" "unat n < 2 ^ 31" "unat (p_sz (procs k ! p)) + unat n \<le> 0x1E000000"
    and u: "user_call sbrk_op n k = (q, k')"
  shows "p_hugesz (procs k' ! p) = p_hugesz (procs k ! p) \<and>
    (q = - 1 \<and> p_sz (procs k' ! p) = p_sz (procs k ! p) \<or>
     q \<noteq> - 1 \<and> q = p_sz (procs k ! p) \<and> p_sz (procs k' ! p) = p_sz (procs k ! p) + n \<and> base_ready p k')"
proof -
  let ?sz = "p_sz (procs k ! p)"
  obtain d ps where R: "runs k p d ps"
    "\<And>x. unat (PGROUNDUP ?sz) \<le> unat x \<Longrightarrow> unat x < 0x1E000000 \<Longrightarrow> entry (mem (mach k)) d x AND PTE_P = 0"
    "\<And>x. unat x < 0x1E000000 \<Longrightarrow> \<not> huge (mem (mach k)) d (PDX x)"
    using r unfolding base_ready_def by blast
  have k: "calm k" "cproc k (cpu_id (mach k)) = Some p" "p < length (procs k)" using R(1) by (simp_all add: runs_def)
  have sn: "0 < sint n" unfolding sint_low [OF n(2)] using n(1) by (simp add: word_less_def)
  have add: "unat (?sz + n) = unat ?sz + unat n" using n(3) by (simp add: unat_word_ariths)
  have lt: "unat x < 0x1E000000" if "x < ?sz + n" for x using that add n(3) by (simp add: word_less_nat_alt)
  have g: "can_grow (mach k) d ?sz (?sz + n)"
    unfolding can_grow_def
  proof (intro conjI allI impI)
    show "unat (?sz + n) < 0x80000000" "?sz \<le> ?sz + n" using add n(3) by (simp_all add: word_le_nat_alt)
    show "entry (mem (mach k)) d x AND PTE_P = 0" if "in_span (unat (PGROUNDUP ?sz)) (unat (?sz + n)) x" for x
      using R(2) [OF _ below_boundary [OF that]] that add n(3) by (simp add: in_span_def)
  qed (rule R(3), rule lt)
  obtain s' ps' where G: "growproc n k = Ret (0, switched p (upd_proc p (p_sz_update (\<lambda>_. ?sz + n)) (k\<lparr>mach := s'\<rparr>))) \<and>
      grown d (mach k) ps s' ps' (unat (PGROUNDUP ?sz)) (unat (PGROUNDUP (?sz + n))) \<or>
    growproc n k = Ret (-1, k\<lparr>mach := s'\<rparr>) \<and> restored d (mach k) ps s' ps'"
    using growproc_grow [OF R(1) refl sn g] by blast
  have sz: "unat ?sz < 2 ^ 31" using n(3) by simp
  note res = sbrk_result [OF k(1,2) _ sz]
  from G show ?thesis
  proof (elim disjE conjE)
    assume G: "growproc n k = Ret (-1, k\<lparr>mach := s'\<rparr>)"
    then show ?thesis using res [OF G] u by auto
  next
    let ?k = "switched p (upd_proc p (p_sz_update (\<lambda>_. ?sz + n)) (k\<lparr>mach := s'\<rparr>))"
    assume G: "growproc n k = Ret (0, ?k)" "grown d (mach k) ps s' ps' (unat (PGROUNDUP ?sz)) (unat (PGROUNDUP (?sz + n)))"
    have q: "q = ?sz" "k' = ?k" using res [OF G(1)] u by auto
    have "cpu_id (mach ?k) = cpu_id (mach k)" using growproc_cpu [OF k(1) G(1)] .
    then have "cpu_id s' = cpu_id (mach k)" by (simp add: switched_def upd_proc_def)
    then have run: "runs ?k p d ps'" using G(2) by (intro runs_again [OF R(1)]) (simp_all add: grown_def)
    have up: "unat (PGROUNDUP ?sz) \<le> unat (PGROUNDUP (?sz + n))" using add n(3) by (simp add: unat_PGROUNDUP)
    have dvd: "4096 dvd unat (PGROUNDUP (?sz + n))" using add n(3) by (intro PGROUNDUP_props) simp
    have "entry (mem s') d x AND PTE_P = 0" if "unat (PGROUNDUP (?sz + n)) \<le> unat x" "unat x < 0x1E000000" for x
    proof -
      have "\<not> in_span (unat (PGROUNDUP ?sz)) (unat (PGROUNDUP (?sz + n))) x"
        using in_span_next(3) [OF dvd up] that(1) by simp
      then show ?thesis using G(2) R(2) [of x] that up by (simp add: grown_def)
    qed
    moreover have "\<not> huge (mem s') d (PDX x)" if "unat x < 0x1E000000" for x
      using G(2) R(3) [OF that] by (simp add: grown_def PDX_less)
    ultimately have "base_ready p k'"
      unfolding base_ready_def q(2) using run k(3) by (intro exI [of _ d] exI [of _ ps']) (simp add: upd_proc_def)
    moreover have "?sz \<noteq> - 1" using sz by (metis below_minus_one)
    ultimately show ?thesis using q k(3) by (simp add: upd_proc_def)
  qed
qed

interpretation base_brk: break_call "user_call sbrk_op" "\<lambda>k. unat (p_sz (procs k ! p))" "\<lambda>k. unat (p_hugesz (procs k ! p) + HUGE_VA_OFFSET)"
  "base_ready p" False lo "0x1DFFFFFF" for p lo
proof unfold_locales
  fix s :: "'a pstate_scheme" and n q s'
  assume a: "base_ready p s" "0 < n" "unat n < 2 ^ 31" and l: "unat (p_sz (procs s ! p)) + unat n \<le> 0x1DFFFFFF"
    and c: "user_call sbrk_op n s = (q, s')"
  then have "unat (p_sz (procs s ! p) + n) = unat (p_sz (procs s ! p)) + unat n" by (simp add: unat_word_ariths)
  then show "unat (p_hugesz (procs s' ! p) + HUGE_VA_OFFSET) = unat (p_hugesz (procs s ! p) + HUGE_VA_OFFSET) \<and>
    (q = - 1 \<and> unat (p_sz (procs s' ! p)) = unat (p_sz (procs s ! p)) \<or>
     q \<noteq> - 1 \<and> unat q = unat (p_sz (procs s ! p)) \<and> unat (p_sz (procs s' ! p)) = unat (p_sz (procs s ! p)) + unat n \<and> base_ready p s')"
    using sbrk_law [OF a _ c] l by auto
qed simp

section \<open>shugebrk\<close>

text \<open>The old size only matters to \<open>allochugeuvm\<close> when it fails.\<close>

lemma alloc_huge_loop_old:
  "loop k (alloc_huge_step d old newsz) x = Ret (r, s') \<Longrightarrow> r \<noteq> 0 \<Longrightarrow> loop k (alloc_huge_step d old' newsz) x = Ret (r, s')"
proof (induction k arbitrary: x)
  case 0
  then show ?case by simp
next
  case (Suc k)
  obtain a s where x: "x = (a, s)" by fastforce
  obtain y where y: "alloc_huge_step d old newsz x = Ret y" "(case y of Inl z \<Rightarrow> loop k (alloc_huge_step d old newsz) z | Inr r \<Rightarrow> Ret r) = Ret (r, s')"
    using Suc.prems(1) by auto
  have "alloc_huge_step d old' newsz x = Ret y"
    using y Suc.prems(2) unfolding x by (auto simp: alloc_huge_step_def Let_def split: if_splits)
  then show ?case using y(2) Suc.IH Suc.prems(2) by (cases y) auto
qed

lemma allochugeuvm_more:
  assumes s: "aspace s d ps" "hpool s hs" and sz: "oldsz \<le> newsz" "unat newsz \<le> 0x80000000" "newsz \<noteq> 0"
    and top: "a = HUGEPGROUNDUP oldsz" "m = (unat newsz + 4194303 - unat a) div 4194304"
    and free: "\<And>x. a \<le> x \<Longrightarrow> x < newsz \<Longrightarrow> tab (mem s) d (PDX x) = None \<and> \<not> huge (mem s) d (PDX x)" and enough: "m \<le> length hs"
  shows "\<exists>s'. allochugeuvm d oldsz newsz s = Ret (newsz, s') \<and> aspace s' d ps \<and> hpool s' (drop m hs) \<and>
    same_slots d s s' (unat a + 4194304 * m)"
proof -
  have "unat oldsz \<le> 0xFFC00000" using sz(1,2) by (simp add: word_le_nat_alt)
  then have dvd: "4194304 dvd unat a" unfolding top(1) by (rule HUGEPGROUNDUP_props)
  have fuel: "(0x80000000 - unat a) div 4194304 < all_pages" by (intro less_mult_imp_div_less) simp
  have none: "took s d hs b" if "4194304 dvd unat b" "a \<le> b" "b < a" for b using that by simp
  obtain s' where A: "loop all_pages (alloc_huge_step d a newsz) (a, s) = Ret (newsz, s')" "aspace s' d ps" "hpool s' (drop m hs)"
    "same_slots d s s' (unat a + 4194304 * m)"
    using alloc_huge_loop [OF s dvd sz(2) dvd order_refl fuel none _ top(2)] free enough by auto
  have "allochugeuvm d oldsz newsz s = loop all_pages (alloc_huge_step d oldsz newsz) (a, s)"
    using sz(1) by (simp add: allochugeuvm_def top(1) not_less [symmetric])
  then show ?thesis using alloc_huge_loop_old [OF A(1) sz(3)] A(2-4) by auto
qed

text \<open>
  Process \<open>p\<close> runs, nothing is mapped above its 4 MB pages, and the pool has the pages for more of them up to \<open>lim\<close>.
\<close>

abbreviation huge_top :: "nat \<Rightarrow> 'a pstate_scheme \<Rightarrow> u32" where
  "huge_top p k \<equiv> p_hugesz (procs k ! p) + HUGE_VA_OFFSET"

definition huge_ready :: "nat \<Rightarrow> nat \<Rightarrow> 'a pstate_scheme \<Rightarrow> bool" where
  "huge_ready p lim k \<longleftrightarrow> (\<exists>d ps hs. calm k \<and> cproc k (cpu_id (mach k)) = Some p \<and> p < length (procs k) \<and>
     p_kstack (procs k ! p) \<noteq> 0 \<and> p_pgdir (procs k ! p) = d \<and> aspace (mach k) d ps \<and> hpool (mach k) hs \<and>
     (\<forall>x. unat (HUGEPGROUNDUP (huge_top p k)) \<le> unat x \<longrightarrow> unat x < 0x3E000000 \<longrightarrow>
        tab (mem (mach k)) d (PDX x) = None \<and> \<not> huge (mem (mach k)) d (PDX x)) \<and>
     min lim 0x3E000000 \<le> unat (HUGEPGROUNDUP (huge_top p k)) + 4194304 * length hs)"

lemma round_up_step:
  assumes "c \<le> x div M" "0 < (M :: nat)"
  shows "c * M + M * ((x - c * M) div M) = x div M * M"
proof -
  have "c * M \<le> x" using assms by (metis less_eq_div_iff_mult_less_eq)
  then obtain y where "x = c * M + y" using le_Suc_ex by blast
  then show ?thesis using assms(2) by (simp add: algebra_simps)
qed

lemma growhugeproc_more:
  assumes "calm k" "cproc k (cpu_id (mach k)) = Some p" "p < length (procs k)" "p_kstack (procs k ! p) \<noteq> 0"
    and "p_pgdir (procs k ! p) = d" "0 < sint n" "lo = p_hugesz (procs k ! p) + HUGE_VA_OFFSET"
    and "allochugeuvm d lo (lo + n) (mach k) = Ret (lo + n, s')" "lo + n \<noteq> 0" "aspace s' d ps"
  shows "growhugeproc n k = Ret (0, switched p (upd_proc p (p_hugesz_update (\<lambda>_. p_hugesz (procs k ! p) + n)) (k\<lparr>mach := s'\<rparr>)))"
proof -
  let ?k = "upd_proc p (p_hugesz_update (\<lambda>_. p_hugesz (procs k ! p) + n)) (k\<lparr>mach := s'\<rparr>)"
  have "can_push (this_cpu s')" "d \<noteq> 0"
    using aspaceD(1,2) [OF assms(10)] by (auto simp: kpool_def locks_ok_def kpage_iff)
  then have sw: "switchuvm (Some p) ?k = Ret (switched p ?k)"
    using assms(3-5) by (intro switchuvm_eq) simp_all
  have e: "p_hugesz (procs k ! p) + n + HUGE_VA_OFFSET = lo + n" "lo + n - HUGE_VA_OFFSET = p_hugesz (procs k ! p) + n"
    by (simp_all add: assms(7) add_ac)
  then show ?thesis
    using assms(1,2,5,6,8,9) sw by (simp add: growhugeproc_def with_proc_def on_mach_val_def Let_def e flip: assms(7))
qed

lemma switched_mach:
  assumes "p < length (procs k)" "p_pgdir (f (procs k ! p)) = d"
  shows "mach (switched p (upd_proc p f (k\<lparr>mach := s'\<rparr>))) = s'\<lparr>this_cpu := remember_if (this_cpu s'), cr3 := V2P d\<rparr>"
  using assms by (simp add: switched_def upd_proc_def)

lemma shugebrk_law:
  assumes r: "huge_ready p lim k" and n: "0 < n" "unat n < 2 ^ 31" "unat (huge_top p k) + unat n \<le> min lim 0x3E000000"
    and u: "user_call shugebrk_op n k = (q, k')"
  shows "p_sz (procs k' ! p) = p_sz (procs k ! p) \<and> q \<noteq> - 1 \<and> q = huge_top p k \<and> huge_top p k' = huge_top p k + n \<and> huge_ready p lim k'"
proof -
  let ?t = "huge_top p k" and ?m = "(unat (huge_top p k + n) + 4194303 - unat (HUGEPGROUNDUP (huge_top p k))) div 4194304"
  obtain d ps hs where k: "calm k" "cproc k (cpu_id (mach k)) = Some p" "p < length (procs k)" "p_kstack (procs k ! p) \<noteq> 0"
    "p_pgdir (procs k ! p) = d" "aspace (mach k) d ps" "hpool (mach k) hs"
    and free: "\<And>x. unat (HUGEPGROUNDUP ?t) \<le> unat x \<Longrightarrow> unat x < 0x3E000000 \<Longrightarrow>
        tab (mem (mach k)) d (PDX x) = None \<and> \<not> huge (mem (mach k)) d (PDX x)"
    and enough: "min lim 0x3E000000 \<le> unat (HUGEPGROUNDUP ?t) + 4194304 * length hs"
    using r unfolding huge_ready_def by blast
  have sn: "0 < sint n" unfolding sint_low [OF n(2)] using n(1) by (simp add: word_less_def)
  have add: "unat (?t + n) = unat ?t + unat n" using n(3) by (simp add: unat_word_ariths)
  have nz: "?t + n \<noteq> 0" "?t \<le> ?t + n" "unat (?t + n) \<le> 0x80000000" "unat (?t + n) \<le> 0x3E000000"
  proof -
    have "0 < unat (?t + n)" using add n(1) by (simp add: word_less_nat_alt)
    then show "?t + n \<noteq> 0" by auto
  qed (use add n(3) in \<open>simp_all add: word_le_nat_alt\<close>)
  have m: "?m \<le> length hs"
  proof -
    have "unat (?t + n) \<le> unat (HUGEPGROUNDUP ?t) + 4194304 * length hs" unfolding add using n(3) enough by (rule order_trans)
    then have "unat (?t + n) + 4194303 - unat (HUGEPGROUNDUP ?t) < 4194304 * Suc (length hs)" unfolding mult_Suc_right by linarith
    then have "?m < Suc (length hs)" by (intro less_mult_imp_div_less) (simp only: mult.commute)
    then show ?thesis by simp
  qed
  obtain s' where A: "allochugeuvm d ?t (?t + n) (mach k) = Ret (?t + n, s')" "aspace s' d ps" "hpool s' (drop ?m hs)"
    "same_slots d (mach k) s' (unat (HUGEPGROUNDUP ?t) + 4194304 * ?m)"
    using allochugeuvm_more [OF k(6,7) nz(2,3,1) refl refl _ m] free nz(4) by (auto simp: word_le_nat_alt word_less_nat_alt)
  let ?f = "p_hugesz_update (\<lambda>_. p_hugesz (procs k ! p) + n)"
  let ?k = "switched p (upd_proc p ?f (k\<lparr>mach := s'\<rparr>))"
  have G: "growhugeproc n k = Ret (0, ?k)"
    by (rule growhugeproc_more [OF k(1-5) sn refl A(1) nz(1) A(2)])
  have sz: "unat ?t < 2 ^ 31" using n(3) by simp
  have q: "q = ?t" "k' = ?k"
    using u k(1,2) G by (simp_all add: user_call_def shugebrk_op_def with_proc_def Let_def)
  have c: "cpu_id s' = cpu_id (mach k)" by (rule allochugeuvm_cpu [OF A(1)])
  have up: "unat (HUGEPGROUNDUP (?t + n)) = unat (HUGEPGROUNDUP ?t) + 4194304 * ?m"
  proof -
    have "(unat ?t + 4194303) div 4194304 \<le> (unat (?t + n) + 4194303) div 4194304" unfolding add by (intro div_le_mono) simp
    then show ?thesis using round_up_step [of _ "unat (?t + n) + 4194303" 4194304] nz(3) sz by (simp add: unat_HUGEPGROUNDUP)
  qed
  have M: "mach ?k = s'\<lparr>this_cpu := remember_if (this_cpu s'), cr3 := V2P d\<rparr>" using k(3,5) by (intro switched_mach) simp_all
  have t': "huge_top p ?k = ?t + n" using k(3) by (simp add: upd_proc_def)
  have "huge_ready p lim ?k"
    unfolding huge_ready_def t'
  proof (intro exI conjI allI impI)
    show "calm ?k" using k(1) c aspaceD(1) [OF A(2)] by (simp add: calm_def switched_def kpool_def locks_ok_def)
    show "aspace (mach ?k) d ps" "hpool (mach ?k) (drop ?m hs)" unfolding M space_switched by (rule A(2), rule A(3))
    show "cproc ?k (cpu_id (mach ?k)) = Some p" using k(2) c M by simp
    show "p < length (procs ?k)" "p_kstack (procs ?k ! p) \<noteq> 0" "p_pgdir (procs ?k ! p) = d" using k(3-5) by (simp_all add: upd_proc_def)
    show "min lim 0x3E000000 \<le> unat (HUGEPGROUNDUP (?t + n)) + 4194304 * length (drop ?m hs)" unfolding up using m enough by simp
  next
    fix x :: u32 assume x: "unat (HUGEPGROUNDUP (?t + n)) \<le> unat x" "unat x < 0x3E000000"
    then show "tab (mem (mach ?k)) d (PDX x) = None" "\<not> huge (mem (mach ?k)) d (PDX x)"
      using A(4) free [of x] unfolding up same_slots_def M by auto
  qed
  moreover have "?t \<noteq> - 1" using sz by (metis below_minus_one)
  ultimately show ?thesis using q k(3) t' by (simp add: upd_proc_def)
qed

interpretation huge_brk: break_call "user_call shugebrk_op" "\<lambda>k. unat (huge_top p k)" "\<lambda>k. unat (p_sz (procs k ! p))"
  "huge_ready p lim" True "0x1E000000" "min lim 0x3E000000" for p lim
proof unfold_locales
  fix s :: "'a pstate_scheme" and n q s'
  assume a: "huge_ready p lim s" "0 < n" "unat n < 2 ^ 31" "unat (huge_top p s) + unat n \<le> min lim 0x3E000000"
    "user_call shugebrk_op n s = (q, s')"
  then have "unat (huge_top p s + n) = unat (huge_top p s) + unat n" by (simp add: unat_word_ariths)
  then show "unat (p_sz (procs s' ! p)) = unat (p_sz (procs s ! p)) \<and>
    (q = - 1 \<and> unat (huge_top p s') = unat (huge_top p s) \<or>
     q \<noteq> - 1 \<and> unat q = unat (huge_top p s) \<and> unat (huge_top p s') = unat (huge_top p s) + unat n \<and> huge_ready p lim s')"
    using shugebrk_law [OF a] by metis
qed simp

section \<open>The two pools together\<close>

definition user_kernel :: "u32 \<Rightarrow> u32 \<Rightarrow> 'a sys_state_scheme kernel" where
  "user_kernel b hb = \<lparr>base_addr = b, hugebase_addr = hb, sbrk = user_call sbrk_op, shugebrk = user_call shugebrk_op, getthp = GLOBAL_THP\<rparr>"

text \<open>
  The heap of process \<open>p\<close>: \<open>us\<close> and \<open>hus\<close> are the blocks in use of the two pools, \<open>lo\<close> is where the heap starts.
\<close>

definition pools :: "nat \<Rightarrow> nat \<Rightarrow> u32 \<Rightarrow> u32 \<Rightarrow> u32 set \<Rightarrow> u32 set \<Rightarrow> 'a pstate_scheme umem \<Rightarrow> bool" where
  "pools p lo b hb us hus u \<longleftrightarrow> b \<noteq> hb \<and> unat hb < lo \<and> unat (p_sz (procs (os u) ! p)) < 0x1E000000 \<and>
     owned False lo (unat (p_sz (procs (os u) ! p))) b us u \<and> owned True 0x1E000000 (unat (huge_top p (os u))) hb hus u"

lemma owned_frame:
  assumes o: "owned hg lo hi b us u" and s: "same_headers A u u'" "free_ptr hg u' = free_ptr hg u"
    and A: "A \<inter> insert b {a. lo \<le> unat a \<and> unat a < hi} = {}"
  shows "owned hg lo hi b us u'"
proof (cases "free_ptr hg u = 0")
  case True
  then show ?thesis using o s(2) by (simp add: owned_def)
next
  case False
  then obtain as where h: "heap hg lo hi b as us u" using o by (auto simp: owned_def)
  have "unat a < hi" if "a \<in> set as \<or> a \<in> us" for a using heapD(6) [OF h that] by (auto simp: fin_def word_less_nat_alt)
  then have "set (b # as) \<union> us \<subseteq> insert b {a. lo \<le> unat a \<and> unat a < hi}" using heapD(6) [OF h] by auto
  then have "A \<inter> (set (b # as) \<union> us) = {}" using A by blast
  then show ?thesis using heap_cong(1) [OF h s(1) _ s(2) order_refl heapD(5) [OF h]] heap_owned by blast
qed

lemma base_alloc:
  assumes P: "pools p lo b hb us hus u" and r: "base_ready p (os u)"
    and n: "0 < n" "unat (max 4096 n) < 2 ^ 28" "unat (p_sz (procs (os u) ! p)) + 8 * unat (max 4096 n) < 0x1E000000"
  shows "\<exists>r u'. alloc_units (user_kernel b hb) False n u = Some (r, u') \<and>
    (r = 0 \<and> fst (user_call sbrk_op (max 4096 n * HDR) (os u)) = - 1 \<and> pools p lo b hb us hus u' \<or>
     (\<exists>a. r = a + HDR \<and> a \<notin> us \<and> h_size u' a = n \<and> base_ready p (os u') \<and> pools p lo b hb (insert a us) hus u'))"
proof -
  have O: "owned False lo (unat (p_sz (procs (os u) ! p))) b us u" "owned True 0x1E000000 (unat (huge_top p (os u))) hb hus u"
    and h: "b \<noteq> hb" "unat hb < lo" "unat (p_sz (procs (os u) ! p)) < 0x1E000000" using P by (simp_all add: pools_def)
  have sys: "b = pool_base False (user_kernel b hb)" "user_call sbrk_op = (if False then shugebrk (user_kernel b hb) else sbrk (user_kernel b hb))"
    "4096 = (if False then 0x80000 else 4096 :: u32)"
    by (simp_all add: user_kernel_def pool_base_def)
  have room: "base_brk.room p 4096 n u" unfolding base_brk.room_def using n by auto
  obtain r u' where A: "alloc_units (user_kernel b hb) False n u = Some (r, u')" "free_ptr True u' = free_ptr True u"
    "same_headers (base_brk.mine lo b) u u'" "unat (p_sz (procs (os u') ! p)) \<le> 0x1DFFFFFF"
    "unat (huge_top p (os u')) = unat (huge_top p (os u))"
    "r = 0 \<and> fst (user_call sbrk_op (max 4096 n * HDR) (os u)) = - 1 \<and> owned False lo (unat (p_sz (procs (os u') ! p))) b us u' \<or>
     (\<exists>a. r = a + HDR \<and> a \<notin> us \<and> h_size u' a = n \<and> base_ready p (os u') \<and>
        owned False lo (unat (p_sz (procs (os u') ! p))) b (insert a us) u')"
    using base_brk.alloc_units_ok [OF O(1) sys r room] unfolding not_False_eq_True by (elim exE conjE)
  have "base_brk.mine lo b \<inter> insert hb {a. 0x1E000000 \<le> unat a \<and> unat a < unat (huge_top p (os u))} = {}"
    using O(1) h by (auto simp: base_brk.mine_def owned_def)
  then have "owned True 0x1E000000 (unat (huge_top p (os u'))) hb hus u'"
    unfolding A(5) by (rule owned_frame [OF O(2) A(3,2)])
  then have "pools p lo b hb vs hus u'" if "owned False lo (unat (p_sz (procs (os u') ! p))) b vs u'" for vs
    using that A(4) h unfolding pools_def by auto
  then show ?thesis using A(1,6) by blast
qed

lemma huge_alloc:
  assumes P: "pools p lo b hb us hus u" and r: "huge_ready p lim (os u)"
    and n: "0 < n" "unat (max 0x80000 n) < 2 ^ 28" "unat (huge_top p (os u)) + 8 * unat (max 0x80000 n) \<le> min lim 0x3E000000"
  shows "\<exists>a u'. alloc_units (user_kernel b hb) True n u = Some (a + HDR, u') \<and> a \<notin> hus \<and> h_size u' a = n \<and>
    huge_ready p lim (os u') \<and> pools p lo b hb us (insert a hus) u'"
proof -
  have O: "owned False lo (unat (p_sz (procs (os u) ! p))) b us u" "owned True 0x1E000000 (unat (huge_top p (os u))) hb hus u"
    and h: "b \<noteq> hb" "unat hb < lo" "unat (p_sz (procs (os u) ! p)) < 0x1E000000" using P by (simp_all add: pools_def)
  have sys: "hb = pool_base True (user_kernel b hb)" "user_call shugebrk_op = (if True then shugebrk (user_kernel b hb) else sbrk (user_kernel b hb))"
    "0x80000 = (if True then 0x80000 else 4096 :: u32)"
    by (simp_all add: user_kernel_def pool_base_def)
  have room: "huge_brk.room p lim 0x80000 n u" unfolding huge_brk.room_def using n by auto
  obtain r u' where A: "alloc_units (user_kernel b hb) True n u = Some (r, u')" "free_ptr False u' = free_ptr False u"
    "same_headers (huge_brk.mine lim hb) u u'" "unat (p_sz (procs (os u') ! p)) = unat (p_sz (procs (os u) ! p))"
    "r = 0 \<and> fst (user_call shugebrk_op (max 0x80000 n * HDR) (os u)) = - 1 \<and> owned True 0x1E000000 (unat (huge_top p (os u'))) hb hus u' \<or>
     (\<exists>a. r = a + HDR \<and> a \<notin> hus \<and> h_size u' a = n \<and> huge_ready p lim (os u') \<and>
        owned True 0x1E000000 (unat (huge_top p (os u'))) hb (insert a hus) u')"
    using huge_brk.alloc_units_ok [OF O(2) sys r room] unfolding not_True_eq_False by (elim exE conjE)
  have "fst (user_call shugebrk_op (max 0x80000 n * HDR) (os u)) \<noteq> - 1"
  proof -
    have "unat (max 0x80000 n * HDR) = 8 * unat (max 0x80000 n)" using n(2) by (simp add: unat_word_ariths)
    moreover have "0 < max 0x80000 n * HDR" using calculation n(1) by (simp add: word_less_nat_alt max_def)
    moreover obtain q k' where "user_call shugebrk_op (max 0x80000 n * HDR) (os u) = (q, k')" by fastforce
    ultimately show ?thesis using shugebrk_law [OF r, of "max 0x80000 n * HDR"] n(2,3) by auto
  qed
  then obtain a where a: "r = a + HDR" "a \<notin> hus" "h_size u' a = n" "huge_ready p lim (os u')"
    "owned True 0x1E000000 (unat (huge_top p (os u'))) hb (insert a hus) u'" using A(5) by blast
  have "huge_brk.mine lim hb \<inter> insert b {a. lo \<le> unat a \<and> unat a < unat (p_sz (procs (os u) ! p))} = {}"
    using O h by (auto simp: huge_brk.mine_def owned_def)
  then have "owned False lo (unat (p_sz (procs (os u') ! p))) b us u'"
    unfolding A(4) by (rule owned_frame [OF O(1) A(3,2)])
  then have "pools p lo b hb us (insert a hus) u'" using a(5) A(4) h unfolding pools_def by simp
  then show ?thesis using A(1) a by blast
qed

lemma units_room:
  assumes "unat nbytes < 0x7FFFFFF8"
  shows "unat (units nbytes) = (unat nbytes + 7) div 8 + 1" "unat nbytes + 8 \<le> 8 * unat (units nbytes)" "0 < units nbytes"
    "8 * unat (units nbytes) \<le> unat nbytes + 15"
proof -
  have a: "unat (nbytes + HDR - 1) = unat nbytes + 7" using assms by (simp add: unat_word_ariths)
  then have d: "unat ((nbytes + HDR - 1) div HDR) = (unat nbytes + 7) div 8" by (simp add: unat_div)
  show u: "unat (units nbytes) = (unat nbytes + 7) div 8 + 1"
    unfolding units_def unat_add_lem [THEN iffD1] using assms d by (simp add: unat_word_ariths)
  then show "unat nbytes + 8 \<le> 8 * unat (units nbytes)" "0 < units nbytes" by (simp_all add: word_less_nat_alt)
  obtain v where v: "v = unat nbytes + 7" by simp
  have "8 * (v div 8 + 1) \<le> v + 8" by simp
  then show "8 * unat (units nbytes) \<le> unat nbytes + 15" unfolding u v by simp
qed

lemma pools_uout: "pools p lo b hb us hus u \<Longrightarrow> pools p lo b hb us hus (u\<lparr>uout := x\<rparr>)"
proof -
  have s: "same_headers {} u (u\<lparr>uout := x\<rparr>)" "free_ptr hg (u\<lparr>uout := x\<rparr>) = free_ptr hg u" for hg
    by (simp_all add: same_headers_def free_ptr_def)
  show "pools p lo b hb us hus u \<Longrightarrow> pools p lo b hb us hus (u\<lparr>uout := x\<rparr>)"
    unfolding pools_def using owned_frame [OF _ s] by simp
qed

lemma huge_block_above:
  assumes "pools p lo b hb us (insert a hus) u"
  shows "HUGE_PAGE_START \<le> a + HDR"
proof -
  obtain as where h: "heap True 0x1E000000 (unat (huge_top p (os u))) hb as (insert a hus) u"
    using assms by (auto simp: pools_def owned_def split: if_splits)
  have a: "0x1E000000 \<le> unat a" "0 < unat (h_size u a)" "fin (h_size u) a \<le> unat (huge_top p (os u))"
    using heapD(6) [OF h, of a] by (auto simp: word_less_nat_alt)
  have "unat a + 8 * unat (h_size u a) < 2 ^ 32" using order_le_less_trans [OF a(3) heapD(5) [OF h]] by (simp add: fin_def)
  then have "unat (a + HDR) = unat a + 8" "0x1E000000 \<le> unat a" using a(1,2) by (simp_all add: unat_word_ariths)
  then show ?thesis by (simp add: word_le_nat_alt)
qed

lemma huge_request:
  fixes u :: "'a sys_state_scheme umem"
  assumes "pools p lo b hb us hus u" "huge_ready p lim (os u)"
    and "unat (huge_top p (os u)) + max 0x400000 (unat nbytes + 15) \<le> min lim 0x3E000000"
  shows "\<exists>r u'. alloc_units (user_kernel b hb) True (units nbytes) (u\<lparr>uout := out\<rparr>) = Some (r, u') \<and> HUGE_PAGE_START \<le> r \<and>
    r - HDR \<notin> hus \<and> unat nbytes + 8 \<le> 8 * unat (h_size u' (r - HDR)) \<and> huge_ready p lim (os u') \<and>
    pools p lo b hb us (insert (r - HDR) hus) u'"
proof -
  let ?v = "u\<lparr>uout := out\<rparr>"
  have "unat nbytes + 15 \<le> max 0x400000 (unat nbytes + 15)" by (rule max.cobounded2)
  then have nb: "unat nbytes < 0x7FFFFFF8" using assms(3) by linarith
  note U = units_room [OF nb]
  have m: "8 * unat (max 0x80000 (units nbytes)) \<le> max 0x400000 (unat nbytes + 15)"
    using U(4) by (auto simp: max_def word_le_nat_alt)
  have l: "y < 2 ^ 28" "x + 8 * y \<le> min lim 0x3E000000" if "8 * y \<le> z" "x + z \<le> min lim 0x3E000000" for x y z :: nat
    using that by simp_all
  have P: "pools p lo b hb us hus ?v" "os ?v = os u" using assms(1) pools_uout by auto
  have R: "huge_ready p lim (os ?v)" using assms(2) P(2) by simp
  obtain a u' where A: "alloc_units (user_kernel b hb) True (units nbytes) ?v = Some (a + HDR, u')" "a \<notin> hus" "h_size u' a = units nbytes"
    "huge_ready p lim (os u')" "pools p lo b hb us (insert a hus) u'"
    using huge_alloc [OF P(1) R U(3)] l [OF m assms(3)] unfolding P(2) by blast
  have "HUGE_PAGE_START \<le> a + HDR" using A(5) by (rule huge_block_above)
  then show ?thesis using A U(2) by (intro exI [of _ "a + HDR"] exI [of _ u']) simp
qed

section \<open>Properties\<close>

text \<open>
  A heap for concrete instances: one free block of a page in the pool for 4 KB pages, the other pool not in use yet.
\<close>

definition user0 :: "sys_state \<Rightarrow> sys_state umem" where
  "user0 k = \<lparr>h_ptr = (\<lambda>_. 0)(0x1000 := 0x2000, 0x2000 := 0x1000), h_size = (\<lambda>_. 0)(0x2000 := 0x200),
     freep = 0x1000, hugefreep = 0, os = k, uout = []\<rparr>"

definition sys0 :: "machine \<Rightarrow> sys_state" where
  "sys0 s = (let k = pstate0 s [proc0\<lparr>p_sz := 0x3000, p_hugesz := 0, p_pgdir := 0x80200000, p_kstack := 0x80203000\<rparr>] in
     undefined\<lparr>mach := mach k, procs := procs k, cproc := cproc k, apicids := apicids k, lapicid := lapicid k, GLOBAL_THP := 0\<rparr>)"

lemma runs_sys0:
  "runs (sys0 s) 0 d ps = runs (pstate0 s [proc0\<lparr>p_sz := 0x3000, p_hugesz := 0, p_pgdir := 0x80200000, p_kstack := 0x80203000\<rparr>]) 0 d ps"
  by (simp add: sys0_def Let_def runs_def calm_def del: calm_pstate0 pstate0_simps)

lemma pools0: "pools 0 0x2000 0x1000 0x1010 {} {} (user0 (sys0 s))"
proof -
  have "heap False 0x2000 0x3000 0x1000 [0x2000] {} (user0 (sys0 s))"
    by (simp add: heap_def pool_at_def pool_def user0_def free_ptr_def fin_def word_less_nat_alt)
  then show ?thesis by (auto simp: pools_def owned_def user0_def free_ptr_def sys0_def Let_def)
qed

lemma example_huge_user:
  obtains u :: "sys_state umem"
  where "pools 0 0x2000 0x1000 0x1010 {} {} u" "huge_ready 0 0x1E400000 (os u)" "unat (huge_top 0 (os u)) = 0x1E000000"
proof (rule example_huge)
  let ?d = "0x80200000 :: u32"
  fix s assume s: "aspace s ?d [0x80201000, 0x80202000]" "hpool s [0x9E000000]"
    "\<And>i. unat i < 1024 \<Longrightarrow> tab (mem s) ?d i = None" "\<And>i. unat i < 1024 \<Longrightarrow> \<not> huge (mem s) ?d i"
  let ?k = "pstate0 s [proc0\<lparr>p_sz := 0x3000, p_hugesz := 0, p_pgdir := ?d, p_kstack := 0x80203000\<rparr>]"
  let ?u = "user0 (sys0 s)"
  have k: "mach (sys0 s) = mach ?k" "procs (sys0 s) = procs ?k" "cproc (sys0 s) = cproc ?k" "os ?u = sys0 s"
    by (simp_all add: sys0_def Let_def user0_def)
  have c: "calm (sys0 s) = calm ?k" by (simp add: sys0_def Let_def calm_def del: calm_pstate0 pstate0_simps)
  have a: "aspace (mach ?k) ?d [0x80201000, 0x80202000]" using s(1) by (rule aspace_pstate0)
  have h: "hpool (mach ?k) [0x9E000000]"
    using s(2) aspaceD(1) [OF a] by (simp add: hpool_def kpool_def) (simp add: pstate0_def)
  have "huge_ready 0 0x1E400000 (os ?u)"
    unfolding huge_ready_def k c using a h s(3,4) [OF PDX_less]
    by (intro exI [of _ ?d] exI [of _ "[0x80201000, 0x80202000]"] exI [of _ "[0x9E000000]"]) (simp add: HUGEPGROUNDUP_def)
  then show ?thesis using that [of ?u] pools0 [of s] by (simp add: k)
qed

text \<open>
  Claim C5. \<open>malloc\<close> without 4 MB pages (a request of at most 1000000 bytes, or THP off), over the kernel's \<^verbatim>\<open>sbrk\<close>: it
  returns. Either it gives 0, which happens only if \<^verbatim>\<open>sbrk\<close> fails, and all blocks stay, or it gives a new block with
  room for the request that overlaps neither a block in use nor a free one, and the other pool is as before.
\<close>

theorem malloc_gives_new_block:
  fixes u :: "'a sys_state_scheme umem"
  assumes "pools p lo b hb us hus u" "base_ready p (os u)" "nbytes \<le> 1000000 \<or> GLOBAL_THP (os u) = 0"
    and "unat (p_sz (procs (os u) ! p)) + max 32768 (unat nbytes + 15) < 0x1E000000"
  shows "\<exists>r u'. malloc (user_kernel b hb) nbytes u = Some (r, u') \<and>
    (r = 0 \<and> fst (user_call sbrk_op (max 4096 (units nbytes) * HDR) (os u)) = - 1 \<and> pools p lo b hb us hus u' \<or>
     r - HDR \<notin> us \<and> unat nbytes + 8 \<le> 8 * unat (h_size u' (r - HDR)) \<and> base_ready p (os u') \<and>
       pools p lo b hb (insert (r - HDR) us) hus u')"
proof -
  have nb: "unat nbytes < 0x7FFFFFF8" using assms(4) by simp
  note U = units_room [OF nb]
  have m: "8 * unat (max 4096 (units nbytes)) \<le> max 32768 (unat nbytes + 15)"
    using U(4) by (auto simp: max_def word_le_nat_alt)
  have l: "y < 2 ^ 28" "x + 8 * y < 0x1E000000" if "8 * y \<le> z" "x + z < 0x1E000000" for x y z :: nat
    using that by simp_all
  note B = base_alloc [OF assms(1,2) U(3) l [OF m assms(4)]]
  have "malloc (user_kernel b hb) nbytes u = alloc_units (user_kernel b hb) False (units nbytes) u"
    using assms(3) by (auto simp: malloc_def user_kernel_def not_le [symmetric])
  then show ?thesis using B U(2) by (metis add_diff_cancel)
qed

theorem malloc_gives_new_block_witness:
  "\<exists>(u :: sys_state umem) u'. pools 0 0x2000 0x1000 0x1010 {} {} u \<and> malloc (user_kernel 0x1000 0x1010) 100 u = Some (0x2F98, u') \<and>
     108 \<le> 8 * unat (h_size u' 0x2F90) \<and> pools 0 0x2000 0x1000 0x1010 {0x2F90} {} u'"
proof (rule example_proc)
  fix s assume s: "\<And>sz hz. runs (pstate0 s [proc0\<lparr>p_sz := sz, p_hugesz := hz, p_pgdir := 0x80200000, p_kstack := 0x80203000\<rparr>])
      0 0x80200000 [0x80201000, 0x80202000]" "entry (mem s) 0x80200000 = (\<lambda>_. 0)"
    "\<And>i. unat i < 1024 \<Longrightarrow> \<not> huge (mem s) 0x80200000 i"
  let ?u = "user0 (sys0 s)"
  have k: "GLOBAL_THP (os ?u) = 0" "p_sz (procs (os ?u) ! 0) = 0x3000" by (simp_all add: user0_def sys0_def Let_def)
  have "runs (os ?u) 0 0x80200000 [0x80201000, 0x80202000]"
    using s(1) runs_sys0 by (simp add: user0_def)
  then have "base_ready 0 (os ?u)"
    unfolding base_ready_def using s(2) s(3) [OF PDX_less] by (intro exI conjI) (auto simp: user0_def sys0_def Let_def)
  then obtain r u' where r: "malloc (user_kernel 0x1000 0x1010) 100 ?u = Some (r, u')"
    "r = 0 \<or> unat (100 :: u32) + 8 \<le> 8 * unat (h_size u' (r - HDR)) \<and> pools 0 0x2000 0x1000 0x1010 {r - HDR} {} u'"
    using malloc_gives_new_block [OF pools0 _ disjI2 [OF k(1)], of 100] k(2) by auto
  have "r = 0x2F98"
    using r(1) by (simp add: malloc_def user_kernel_def user0_def units_def alloc_units_def init_pool_def free_ptr_def Let_def
        alloc_loop.simps take_units_def set_size_def set_free_ptr_def)
  then show ?thesis using r pools0 [of s] by (intro exI [of _ ?u] exI [of _ u']) simp
qed

text \<open>
  Claim C30. An allocation from 4 MB pages is either \<open>vmalloc\<close> with \<^verbatim>\<open>VMALLOC_SIZE_HUGE\<close> or, with THP on, \<open>malloc\<close> of at least 1 MB.
  Over the kernel's \<^verbatim>\<open>shugebrk\<close> with enough 4 MB pages left it returns a new block above \<^verbatim>\<open>HUGE_PAGE_START\<close> with room for
  the request that overlaps neither a block in use nor a free one, and the pool for 4 KB pages is as before.
\<close>

theorem vmalloc_gives_huge_block:
  fixes u :: "'a sys_state_scheme umem"
  assumes "pools p lo b hb us hus u" "huge_ready p lim (os u)"
    and "unat (huge_top p (os u)) + max 0x400000 (unat nbytes + 15) \<le> min lim 0x3E000000"
    and "call = vmalloc (user_kernel b hb) nbytes VMALLOC_SIZE_HUGE \<or>
      call = malloc (user_kernel b hb) nbytes \<and> 0x100000 \<le> nbytes \<and> GLOBAL_THP (os u) \<noteq> 0"
  shows "\<exists>r u'. call u = Some (r, u') \<and> HUGE_PAGE_START \<le> r \<and>
    r - HDR \<notin> hus \<and> unat nbytes + 8 \<le> 8 * unat (h_size u' (r - HDR)) \<and> huge_ready p lim (os u') \<and>
    pools p lo b hb us (insert (r - HDR) hus) u'"
proof -
  have "1000000 < nbytes" if "0x100000 \<le> nbytes" using that by (simp add: word_less_nat_alt word_le_nat_alt)
  then have "\<exists>out. call u = alloc_units (user_kernel b hb) True (units nbytes) (u\<lparr>uout := out\<rparr>)"
    using assms(4) by (intro exI [of _ "if call u = vmalloc (user_kernel b hb) nbytes VMALLOC_SIZE_HUGE u then uout u else uout u @ [''Triggered thp'' @ [CHR 0x0A]]"])
      (auto simp: vmalloc_def malloc_def user_kernel_def)
  then show ?thesis using huge_request [OF assms(1-3)] by metis
qed

theorem vmalloc_gives_huge_block_witness:
  "\<exists>(u :: sys_state umem) r u'. pools 0 0x2000 0x1000 0x1010 {} {} u \<and>
     vmalloc (user_kernel 0x1000 0x1010) 3000000 VMALLOC_SIZE_HUGE u = Some (r, u') \<and> HUGE_PAGE_START \<le> r \<and>
     3000008 \<le> 8 * unat (h_size u' (r - HDR)) \<and> pools 0 0x2000 0x1000 0x1010 {} {r - HDR} u'"
proof (rule example_huge_user)
  fix u :: "sys_state umem"
  assume u: "pools 0 0x2000 0x1000 0x1010 {} {} u" "huge_ready 0 0x1E400000 (os u)" "unat (huge_top 0 (os u)) = 0x1E000000"
  then obtain r u' where "vmalloc (user_kernel 0x1000 0x1010) 3000000 VMALLOC_SIZE_HUGE u = Some (r, u')" "HUGE_PAGE_START \<le> r"
    "unat (3000000 :: u32) + 8 \<le> 8 * unat (h_size u' (r - HDR))" "pools 0 0x2000 0x1000 0x1010 {} {r - HDR} u'"
    using vmalloc_gives_huge_block [OF u(1,2) _ disjI1 [OF refl], of 3000000] by auto
  then show ?thesis using u(1) by (intro exI [of _ u] exI [of _ r] exI [of _ u']) simp
qed

text \<open>
  Claim C31. Where \<open>vmalloc\<close> does not keep to its flag: with THP on, a request for 4 KB pages of more than 1000000 bytes gets a block of
  4 MB pages, and so does every request whose flag is neither \<^verbatim>\<open>VMALLOC_SIZE_BASE\<close> nor \<^verbatim>\<open>VMALLOC_SIZE_HUGE\<close>; neither is
  refused, and the pool for 4 KB pages is as before.
\<close>

theorem vmalloc_disregards_flag:
  fixes u :: "'a sys_state_scheme umem"
  assumes "pools p lo b hb us hus u" "huge_ready p lim (os u)"
    and "unat (huge_top p (os u)) + max 0x400000 (unat nbytes + 15) \<le> min lim 0x3E000000"
    and "flag = VMALLOC_SIZE_BASE \<and> 1000000 < nbytes \<and> GLOBAL_THP (os u) \<noteq> 0 \<or> flag \<notin> {VMALLOC_SIZE_BASE, VMALLOC_SIZE_HUGE}"
  shows "\<exists>r u'. vmalloc (user_kernel b hb) nbytes flag u = Some (r, u') \<and> HUGE_PAGE_START \<le> r \<and>
    pools p lo b hb us (insert (r - HDR) hus) u'"
proof -
  have "\<exists>out. vmalloc (user_kernel b hb) nbytes flag u = alloc_units (user_kernel b hb) True (units nbytes) (u\<lparr>uout := out\<rparr>)"
    using assms(4) by (intro exI [of _ "if flag = VMALLOC_SIZE_BASE then uout u @ [''Triggered thp'' @ [CHR 0x0A]] else uout u"])
      (auto simp: vmalloc_def malloc_def user_kernel_def)
  then show ?thesis using huge_request [OF assms(1-3)] by metis
qed

theorem vmalloc_disregards_flag_witness:
  "\<exists>(u :: sys_state umem) r u'. pools 0 0x2000 0x1000 0x1010 {} {} u \<and>
     vmalloc (user_kernel 0x1000 0x1010) 100 7 u = Some (r, u') \<and> HUGE_PAGE_START \<le> r"
proof (rule example_huge_user)
  fix u :: "sys_state umem"
  assume u: "pools 0 0x2000 0x1000 0x1010 {} {} u" "huge_ready 0 0x1E400000 (os u)" "unat (huge_top 0 (os u)) = 0x1E000000"
  then show ?thesis using vmalloc_disregards_flag [OF u(1,2), of 100 7] by auto
qed

end
