(* ===== verification/Spec2Isabelle.thy ===== *)
theory Spec2Isabelle
  imports Vm_Huge Syscall Grep Sh_Parse Umalloc_Kernel
begin

text \<open>
  A model of xv6 with 4 MB pages, the operating system under \<^verbatim>\<open>src/solution\<close>, and theorems about it. The model follows the C
  sources function by function; a definition has the name of the C function it translates, or that name with a suffix for a loop or
  a part of it. This theory collects the others.

  \<^bold>\<open>The program.\<close> The kernel manages two kinds of physical pages. 4 KB pages (\<^verbatim>\<open>kalloc\<close>) hold kernel data, page tables and ordinary
  user memory; 4 MB pages (\<^verbatim>\<open>khugealloc\<close>) back a second user heap that starts at \<^verbatim>\<open>HUGE_PAGE_START\<close>. On top of them are the
  address spaces (vm.c), the processes and their scheduler (proc.c), pipes, the disk driver, the buffer cache, the write-ahead log,
  the file system, open files, the console, program loading, the system calls and the trap handler. In user space the allocator
  (umalloc.c) keeps one pool of free blocks for each kind of page and gets memory by the system calls \<^verbatim>\<open>sbrk\<close> and \<^verbatim>\<open>shugebrk\<close>; the
  shell and grep run above it.

  \<^bold>\<open>Conventions.\<close> A 32-bit integer is a 32-bit word; signed comparisons go through \<^verbatim>\<open>sint\<close>, addresses through \<^verbatim>\<open>unat\<close>. Memory is a function
  from addresses to bytes. A kernel routine takes the state and gives an \<open>outcome\<close>: a result with the new state, a call of \<^verbatim>\<open>panic\<close>
  with its message, or \<open>Diverge\<close> for a routine that does not return. \<open>obind\<close> puts routines in sequence. The state of the kernel is a
  record that grows with the layers: the machine with memory, allocators and CPU (Kalloc), processes (Proc), pipes (Pipe),
  sleep locks (Sleeplock), disk and buffers (Bio), log (Log), inodes (Inode), console (Console), open files (File), system calls
  (Syscall). A routine that can sleep gives \<open>Done\<close> or \<open>Blocked\<close>, and a second definition with the suffix \<open>_return\<close> is what it does
  when it is woken up; the properties of pipes are about every interleaving of such steps. Routines of the file system run with \<open>alone\<close>:
  the model then describes one system call that nobody makes wait. A wait for the disk ends with the interrupt of the disk, and no other
  process runs in between.

  \<^bold>\<open>Loops and bounds.\<close> Loops over data are recursive functions with a termination proof. The loops of vm.c run with fuel
  \<open>all_pages\<close>, one step for every virtual page, which is more than they can take; the theorems show that they return. The scans of the
  buffer cache have fuel for one pass around the list. The parser of the shell has fuel for four calls per character, and
  \<open>Sh_Parse.parsecmd_ends\<close> shows that this is enough. The searches of the allocator are partial functions; that they end is part of the
  theorems about \<open>malloc\<close> and \<open>free\<close>. \<open>grep_loop\<close> has fuel for the number of reads, and the theorem holds for any fuel above
  the length of the file.

  \<^bold>\<open>Theories.\<close>
  \<^item> Prelude: outcomes, loops and their rules, words. Bytes: little-endian fields in byte lists. Layout: memlayout.h, mmu.h,
    param.h and the address macros, with their arithmetic. Cmem: loads and stores, string.c.
  \<^item> Spinlock: spinlock.c. The locks as used by several CPUs are a step relation; by rule induction at most one CPU is in its critical
    section (\<open>spinlock_mutual_exclusion\<close>), and nested \<open>pushcli\<close> and \<open>popcli\<close> balance as far as their 32-bit counter
    reaches (\<open>popcli_undoes_pushcli\<close>). \<open>can_push\<close>, room for one more level, is part of what the kernel routines assume of the CPU.
  \<^item> Kalloc: kalloc.c. The locale \<open>page_pool\<close> has the laws of a free list kept in the free pages themselves and is interpreted for
    both page sizes. No page is lost or given out twice (\<open>kalloc_accounts_for_pages\<close>, \<open>khugealloc_accounts_for_pages\<close>), and the boot
    code frees every page (\<open>kinit_frees_every_page\<close>, \<open>khugeinit_frees_128_pages\<close>).
  \<^item> Vm: vm.c. Vm_Space gives page tables in memory a meaning, one entry per virtual page (\<open>mappages_maps_range\<close>). Vm_Grow: growing is
    all or nothing, shrinking frees exactly the pages of the range, and nothing of an address space remains after \<open>freevm\<close>
    (\<open>allocuvm_grows_or_restores\<close>, \<open>deallocuvm_unmaps_range\<close>, \<open>freevm_returns_all_pages\<close>). Vm_Huge: the same operations on
    4 MB pages, with the two errors of their release (\<open>allochugeuvm_maps_or_leaks\<close>, \<open>deallocuvm_reads_user_word\<close>).
  \<^item> Proc and Proc_Life: proc.c. The sizes of a process follow its address space (\<open>growproc_all_or_nothing\<close>, \<open>growproc_shrinks\<close>,
    \<open>growhugeproc_grows\<close>, \<open>growhugeproc_shrinks_base_heap\<close>); the scheduler is fair (\<open>scheduler_fair\<close>). Proc_Life has \<open>fork\<close> and \<open>exit\<close>.
  \<^item> Pipe: pipe.c. In every interleaving of readers and writers the bytes read are the bytes written, no wakeup is lost as long as no write fails, and the
    system is not stuck (\<open>pipe_stream\<close>, \<open>pipe_no_lost_wakeup\<close>, \<open>pipe_never_stuck\<close>); a killed writer is the exception
    (\<open>pipewrite_killed_no_wakeup\<close>).
  \<^item> Sleeplock: sleeplock.c. Bio: ide.c and bio.c. Bio_Cache has the invariant of the buffers, Bio_Ops what each operation does to it,
    Bio_Spec the refinement: through the cache the disk is an array of blocks (\<open>cache_transparent\<close>).
  \<^item> Log: log.c. Log_Spec has the writes a commit makes, Log_Crash what a crash leaves: after recovery all of a transaction is on the disk
    or nothing of it (\<open>commit_crash_atomic\<close>).
  \<^item> Printf: the formatting of console.c and printf.c (\<open>atoi_printint\<close>, \<open>printint_fits\<close>). Inode and Fs: fs.c. Console: console.c.
    File: file.c. Sysfile: sysfile.c and the access to system call arguments. Exec: exec.c. Kbd: kbd.c. Syscall: sysproc.c, syscall.c, trap.c.
  \<^item> Umalloc: umalloc.c. Umalloc_Pool and Umalloc_Alloc treat a pool as a sorted circular list of blocks; \<open>free_returns_block\<close>. Umalloc_Heap
    has the locale \<open>break_call\<close>, what the allocator expects of the kernel, and proves the allocator in it; Umalloc_Kernel interprets it
    twice on the model of the kernel, for \<^verbatim>\<open>sbrk\<close> and for \<^verbatim>\<open>shugebrk\<close> (\<open>malloc_gives_new_block\<close>, \<open>vmalloc_gives_huge_block\<close>; \<open>vmalloc_disregards_flag\<close> is where \<^verbatim>\<open>vmalloc\<close> and its description differ).
  \<^item> Grep: grep.c. The matcher agrees with a declarative meaning of expressions (\<open>match_correct\<close>), and \<open>grep\<close> writes the lines that match
    (\<open>grep_writes_matching_lines\<close>); of a line that does not fit its buffer it writes only the end (\<open>grep_drops_partial_line\<close>).
  \<^item> Sh and Sh_Parse: the parser of sh.c ends and gives back every printed command (\<open>parsecmd_ends\<close>, \<open>parsecmd_line\<close>).

  \<^bold>\<open>Not modelled.\<close> Assembly (boot loader, entry, context switch, trap entry) and the registers of devices (interrupt controllers, timer,
  serial port, the firmware tables of the multiprocessor): their effect on the state is in the operations that use them. Segment
  descriptors and the gate table. The start sequence of main.c, which mostly initialises devices. The shell's running of commands and
  the small user programs, which are sequences of system calls. mkfs.c, a program of the host. memide.c, which replaces the disk driver in
  a build without a disk. The test programs. The order of memory accesses between CPUs below the level of the spin locks.
\<close>

end
